(* ===== verification/CMem.thy ===== *)
theory CMem
  imports Main "HOL-Library.Word"
begin

text \<open>
  Shared ground of the development: the error numbers of the C library, machine
  words and addresses of the x86-64 target, and a byte-addressed memory with the
  little-endian loads and stores a C program makes.

  An address is a 64-bit word and memory is a total function from addresses to
  bytes, so pointer arithmetic wraps as it does on the machine. A range of \<open>n\<close>
  bytes from \<open>a\<close> is the set of addresses \<open>x\<close> with \<open>unat (x - a) < n\<close>; the lemma
  \<open>in_range_nat\<close> turns that into ordinary inequalities when the range does not
  wrap. The collection \<open>mem_simps\<close> holds the read-over-write rules.
\<close>

unbundle bit_operations_syntax

named_theorems mem_simps \<open>read-over-write rules of the byte memory\<close>

section \<open>Types shared by all components\<close>

type_synonym addr = "64 word"
type_synonym byte = "8 word"
type_synonym mem = "addr \<Rightarrow> byte"
type_synonym u16 = "16 word"
type_synonym u32 = "32 word"
type_synonym u64 = "64 word"

text \<open>The values of \<open>errno\<close> the component assigns, as the C library names them.\<close>

datatype errno =
    EAGAIN | EBADF | EEXIST | EFAULT | EINVAL | EIO | EMFILE | ENODEV | ENOENT
  | ENOMEM | ENOSPC | ENOTTY | ERANGE | EROFS | ESRCH | ETIMEDOUT | ENOSYS

text \<open>A call that sets \<open>errno\<close> and returns its failure value is \<open>Inl\<close> of that number.\<close>

type_synonym 'a result = "errno + 'a"

definition is_ok :: "'a result \<Rightarrow> bool" where
  "is_ok r = (case r of Inl _ \<Rightarrow> False | Inr _ \<Rightarrow> True)"

lemma is_ok_simps [simp]: "is_ok (Inr v)" "\<not> is_ok (Inl e)"
  by (simp_all add: is_ok_def)

section \<open>Little-endian encoding of words\<close>

fun le_bytes :: "nat \<Rightarrow> 'a::len word \<Rightarrow> byte list" where
  "le_bytes 0 w = []"
| "le_bytes (Suc n) w = ucast w # le_bytes n (drop_bit 8 w)"

fun le_word :: "byte list \<Rightarrow> 'a::len word" where
  "le_word [] = 0"
| "le_word (b # bs) = ucast b OR push_bit 8 (le_word bs)"

lemma length_le_bytes [simp]: "length (le_bytes n w) = n"
  by (induction n arbitrary: w) simp_all

lemma nth_le_bytes: "i < n \<Longrightarrow> le_bytes n w ! i = ucast (drop_bit (8 * i) w)"
proof (induction n arbitrary: w i)
  case 0
  then show ?case by simp
next
  case (Suc n)
  then show ?case by (cases i) (simp_all add: add.commute)
qed

lemma bit_ucast_byte: "bit (ucast (b :: byte) :: 'a::len word) n \<longleftrightarrow> n < LENGTH('a) \<and> n < 8 \<and> bit b n"
  by (auto simp: bit_simps dest: bit_imp_le_length)

lemma le_word_le_bytes_take: "le_word (le_bytes n w) = take_bit (8 * n) (w :: 'a::len word)"
proof (induction n arbitrary: w)
  case 0
  then show ?case by simp
next
  case (Suc n)
  have IH: "le_word (le_bytes n (drop_bit 8 w)) = take_bit (8 * n) (drop_bit 8 w)"
    by (rule Suc.IH)
  show ?case
  proof (rule bit_word_eqI)
    fix k
    assume k: "k < LENGTH('a)"
    show "bit (le_word (le_bytes (Suc n) w) :: 'a word) k = bit (take_bit (8 * Suc n) w) k"
      using k by (cases "k < 8") (auto simp: IH bit_simps)
  qed
qed

lemma le_word_le_bytes [simp]:
  "LENGTH('a) \<le> 8 * n \<Longrightarrow> le_word (le_bytes n w) = (w :: 'a::len word)"
  by (simp add: le_word_le_bytes_take take_bit_word_eq_self)

lemma le_word_64 [simp]: "le_word (le_bytes 8 w) = (w :: u64)"
  by (rule le_word_le_bytes) simp

lemma le_word_32 [simp]: "le_word (le_bytes 4 w) = (w :: u32)"
  by (rule le_word_le_bytes) simp

section \<open>Byte memory\<close>

definition loads :: "nat \<Rightarrow> mem \<Rightarrow> addr \<Rightarrow> byte list" where
  "loads n m a = map (\<lambda>i. m (a + of_nat i)) [0..<n]"

definition stores :: "mem \<Rightarrow> addr \<Rightarrow> byte list \<Rightarrow> mem" where
  "stores m a bs = (\<lambda>x. if unat (x - a) < length bs then bs ! unat (x - a) else m x)"

definition load64 :: "mem \<Rightarrow> addr \<Rightarrow> u64" where
  "load64 m a = le_word (loads 8 m a)"

definition store64 :: "mem \<Rightarrow> addr \<Rightarrow> u64 \<Rightarrow> mem" where
  "store64 m a w = stores m a (le_bytes 8 w)"

definition load32 :: "mem \<Rightarrow> addr \<Rightarrow> u32" where
  "load32 m a = le_word (loads 4 m a)"

definition store32 :: "mem \<Rightarrow> addr \<Rightarrow> u32 \<Rightarrow> mem" where
  "store32 m a w = stores m a (le_bytes 4 w)"

definition memset :: "mem \<Rightarrow> addr \<Rightarrow> byte \<Rightarrow> u64 \<Rightarrow> mem" where
  "memset m p c n = (\<lambda>x. if x - p < n then c else m x)"

definition memcpy :: "mem \<Rightarrow> addr \<Rightarrow> addr \<Rightarrow> u64 \<Rightarrow> mem" where
  "memcpy m dst src n = (\<lambda>x. if x - dst < n then m (src + (x - dst)) else m x)"

lemma length_loads [simp]: "length (loads n m a) = n"
  by (simp add: loads_def)

lemma loads_cong: "(\<And>i. i < n \<Longrightarrow> m (a + of_nat i) = m' (a + of_nat i)) \<Longrightarrow> loads n m a = loads n m' a"
  by (simp add: loads_def)

lemma loads_stores_same [mem_simps]:
  assumes "length bs = n" and "n < 2 ^ 64"
  shows "loads n (stores m a bs) a = bs"
  using assms by (intro nth_equalityI) (simp_all add: loads_def stores_def unat_of_nat)

lemma unat_diff_offset:
  fixes a b :: addr
  assumes "i < k" and "k \<le> unat (b - a)" and "n \<le> unat (a - b)"
  shows "\<not> unat (a + of_nat i - b) < n"
proof -
  define d where "d = a - b"
  have neg: "b - a = - d" by (simp add: d_def)
  have kd: "k \<le> unat (- d)" and nd: "n \<le> unat d"
    using assms by (simp_all add: d_def neg [symmetric])
  have sum: "a + of_nat i - b = d + of_nat i" by (simp add: d_def)
  have lt: "unat d < 2 ^ 64" "unat (- d) < 2 ^ 64" using unsigned_less [of d] unsigned_less [of "- d"] by simp_all
  have i64: "unat (of_nat i :: addr) = i" using assms(1) kd lt by (simp add: unat_of_nat)
  show ?thesis
  proof (cases "d = 0")
    case True
    then show ?thesis using kd assms(1) by simp
  next
    case False
    then have "unat (- d) = 2 ^ 64 - unat d"
      using unat_sub_if' [of 0 d] by (simp add: unat_eq_zero)
    then have "unat d + i < 2 ^ 64" using kd assms(1) lt by simp
    then have "unat (d + of_nat i) = unat d + i" by (simp add: unat_plus_if' i64)
    then show ?thesis using nd by (simp add: sum)
  qed
qed

lemma loads_stores_disj [mem_simps]:
  assumes "length bs \<le> unat (a' - a)" and "n \<le> unat (a - a')"
  shows "loads n (stores m a bs) a' = loads n m a'"
  by (rule loads_cong) (simp add: stores_def unat_diff_offset [OF _ assms(2,1)])

lemma load64_store64_same [mem_simps]: "load64 (store64 m a w) a = w"
  by (simp add: load64_def store64_def loads_stores_same)

lemma load32_store32_same [mem_simps]: "load32 (store32 m a w) a = w"
  by (simp add: load32_def store32_def loads_stores_same)

lemma load64_store64_disj [mem_simps]:
  "8 \<le> unat (a' - a) \<Longrightarrow> 8 \<le> unat (a - a') \<Longrightarrow> load64 (store64 m a w) a' = load64 m a'"
  by (simp add: load64_def store64_def loads_stores_disj)

lemma load64_store32_disj [mem_simps]:
  "4 \<le> unat (a' - a) \<Longrightarrow> 8 \<le> unat (a - a') \<Longrightarrow> load64 (store32 m a w) a' = load64 m a'"
  by (simp add: load64_def store32_def loads_stores_disj)

lemma load32_store64_disj [mem_simps]:
  "8 \<le> unat (a' - a) \<Longrightarrow> 4 \<le> unat (a - a') \<Longrightarrow> load32 (store64 m a w) a' = load32 m a'"
  by (simp add: load32_def store64_def loads_stores_disj)

lemma load32_store32_disj [mem_simps]:
  "4 \<le> unat (a' - a) \<Longrightarrow> 4 \<le> unat (a - a') \<Longrightarrow> load32 (store32 m a w) a' = load32 m a'"
  by (simp add: load32_def store32_def loads_stores_disj)

lemma store64_other [mem_simps]: "8 \<le> unat (x - a) \<Longrightarrow> store64 m a w x = m x"
  by (simp add: store64_def stores_def)

lemma store32_other [mem_simps]: "4 \<le> unat (x - a) \<Longrightarrow> store32 m a w x = m x"
  by (simp add: store32_def stores_def)

section \<open>Address ranges\<close>

text \<open>A range that does not wrap past the end of the address space.\<close>

lemma in_range_nat:
  fixes a x :: addr
  assumes "unat a + n \<le> 2 ^ 64"
  shows "unat (x - a) < n \<longleftrightarrow> unat a \<le> unat x \<and> unat x < unat a + n"
  using assms unsigned_less [of x] by (auto simp: unat_sub_if')

lemma range_disj_le:
  fixes a b :: addr
  assumes "unat a + n \<le> unat b" and "unat b + k \<le> 2 ^ 64" and "0 < n"
  shows "n \<le> unat (b - a)" and "k \<le> unat (a - b)"
proof -
  show "n \<le> unat (b - a)" using assms by (simp add: unat_sub_if')
  show "k \<le> unat (a - b)"
    using assms by (simp add: unat_sub_if')
qed

lemma loads_eq_iff: "loads n m a = loads n m' a \<longleftrightarrow> (\<forall>i<n. m (a + of_nat i) = m' (a + of_nat i))"
  by (auto simp: loads_def)

text \<open>Loads see only the bytes they read.\<close>

lemma load64_cong:
  assumes "unat a + 8 \<le> 2 ^ 64"
    and "\<And>x. unat a \<le> unat x \<Longrightarrow> unat x < unat a + 8 \<Longrightarrow> m x = m' x"
  shows "load64 m a = load64 m' a"
proof -
  have "m (a + of_nat i) = m' (a + of_nat i)" if "i < 8" for i
  proof -
    have "unat (a + of_nat i - a) < 8" using that by (simp add: unat_of_nat)
    then show ?thesis using assms in_range_nat [of a 8 "a + of_nat i"] by blast
  qed
  then show ?thesis unfolding load64_def by (metis loads_eq_iff)
qed

lemma load32_cong:
  assumes "unat a + 4 \<le> 2 ^ 64"
    and "\<And>x. unat a \<le> unat x \<Longrightarrow> unat x < unat a + 4 \<Longrightarrow> m x = m' x"
  shows "load32 m a = load32 m' a"
proof -
  have "m (a + of_nat i) = m' (a + of_nat i)" if "i < 4" for i
  proof -
    have "unat (a + of_nat i - a) < 4" using that by (simp add: unat_of_nat)
    then show ?thesis using assms in_range_nat [of a 4 "a + of_nat i"] by blast
  qed
  then show ?thesis unfolding load32_def by (metis loads_eq_iff)
qed

lemma memset_apply [mem_simps]:
  assumes "unat p + unat n \<le> 2 ^ 64"
  shows "memset m p c n x = (if unat p \<le> unat x \<and> unat x < unat p + unat n then c else m x)"
  using in_range_nat [OF assms, of x] by (simp add: memset_def word_less_nat_alt)

lemma memcpy_apply [mem_simps]:
  assumes "unat dst + unat n \<le> 2 ^ 64"
  shows "memcpy m dst src n x =
    (if unat dst \<le> unat x \<and> unat x < unat dst + unat n then m (src + (x - dst)) else m x)"
  using in_range_nat [OF assms, of x] by (simp add: memcpy_def word_less_nat_alt)

lemma unat_add_no_wrap:
  fixes a b :: addr
  shows "unat a + unat b < 2 ^ 64 \<Longrightarrow> unat (a + b) = unat a + unat b"
  by (simp add: unat_plus_if')

lemma unat_ucast_u32 [simp]: "unat (ucast (w :: u32) :: u64) = unat w"
  by (simp add: unsigned_ucast_eq take_bit_nat_eq_self_iff order_less_trans [OF unsigned_less])

lemma unat_offset:
  fixes p :: addr
  assumes "unat p + n < 2 ^ 64" and "i \<le> n"
  shows "unat (p + of_nat i) = unat p + i"
proof -
  have "i < 2 ^ 64" using assms by linarith
  then have "unat (of_nat i :: addr) = i" by (simp add: unat_of_nat)
  then show ?thesis using assms by (simp add: unat_plus_if')
qed

section \<open>Powers of two and alignment\<close>

lemma unat_two_power: "k < LENGTH('a) \<Longrightarrow> unat (2 ^ k :: 'a::len word) = 2 ^ k"
proof -
  assume "k < LENGTH('a)"
  then have "(2::nat) ^ k < 2 ^ LENGTH('a)" by (rule power_strict_increasing) simp
  then have "unat (of_nat (2 ^ k) :: 'a word) = 2 ^ k" by (simp only: unat_of_nat mod_less)
  then show ?thesis by simp
qed

lemma and_not_mask_eq:
  fixes v :: "'a::len word"
  shows "v AND NOT (mask k) = v - take_bit k v"
proof -
  have "v = (v AND mask k) + (v AND NOT (mask k))"
    by (subst disjunctive_add) (auto simp: bit_simps intro!: bit_word_eqI)
  then show ?thesis by (simp add: take_bit_eq_mask algebra_simps)
qed

lemma unat_and_not_mask:
  fixes v :: "'a::len word"
  shows "unat (v AND NOT (mask k)) = unat v div 2 ^ k * 2 ^ k"
proof -
  have tb: "unat (take_bit k v) = unat v mod 2 ^ k"
    by (subst unsigned_take_bit_eq) (rule take_bit_eq_mod)
  have le: "take_bit k v \<le> v"
    by (simp add: word_le_nat_alt tb)
  have "unat (v AND NOT (mask k)) = unat v - unat v mod 2 ^ k"
    by (simp add: and_not_mask_eq unat_sub [OF le] tb)
  then show ?thesis by (simp add: minus_mod_eq_div_mult)
qed

lemma round_up_nat:
  fixes v k :: nat
  assumes "0 < k"
  shows "v \<le> (v + k - 1) div k * k" and "(v + k - 1) div k * k < v + k"
    and "k dvd (v + k - 1) div k * k"
proof -
  have "(v + k - 1) div k * k + (v + k - 1) mod k = v + k - 1"
    by (rule div_mult_mod_eq)
  moreover have "(v + k - 1) mod k < k" using assms by simp
  ultimately show "v \<le> (v + k - 1) div k * k" and "(v + k - 1) div k * k < v + k"
    using assms by linarith+
qed simp

section \<open>Invariants of step relations\<close>

lemma steps_preserve:
  assumes "step\<^sup>*\<^sup>* c c'" and "I c" and "\<And>c c'. step c c' \<Longrightarrow> I c \<Longrightarrow> I c'"
  shows "I c'"
  using assms(1) by (induction rule: rtranclp_induct) (use assms(2,3) in blast)+

end
