(* ===== verification/Ruby_Run.thy ===== *)
theory Ruby_Run
  imports CMem
begin

text \<open>
  The component's main program, \<^verbatim>\<open>ruby.c\<close>: it reads one script from the archive and has
  the interpreter evaluate it.

  The file calls, the allocator and the interpreter are parameters over a world \<open>'w\<close>:
  \<open>script_calls\<close> holds the calls \<open>read_script\<close> makes and access to the memory they
  share with it, \<open>eval\<close> is \<open>rb_eval_string_protect\<close>, which returns the state it stores.
  What the program does is the list of events, in order. \<^verbatim>\<open>Ruby_System\<close> supplies the calls
  that this component defines itself.
\<close>

section \<open>Reading the script\<close>

text \<open>
  \<open>open\<close> and \<open>malloc\<close> walk lists and may not return (\<open>None\<close>). \<open>fstat\<close> gives \<open>st_size\<close>, a
  signed word. \<open>malloc\<close> gives 0 for \<open>NULL\<close>. \<open>read\<close> stores what it reads at the address it
  is given and returns the number of bytes.
\<close>

record 'w script_calls =
  sc_mem :: "'w \<Rightarrow> mem"
  sc_poke :: "addr \<Rightarrow> byte \<Rightarrow> 'w \<Rightarrow> 'w"
  sc_open :: "string \<Rightarrow> 'w \<Rightarrow> (int result \<times> 'w) option"
  sc_fstat :: "int \<Rightarrow> 'w \<Rightarrow> u64 result \<times> 'w"
  sc_malloc :: "u64 \<Rightarrow> 'w \<Rightarrow> (addr \<times> 'w) option"
  sc_read :: "int \<Rightarrow> addr \<Rightarrow> u64 \<Rightarrow> 'w \<Rightarrow> u64 result \<times> 'w"
  sc_close :: "int \<Rightarrow> 'w \<Rightarrow> 'w"
  sc_free :: "addr \<Rightarrow> 'w \<Rightarrow> 'w"

datatype message = Failed_to_open | Failed_to_stat | Failed_to_allocate | Failed_to_read

datatype event =
    Opened int | Closed int | Allocated addr | Freed addr | Printed message
  | Init_stack | Traced string | Ruby_init | Init_enc | Init_ext | Builtin_inits
  | Evaluated "byte list" | Printed_errinfo | Ruby_finalize

text \<open>The read loop: the number of bytes read, or the error. A loop that never ends is \<open>None\<close>.\<close>

partial_function (option) read_loop ::
    "'w script_calls \<Rightarrow> int \<Rightarrow> addr \<Rightarrow> u64 \<Rightarrow> u64 \<Rightarrow> 'w \<Rightarrow> (u64 result \<times> 'w) option" where
  "read_loop sc fd buffer buffer_size used w =
     (if used + 1 < buffer_size
      then (case sc_read sc fd (buffer + used) (buffer_size - used - 1) w of
              (Inl e, w1) \<Rightarrow> Some (Inl e, w1)
            | (Inr n, w1) \<Rightarrow>
                if n = 0 then Some (Inr used, w1)
                else read_loop sc fd buffer buffer_size (used + n) w1)
      else Some (Inr used, w))"

definition read_script ::
    "'w script_calls \<Rightarrow> string \<Rightarrow> 'w \<Rightarrow> (addr \<times> event list \<times> 'w) option" where
  "read_script sc path w =
     (case sc_open sc path w of
        None \<Rightarrow> None
      | Some (Inl e, w1) \<Rightarrow> Some (0, [Printed Failed_to_open], w1)
      | Some (Inr fd, w1) \<Rightarrow>
          (case sc_fstat sc fd w1 of
             (Inl e, w2) \<Rightarrow> Some (0, [Opened fd, Printed Failed_to_stat, Closed fd], sc_close sc fd w2)
           | (Inr st_size, w2) \<Rightarrow>
               if sint st_size < 0
               then Some (0, [Opened fd, Printed Failed_to_stat, Closed fd], sc_close sc fd w2)
               else
                 (case sc_malloc sc (st_size + 1) w2 of
                    None \<Rightarrow> None
                  | Some (buffer, w3) \<Rightarrow>
                      if buffer = 0
                      then Some (0, [Opened fd, Printed Failed_to_allocate, Closed fd], sc_close sc fd w3)
                      else
                        (case read_loop sc fd buffer (st_size + 1) 0 w3 of
                           None \<Rightarrow> None
                         | Some (Inl e, w4) \<Rightarrow>
                             Some (0, [Opened fd, Allocated buffer, Printed Failed_to_read, Closed fd, Freed buffer],
                               sc_free sc buffer (sc_close sc fd w4))
                         | Some (Inr used, w4) \<Rightarrow>
                             Some (buffer, [Opened fd, Allocated buffer, Closed fd],
                               sc_poke sc (buffer + used) 0 (sc_close sc fd w4))))))"

section \<open>The program\<close>

definition ascii_bytes :: "string \<Rightarrow> byte list" where
  "ascii_bytes s = map (\<lambda>c. of_nat (of_char c)) s"

text \<open>The C string at an address: the bytes up to the first NUL.\<close>

partial_function (option) c_string :: "mem \<Rightarrow> addr \<Rightarrow> byte list option" where
  "c_string m a =
     (if m a = 0 then Some [] else Option.bind (c_string m (a + 1)) (\<lambda>bs. Some (m a # bs)))"

definition run ::
    "'w script_calls \<Rightarrow> (byte list \<Rightarrow> 'w \<Rightarrow> int \<times> 'w) \<Rightarrow> 'w \<Rightarrow> (int \<times> event list \<times> 'w) option" where
  "run sc eval w =
     (let start = [Init_stack, Traced ''CRuby initialize'', Ruby_init, Init_enc, Init_ext, Builtin_inits,
                   Traced ''ruby_init done'', Evaluated (ascii_bytes ''$stdout.sync = true'')];
          finish = [Traced ''Finalize CRuby'', Ruby_finalize];
          (state0, w1) = eval (ascii_bytes ''$stdout.sync = true'') w
      in case read_script sc ''/shell.rb'' w1 of
           None \<Rightarrow> None
         | Some (script, evs, w2) \<Rightarrow>
             if script = 0 then Some (0, start @ evs @ finish, w2)
             else
               (case c_string (sc_mem sc w2) script of
                  None \<Rightarrow> None
                | Some bs \<Rightarrow>
                    let (state, w3) = eval bs w2;
                        w4 = sc_free sc script w3;
                        report = (if state \<noteq> 0
                                  then [Traced ''ruby exception from CPIO script'', Printed_errinfo] else [])
                    in Some (0, start @ evs @ [Evaluated bs, Freed script] @ report @ finish, w4)))"

text \<open>The two ways through the program.\<close>

lemma run_unread:
  assumes "eval (ascii_bytes ''$stdout.sync = true'') w = (state0, w1)"
    and "read_script sc ''/shell.rb'' w1 = Some (p, evs, w2)" and "p = 0"
  shows "run sc eval w = Some (0,
    [Init_stack, Traced ''CRuby initialize'', Ruby_init, Init_enc, Init_ext, Builtin_inits,
      Traced ''ruby_init done'', Evaluated (ascii_bytes ''$stdout.sync = true'')] @ evs @
    [Traced ''Finalize CRuby'', Ruby_finalize], w2)"
  using assms by (simp add: run_def)

lemma run_read:
  assumes "eval (ascii_bytes ''$stdout.sync = true'') w = (state0, w1)"
    and "read_script sc ''/shell.rb'' w1 = Some (p, evs, w2)" and "p \<noteq> 0"
    and "c_string (sc_mem sc w2) p = Some bs" and "eval bs w2 = (state, w3)"
  shows "run sc eval w = Some (0,
    [Init_stack, Traced ''CRuby initialize'', Ruby_init, Init_enc, Init_ext, Builtin_inits,
      Traced ''ruby_init done'', Evaluated (ascii_bytes ''$stdout.sync = true'')] @
    (evs @ [Evaluated bs, Freed p] @
      (if state \<noteq> 0 then [Traced ''ruby exception from CPIO script'', Printed_errinfo] else [])) @
    [Traced ''Finalize CRuby'', Ruby_finalize], sc_free sc p w3)"
  using assms by (simp add: run_def)

section \<open>Strings in memory\<close>

lemma c_string_stops:
  assumes "\<And>i. i < length bs \<Longrightarrow> m (a + of_nat i) = bs ! i" and "m (a + of_nat (length bs)) = 0"
  shows "c_string m a = Some (takeWhile (\<lambda>b. b \<noteq> 0) bs)"
  using assms
proof (induction bs arbitrary: a)
  case Nil
  then show ?case by (subst c_string.simps) simp
next
  case (Cons b bs)
  have "m (a + 1 + of_nat i) = bs ! i" if "i < length bs" for i
    using Cons.prems(1) [of "Suc i"] that by (simp add: add.assoc)
  moreover have "m (a + 1 + of_nat (length bs)) = 0" using Cons.prems(2) by (simp add: add.assoc)
  ultimately have "c_string m (a + 1) = Some (takeWhile (\<lambda>b. b \<noteq> 0) bs)" by (rule Cons.IH)
  then show ?case using Cons.prems(1) [of 0] by (subst c_string.simps) simp
qed

section \<open>A file that reads hand out\<close>

text \<open>
  What the read loop relies on, for the descriptor \<open>fd\<close> of a file with the bytes \<open>content\<close>
  that is read into \<open>buffer\<close>. \<open>at_pos n w\<close> says that in \<open>w\<close> the first \<open>n\<close> bytes have been
  read. A read hands out at least one of the bytes left and as many as it likes, and
  closing the descriptor leaves the buffer alone.
\<close>

locale script_file =
  fixes sc :: "'w script_calls" and fd :: int and buffer :: addr and content :: "byte list"
    and at_pos :: "nat \<Rightarrow> 'w \<Rightarrow> bool"
  assumes fits: "at_pos n w \<Longrightarrow> n \<le> length content \<and> unat buffer + length content + 1 < 2 ^ 64"
    and reads: "at_pos n w \<Longrightarrow> n < length content \<Longrightarrow>
      \<exists>k w'. sc_read sc fd (buffer + of_nat n) (of_nat (length content - n)) w = (Inr k, w') \<and>
        0 < unat k \<and> unat k \<le> length content - n \<and> at_pos (n + unat k) w'"
    and buffered: "at_pos n w \<Longrightarrow> i < n \<Longrightarrow>
      sc_mem sc (sc_close sc fd w) (buffer + of_nat i) = content ! i"
    and pokes: "sc_mem sc (sc_poke sc a b w) = (sc_mem sc w)(a := b)"
begin

lemma read_loop_all:
  assumes "at_pos n w"
  shows "\<exists>w'. read_loop sc fd buffer (of_nat (length content) + 1) (of_nat n) w =
      Some (Inr (of_nat (length content)), w') \<and> at_pos (length content) w'"
  using assms
proof (induction "length content - n" arbitrary: n w rule: less_induct)
  case less
  note F = fits [OF less.prems]
  have u: "unat (of_nat n :: u64) = n" "unat (of_nat n + 1 :: u64) = n + 1"
    "unat (of_nat (length content) + 1 :: u64) = length content + 1"
    using F unat_add_no_wrap [of "of_nat n" 1] unat_add_no_wrap [of "of_nat (length content)" 1]
    by (simp_all add: unat_of_nat)
  show ?case
  proof (cases "n = length content")
    case True
    then show ?thesis using less.prems by (subst read_loop.simps) simp
  next
    case False
    then have n: "n < length content" using F by simp
    then have cond: "of_nat n + 1 < (of_nat (length content) + 1 :: u64)"
      by (simp add: word_less_nat_alt u)
    have len: "of_nat (length content) + 1 - of_nat n - 1 = (of_nat (length content - n) :: u64)"
      using n by (simp add: of_nat_diff)
    obtain k w1 where k: "sc_read sc fd (buffer + of_nat n) (of_nat (length content - n)) w = (Inr k, w1)"
      "0 < unat k" "unat k \<le> length content - n" "at_pos (n + unat k) w1"
      using reads [OF less.prems n] by blast
    have "k \<noteq> 0" using k(2) by auto
    then have step: "read_loop sc fd buffer (of_nat (length content) + 1) (of_nat n) w =
        read_loop sc fd buffer (of_nat (length content) + 1) (of_nat (n + unat k)) w1"
      using cond k(1) by (subst read_loop.simps) (simp add: len)
    have "length content - (n + unat k) < length content - n" using n k(2) by simp
    from less.hyps [OF this k(4)] show ?thesis unfolding step .
  qed
qed

text \<open>The string the interpreter is given, once the descriptor is closed and the NUL written.\<close>

lemma script_string:
  assumes "at_pos (length content) w"
  shows "c_string (sc_mem sc (sc_poke sc (buffer + of_nat (length content)) 0 (sc_close sc fd w))) buffer =
    Some (takeWhile (\<lambda>b. b \<noteq> 0) content)"
proof (rule c_string_stops)
  fix i
  assume i: "i < length content"
  have "unat (buffer + of_nat i) \<noteq> unat (buffer + of_nat (length content))"
    using fits [OF assms] i by (simp add: unat_offset [where n = "length content"])
  then have "buffer + of_nat i \<noteq> buffer + of_nat (length content)" by metis
  then show "sc_mem sc (sc_poke sc (buffer + of_nat (length content)) 0 (sc_close sc fd w))
      (buffer + of_nat i) = content ! i"
    using buffered [OF assms i] by (simp add: pokes)
qed (simp add: pokes)

end

section \<open>Nothing is left open\<close>

definition opens :: "event list \<Rightarrow> int list" where
  "opens evs = concat (map (\<lambda>e. case e of Opened fd \<Rightarrow> [fd] | _ \<Rightarrow> []) evs)"
definition closes :: "event list \<Rightarrow> int list" where
  "closes evs = concat (map (\<lambda>e. case e of Closed fd \<Rightarrow> [fd] | _ \<Rightarrow> []) evs)"
definition allocs :: "event list \<Rightarrow> addr list" where
  "allocs evs = concat (map (\<lambda>e. case e of Allocated a \<Rightarrow> [a] | _ \<Rightarrow> []) evs)"
definition frees :: "event list \<Rightarrow> addr list" where
  "frees evs = concat (map (\<lambda>e. case e of Freed a \<Rightarrow> [a] | _ \<Rightarrow> []) evs)"

lemmas event_lists = opens_def closes_def allocs_def frees_def

lemma read_script_events:
  assumes "read_script sc path w = Some (p, evs, w')"
  shows "closes evs = opens evs \<and> allocs evs = frees evs @ (if p = 0 then [] else [p])"
  using assms unfolding read_script_def
  by (auto simp: event_lists split: prod.splits sum.splits if_splits option.splits)

text \<open>
  C11: the program leaks neither a descriptor nor a buffer: whatever the calls answer, if
  it returns then it returns 0, it has closed exactly the descriptors it opened and freed
  exactly the buffers it allocated, each once and in that order, and the interpreter is
  finalised last.
\<close>

theorem run_releases_everything:
  assumes "run sc eval w = Some (r, evs, w')"
  shows "r = 0 \<and> closes evs = opens evs \<and> frees evs = allocs evs \<and> last evs = Ruby_finalize"
proof -
  obtain s0 w1 where e: "eval (ascii_bytes ''$stdout.sync = true'') w = (s0, w1)" by fastforce
  show ?thesis
  proof (cases "read_script sc ''/shell.rb'' w1")
    case None
    with assms e show ?thesis by (simp add: run_def)
  next
    case (Some t)
    obtain p sevs w2 where t: "t = (p, sevs, w2)" by (metis prod_cases3)
    note R = read_script_events [OF Some [unfolded t]]
    show ?thesis
    proof (cases "p = 0 \<or> c_string (sc_mem sc w2) p = None")
      case True
      with assms e Some t R show ?thesis by (auto simp: run_def event_lists split: if_splits)
    next
      case False
      then obtain bs where bs: "p \<noteq> 0" "c_string (sc_mem sc w2) p = Some bs" by blast
      obtain s w3 where "eval bs w2 = (s, w3)" by fastforce
      with assms e Some t R bs show ?thesis by (auto simp: run_def Let_def event_lists)
    qed
  qed
qed

text \<open>A world with two bytes not yet read, and calls that always succeed on it.\<close>

definition demo_calls :: "(mem \<times> byte list) script_calls" where
  "demo_calls = \<lparr>sc_mem = fst, sc_poke = \<lambda>a b (m, l). (m(a := b), l),
     sc_open = \<lambda>_ w. Some (Inr 3, w), sc_fstat = \<lambda>_ w. (Inr (of_nat (length (snd w))), w),
     sc_malloc = \<lambda>_ w. Some (0x10000020, w),
     sc_read = \<lambda>_ a n (m, l). (case l of [] \<Rightarrow> (Inr 0, (m, l)) | b # bs \<Rightarrow> (Inr 1, (m(a := b), bs))),
     sc_close = \<lambda>_ w. w, sc_free = \<lambda>_ w. w\<rparr>"

theorem run_releases_everything_witness:
  "\<exists>evs w'. run demo_calls (\<lambda>bs w. (0, w)) (\<lambda>_. 0, [112, 49]) = Some (0, evs, w') \<and>
     Evaluated [112, 49] \<in> set evs \<and> closes evs = opens evs \<and> opens evs = [3]"
proof -
  have run: "\<exists>evs w'. run demo_calls (\<lambda>bs w. (0, w)) (\<lambda>_. 0, [112, 49]) = Some (0, evs, w') \<and>
      Evaluated [112, 49] \<in> set evs \<and> opens evs = [3]"
    by (simp add: run_def read_script_def demo_calls_def read_loop.simps c_string.simps event_lists)
  from run run_releases_everything [where sc = demo_calls and eval = "\<lambda>bs w. (0, w)" and
      w = "(\<lambda>_. 0, [112, 49])"] show ?thesis by blast
qed

end
