(* ===== verification/Arena_Alloc.thy ===== *)
theory Arena_Alloc
  imports CMem
begin

text \<open>
  The arena allocator of \<^verbatim>\<open>ruby_alloc.c\<close>: block headers kept in the byte memory, the
  free list threaded through them, and the public allocation functions.

  A \<open>heap\<close> is the whole memory and the two static variables of the file. The
  address \<open>A\<close> at which the linker placed \<open>ruby_alloc_arena\<close> is an argument. A
  function that sets \<open>errno\<close> and returns NULL returns \<open>Inl\<close> of the number. The walk
  along the free list follows pointers found in memory, which may form a cycle, so
  it and everything that calls it return an option: \<open>None\<close> is "does not return".
\<close>

section \<open>Block headers\<close>

text \<open>The fields of \<open>alloc_header_t\<close>, at their offsets in memory.\<close>

record alloc_header =
  h_size :: u64
  h_capacity :: u64
  h_next_free :: addr
  h_is_free :: u32
  h_magic :: u32

record heap =
  hmem :: mem
  ruby_alloc_offset :: u64
  free_list :: addr

definition RUBY_ALLOC_ARENA_SIZE :: u64 where "RUBY_ALLOC_ARENA_SIZE = 64 * 1024 * 1024"
definition DEFAULT_ALIGNMENT :: u64 where "DEFAULT_ALIGNMENT = 8 * 2"
definition MMAP_ALIGNMENT :: u64 where "MMAP_ALIGNMENT = 4096"
definition ALLOC_MAGIC :: u32 where "ALLOC_MAGIC = 0x52414c43"

text \<open>\<open>sizeof(alloc_header_t)\<close>: three 8-byte and two 4-byte fields, no padding.\<close>

definition HEADER_SIZE :: u64 where "HEADER_SIZE = 32"

lemmas alloc_consts = RUBY_ALLOC_ARENA_SIZE_def DEFAULT_ALIGNMENT_def MMAP_ALIGNMENT_def
  ALLOC_MAGIC_def HEADER_SIZE_def

definition hdr :: "heap \<Rightarrow> addr \<Rightarrow> alloc_header" where
  "hdr s h = \<lparr>h_size = load64 (hmem s) h, h_capacity = load64 (hmem s) (h + 8),
     h_next_free = load64 (hmem s) (h + 16), h_is_free = load32 (hmem s) (h + 24),
     h_magic = load32 (hmem s) (h + 28)\<rparr>"

definition set_size :: "addr \<Rightarrow> u64 \<Rightarrow> heap \<Rightarrow> heap" where
  "set_size h v s = s\<lparr>hmem := store64 (hmem s) h v\<rparr>"

definition set_capacity :: "addr \<Rightarrow> u64 \<Rightarrow> heap \<Rightarrow> heap" where
  "set_capacity h v s = s\<lparr>hmem := store64 (hmem s) (h + 8) v\<rparr>"

definition set_next_free :: "addr \<Rightarrow> addr \<Rightarrow> heap \<Rightarrow> heap" where
  "set_next_free h v s = s\<lparr>hmem := store64 (hmem s) (h + 16) v\<rparr>"

definition set_is_free :: "addr \<Rightarrow> u32 \<Rightarrow> heap \<Rightarrow> heap" where
  "set_is_free h v s = s\<lparr>hmem := store32 (hmem s) (h + 24) v\<rparr>"

definition set_magic :: "addr \<Rightarrow> u32 \<Rightarrow> heap \<Rightarrow> heap" where
  "set_magic h v s = s\<lparr>hmem := store32 (hmem s) (h + 28) v\<rparr>"

section \<open>The allocator\<close>

definition is_power_of_two :: "u64 \<Rightarrow> bool" where
  "is_power_of_two v \<longleftrightarrow> v \<noteq> 0 \<and> v AND (v - 1) = 0"

definition align_up :: "u64 \<Rightarrow> u64 \<Rightarrow> u64" where
  "align_up v al = (v + al - 1) AND NOT (al - 1)"

definition header_payload :: "addr \<Rightarrow> addr" where
  "header_payload h = h + HEADER_SIZE"

definition payload_header :: "addr \<Rightarrow> addr" where
  "payload_header p = p - HEADER_SIZE"

definition block_matches :: "heap \<Rightarrow> addr \<Rightarrow> u64 \<Rightarrow> u64 \<Rightarrow> bool" where
  "block_matches s h sz al \<longleftrightarrow>
     h_capacity (hdr s h) \<ge> sz \<and> header_payload h mod al = 0"

text \<open>The body of the loop of \<open>reuse_free_block\<close> for a block that matches.\<close>

definition take_block :: "u64 \<Rightarrow> addr \<Rightarrow> addr \<Rightarrow> heap \<Rightarrow> heap" where
  "take_block sz prev cur s =
     (let s1 = (if prev = 0 then s\<lparr>free_list := h_next_free (hdr s cur)\<rparr>
                else set_next_free prev (h_next_free (hdr s cur)) s);
          s2 = set_size cur sz s1;
          s3 = set_next_free cur 0 s2
      in set_is_free cur 0 s3)"

partial_function (option) reuse_loop ::
    "u64 \<Rightarrow> u64 \<Rightarrow> addr \<Rightarrow> addr \<Rightarrow> heap \<Rightarrow> (addr \<times> heap) option" where
  "reuse_loop sz al prev cur s =
     (if cur = 0 then Some (0, s)
      else if block_matches s cur sz al
      then Some (header_payload cur, take_block sz prev cur s)
      else reuse_loop sz al cur (h_next_free (hdr s cur)) s)"

definition reuse_free_block :: "u64 \<Rightarrow> u64 \<Rightarrow> heap \<Rightarrow> (addr \<times> heap) option" where
  "reuse_free_block sz al s = reuse_loop sz al 0 (free_list s) s"

text \<open>The header stores of a block cut fresh from the arena, in the order of the code.\<close>

definition new_header :: "addr \<Rightarrow> u64 \<Rightarrow> heap \<Rightarrow> heap" where
  "new_header h sz s =
     set_magic h ALLOC_MAGIC (set_is_free h 0 (set_next_free h 0
       (set_capacity h sz (set_size h sz s))))"

definition arena_alloc :: "addr \<Rightarrow> u64 \<Rightarrow> u64 \<Rightarrow> heap \<Rightarrow> (addr result \<times> heap) option" where
  "arena_alloc A sz0 al0 s =
     (let sz = (if sz0 = 0 then 1 else sz0);
          al = (if al0 < DEFAULT_ALIGNMENT then DEFAULT_ALIGNMENT else al0)
      in if \<not> is_power_of_two al then Some (Inl EINVAL, s)
         else case reuse_free_block sz al s of
           None \<Rightarrow> None
         | Some (reused, s1) \<Rightarrow>
             if reused \<noteq> 0 then Some (Inr reused, s1)
             else
               let base = A + ruby_alloc_offset s1;
                   header_addr = align_up (base + HEADER_SIZE) al - HEADER_SIZE;
                   nxt = header_addr + HEADER_SIZE + sz
               in if nxt < header_addr \<or> nxt > A + RUBY_ALLOC_ARENA_SIZE
                  then Some (Inl ENOMEM, s1)
                  else Some (Inr (header_payload header_addr),
                    (new_header header_addr sz s1)\<lparr>ruby_alloc_offset := nxt - A\<rparr>))"

definition malloc :: "addr \<Rightarrow> u64 \<Rightarrow> heap \<Rightarrow> (addr result \<times> heap) option" where
  "malloc A sz s = arena_alloc A sz DEFAULT_ALIGNMENT s"

definition free :: "addr \<Rightarrow> heap \<Rightarrow> heap" where
  "free ptr s =
     (if ptr = 0 then s
      else let h = payload_header ptr
           in if h_magic (hdr s h) \<noteq> ALLOC_MAGIC \<or> h_is_free (hdr s h) \<noteq> 0 then s
              else let s1 = set_is_free h 1 s;
                       s2 = set_next_free h (free_list s1) s1
                   in s2\<lparr>free_list := h\<rparr>)"

definition calloc :: "addr \<Rightarrow> u64 \<Rightarrow> u64 \<Rightarrow> heap \<Rightarrow> (addr result \<times> heap) option" where
  "calloc A count sz s =
     (if count \<noteq> 0 \<and> sz > (- 1) div count then Some (Inl ENOMEM, s)
      else let total = count * sz
           in case malloc A total s of
                None \<Rightarrow> None
              | Some (Inl e, s1) \<Rightarrow> Some (Inl e, s1)
              | Some (Inr ptr, s1) \<Rightarrow> Some (Inr ptr, s1\<lparr>hmem := memset (hmem s1) ptr 0 total\<rparr>))"

text \<open>
  \<open>realloc\<close> has two ways to return NULL: a failed allocation, which sets \<open>errno\<close>,
  and size zero, which frees the block and is the value \<open>Inr 0\<close>.
\<close>

definition realloc :: "addr \<Rightarrow> addr \<Rightarrow> u64 \<Rightarrow> heap \<Rightarrow> (addr result \<times> heap) option" where
  "realloc A ptr sz s =
     (if ptr = 0 then malloc A sz s
      else if sz = 0 then Some (Inr 0, free ptr s)
      else let old_size = h_size (hdr s (payload_header ptr))
           in if h_capacity (hdr s (payload_header ptr)) \<ge> sz
              then Some (Inr ptr, set_size (payload_header ptr) sz s)
              else case malloc A sz s of
                None \<Rightarrow> None
              | Some (Inl e, s1) \<Rightarrow> Some (Inl e, s1)
              | Some (Inr new_ptr, s1) \<Rightarrow>
                  let s2 = s1\<lparr>hmem := memcpy (hmem s1) new_ptr ptr
                                (if old_size < sz then old_size else sz)\<rparr>
                  in Some (Inr new_ptr, free ptr s2))"

text \<open>
  \<open>posix_memalign\<close> returns the error number and stores the pointer through
  \<open>memptr\<close>: the result is that number (0 is \<open>None\<close>) and the pointer stored, if any.
\<close>

definition posix_memalign ::
    "addr \<Rightarrow> bool \<Rightarrow> u64 \<Rightarrow> u64 \<Rightarrow> heap \<Rightarrow> ((errno option \<times> addr option) \<times> heap) option" where
  "posix_memalign A memptr_null al sz s =
     (if memptr_null \<or> al < 8 \<or> \<not> is_power_of_two al then Some ((Some EINVAL, None), s)
      else case arena_alloc A sz al s of
        None \<Rightarrow> None
      | Some (Inl e, s1) \<Rightarrow> Some ((if e = EINVAL then Some EINVAL else Some ENOMEM, None), s1)
      | Some (Inr ptr, s1) \<Rightarrow> Some ((None, Some ptr), s1))"

definition aligned_alloc :: "addr \<Rightarrow> u64 \<Rightarrow> u64 \<Rightarrow> heap \<Rightarrow> (addr result \<times> heap) option" where
  "aligned_alloc A al sz s =
     (if al = 0 \<or> \<not> is_power_of_two al then Some (Inl EINVAL, s)
      else arena_alloc A sz al s)"

definition malloc_usable_size :: "addr \<Rightarrow> heap \<Rightarrow> u64" where
  "malloc_usable_size ptr s = (if ptr = 0 then 0 else h_capacity (hdr s (payload_header ptr)))"

text \<open>The internal names by which musl reaches the allocator.\<close>

definition libc_malloc :: "addr \<Rightarrow> u64 \<Rightarrow> heap \<Rightarrow> (addr result \<times> heap) option" where
  "libc_malloc A sz s = malloc A sz s"

definition libc_malloc_impl :: "addr \<Rightarrow> u64 \<Rightarrow> heap \<Rightarrow> (addr result \<times> heap) option" where
  "libc_malloc_impl A sz s = malloc A sz s"

definition libc_free :: "addr \<Rightarrow> heap \<Rightarrow> heap" where
  "libc_free ptr s = free ptr s"

definition libc_realloc :: "addr \<Rightarrow> addr \<Rightarrow> u64 \<Rightarrow> heap \<Rightarrow> (addr result \<times> heap) option" where
  "libc_realloc A ptr sz s = realloc A ptr sz s"

text \<open>The static initial state: a zeroed arena, offset zero, no free block.\<close>

definition initial_heap :: "mem \<Rightarrow> heap" where
  "initial_heap m = \<lparr>hmem = m, ruby_alloc_offset = 0, free_list = 0\<rparr>"

section \<open>Reading headers back\<close>

lemma hdr_set_same [mem_simps]:
  "hdr (set_size h v s) h = (hdr s h)\<lparr>h_size := v\<rparr>"
  "hdr (set_capacity h v s) h = (hdr s h)\<lparr>h_capacity := v\<rparr>"
  "hdr (set_next_free h v s) h = (hdr s h)\<lparr>h_next_free := v\<rparr>"
  "hdr (set_is_free h w s) h = (hdr s h)\<lparr>h_is_free := w\<rparr>"
  "hdr (set_magic h w s) h = (hdr s h)\<lparr>h_magic := w\<rparr>"
  by (simp_all add: hdr_def set_size_def set_capacity_def set_next_free_def set_is_free_def
      set_magic_def mem_simps)

lemma set_frame [mem_simps]:
  "free_list (set_size h v s) = free_list s" "ruby_alloc_offset (set_size h v s) = ruby_alloc_offset s"
  "free_list (set_capacity h v s) = free_list s" "ruby_alloc_offset (set_capacity h v s) = ruby_alloc_offset s"
  "free_list (set_next_free h v s) = free_list s" "ruby_alloc_offset (set_next_free h v s) = ruby_alloc_offset s"
  "free_list (set_is_free h w s) = free_list s" "ruby_alloc_offset (set_is_free h w s) = ruby_alloc_offset s"
  "free_list (set_magic h w s) = free_list s" "ruby_alloc_offset (set_magic h w s) = ruby_alloc_offset s"
  by (simp_all add: set_size_def set_capacity_def set_next_free_def set_is_free_def set_magic_def)

lemma hdr_heap_update [mem_simps]:
  "hdr (s\<lparr>free_list := p\<rparr>) h = hdr s h" "hdr (s\<lparr>ruby_alloc_offset := v\<rparr>) h = hdr s h"
  by (simp_all add: hdr_def)

text \<open>The header of a block changes only with the 32 bytes it occupies.\<close>

lemma hdr_cong:
  assumes "unat h + 32 \<le> 2 ^ 64"
    and "\<And>x. unat h \<le> unat x \<Longrightarrow> unat x < unat h + 32 \<Longrightarrow> hmem s x = hmem s' x"
  shows "hdr s h = hdr s' h"
proof -
  have off: "unat (h + 8) = unat h + 8" "unat (h + 16) = unat h + 16"
    "unat (h + 24) = unat h + 24" "unat (h + 28) = unat h + 28"
    using assms(1) by (simp_all add: unat_plus_if')
  have "load64 (hmem s) h = load64 (hmem s') h"
    "load64 (hmem s) (h + 8) = load64 (hmem s') (h + 8)"
    "load64 (hmem s) (h + 16) = load64 (hmem s') (h + 16)"
    by (rule load64_cong; use assms in \<open>simp add: off\<close>)+
  moreover have "load32 (hmem s) (h + 24) = load32 (hmem s') (h + 24)"
    "load32 (hmem s) (h + 28) = load32 (hmem s') (h + 28)"
    by (rule load32_cong; use assms in \<open>simp add: off\<close>)+
  ultimately show ?thesis by (simp add: hdr_def)
qed

end
