(* ===== verification/Arena_Correct.thy ===== *)
theory Arena_Correct
  imports Arena_Alloc
begin

text \<open>
  What the allocator of \<^verbatim>\<open>ruby_alloc.c\<close> guarantees. The invariant \<open>heap_inv A s B fl\<close>
  says that the set \<open>B\<close> of block headers is laid out inside the used part of the
  arena without overlap, that the list \<open>fl\<close> is the chain of free blocks, and that the
  header fields agree with it. Every operation keeps it; the abstract view is the map
  of live pointers to their capacities.
\<close>

section \<open>Free-list segments\<close>

fun lseg :: "heap \<Rightarrow> addr \<Rightarrow> addr list \<Rightarrow> addr \<Rightarrow> bool" where
  "lseg s p [] q \<longleftrightarrow> p = q"
| "lseg s p (h # hs) q \<longleftrightarrow> p = h \<and> h \<noteq> 0 \<and> lseg s (h_next_free (hdr s h)) hs q"

lemma lseg_append: "lseg s p (xs @ ys) r \<longleftrightarrow> (\<exists>q. lseg s p xs q \<and> lseg s q ys r)"
  by (induction xs arbitrary: p) auto

lemma lseg_cong:
  "(\<And>h. h \<in> set hs \<Longrightarrow> h_next_free (hdr s h) = h_next_free (hdr s' h)) \<Longrightarrow>
     lseg s p hs q = lseg s' p hs q"
  by (induction hs arbitrary: p) auto

lemma lseg_congI:
  "lseg s p hs q \<Longrightarrow> (\<And>h. h \<in> set hs \<Longrightarrow> h_next_free (hdr s' h) = h_next_free (hdr s h)) \<Longrightarrow>
     lseg s' p hs q"
  by (induction hs arbitrary: p) auto

lemma lseg_heap_update [mem_simps]:
  "lseg (s\<lparr>free_list := a\<rparr>) p hs q = lseg s p hs q"
  "lseg (s\<lparr>ruby_alloc_offset := v\<rparr>) p hs q = lseg s p hs q"
  by (rule lseg_cong, simp add: mem_simps)+

text \<open>The search of \<open>reuse_free_block\<close> as a search in the list the chain spells.\<close>

fun find_match :: "heap \<Rightarrow> u64 \<Rightarrow> u64 \<Rightarrow> addr \<Rightarrow> addr list \<Rightarrow> (addr \<times> addr) option" where
  "find_match s sz al prev [] = None"
| "find_match s sz al prev (c # cs) =
     (if block_matches s c sz al then Some (prev, c) else find_match s sz al c cs)"

lemma reuse_loop_find:
  "lseg s cur cs 0 \<Longrightarrow>
     reuse_loop sz al prev cur s =
       Some (case find_match s sz al prev cs of
               None \<Rightarrow> (0, s)
             | Some (p, c) \<Rightarrow> (header_payload c, take_block sz p c s))"
proof (induction cs arbitrary: prev cur)
  case Nil
  then show ?case by (simp add: reuse_loop.simps)
next
  case (Cons c cs)
  then show ?case by (subst reuse_loop.simps) simp
qed

lemma find_match_Some:
  "find_match s sz al prev cs = Some (p, c) \<Longrightarrow>
     \<exists>xs ys. cs = xs @ c # ys \<and> p = last (prev # xs) \<and> block_matches s c sz al \<and>
       (\<forall>x\<in>set xs. \<not> block_matches s x sz al)"
proof (induction cs arbitrary: prev)
  case Nil
  then show ?case by simp
next
  case (Cons d cs)
  show ?case
  proof (cases "block_matches s d sz al")
    case True
    with Cons.prems show ?thesis by (intro exI [of _ "[]"] exI [of _ cs]) auto
  next
    case False
    with Cons.prems have "find_match s sz al d cs = Some (p, c)" by simp
    from Cons.IH [OF this] obtain xs ys where
      "cs = xs @ c # ys" "p = last (d # xs)" "block_matches s c sz al"
      "\<forall>x\<in>set xs. \<not> block_matches s x sz al" by blast
    with False show ?thesis by (intro exI [of _ "d # xs"] exI [of _ ys]) auto
  qed
qed

lemma find_match_None:
  "find_match s sz al prev cs = None \<longleftrightarrow> (\<forall>c\<in>set cs. \<not> block_matches s c sz al)"
  by (induction cs arbitrary: prev) auto

section \<open>Frames of the header stores\<close>

definition hdr_range :: "addr \<Rightarrow> addr set" where
  "hdr_range h = {x. unat h \<le> unat x \<and> unat x < unat h + 32}"

lemma set_outside [mem_simps]:
  assumes "unat h + 32 \<le> 2 ^ 64" and "x \<notin> hdr_range h"
  shows "hmem (set_size h v s) x = hmem s x"
    and "hmem (set_capacity h v s) x = hmem s x"
    and "hmem (set_next_free h v s) x = hmem s x"
    and "hmem (set_is_free h w s) x = hmem s x"
    and "hmem (set_magic h w s) x = hmem s x"
proof -
  have off: "unat (h + 8) = unat h + 8" "unat (h + 16) = unat h + 16"
    "unat (h + 24) = unat h + 24" "unat (h + 28) = unat h + 28"
    using assms(1) by (simp_all add: unat_plus_if')
  have nr: "\<not> (unat h \<le> unat x \<and> unat x < unat h + 32)"
    using assms(2) by (simp add: hdr_range_def)
  have far: "n \<le> unat (x - (h + of_nat k))" if "k + n \<le> 32" "unat (h + of_nat k) = unat h + k" for k n
  proof -
    have "unat (h + of_nat k) + n \<le> 2 ^ 64" using that assms(1) by linarith
    then have "unat (x - (h + of_nat k)) < n \<longleftrightarrow> unat (h + of_nat k) \<le> unat x \<and> unat x < unat (h + of_nat k) + n"
      by (rule in_range_nat)
    then show ?thesis using nr that by linarith
  qed
  show "hmem (set_size h v s) x = hmem s x"
    using far [of 0 8] by (simp add: set_size_def store64_other)
  show "hmem (set_capacity h v s) x = hmem s x"
    using far [of 8 8] by (simp add: set_capacity_def store64_other off)
  show "hmem (set_next_free h v s) x = hmem s x"
    using far [of 16 8] by (simp add: set_next_free_def store64_other off)
  show "hmem (set_is_free h w s) x = hmem s x"
    using far [of 24 4] by (simp add: set_is_free_def store32_other off)
  show "hmem (set_magic h w s) x = hmem s x"
    using far [of 28 4] by (simp add: set_magic_def store32_other off)
qed

definition apart :: "addr \<Rightarrow> addr \<Rightarrow> bool" where
  "apart a b \<longleftrightarrow> unat a + 32 \<le> 2 ^ 64 \<and> unat b + 32 \<le> 2 ^ 64 \<and>
     (unat a + 32 \<le> unat b \<or> unat b + 32 \<le> unat a)"

lemma apart_sym: "apart a b \<Longrightarrow> apart b a"
  by (auto simp: apart_def)

lemma hdr_set_apart [mem_simps]:
  assumes "apart h' h"
  shows "hdr (set_size h v s) h' = hdr s h'"
    and "hdr (set_capacity h v s) h' = hdr s h'"
    and "hdr (set_next_free h v s) h' = hdr s h'"
    and "hdr (set_is_free h w s) h' = hdr s h'"
    and "hdr (set_magic h w s) h' = hdr s h'"
proof -
  have h: "unat h + 32 \<le> 2 ^ 64" "unat h' + 32 \<le> 2 ^ 64"
    using assms by (simp_all add: apart_def)
  have out: "x \<notin> hdr_range h" if "unat h' \<le> unat x" "unat x < unat h' + 32" for x
    using assms that by (auto simp: apart_def hdr_range_def)
  show "hdr (set_size h v s) h' = hdr s h'"
    by (rule hdr_cong [OF h(2)]) (simp add: set_outside [OF h(1)] out)
  show "hdr (set_capacity h v s) h' = hdr s h'"
    by (rule hdr_cong [OF h(2)]) (simp add: set_outside [OF h(1)] out)
  show "hdr (set_next_free h v s) h' = hdr s h'"
    by (rule hdr_cong [OF h(2)]) (simp add: set_outside [OF h(1)] out)
  show "hdr (set_is_free h w s) h' = hdr s h'"
    by (rule hdr_cong [OF h(2)]) (simp add: set_outside [OF h(1)] out)
  show "hdr (set_magic h w s) h' = hdr s h'"
    by (rule hdr_cong [OF h(2)]) (simp add: set_outside [OF h(1)] out)
qed

lemma hdr_take_block [mem_simps]:
  assumes "prev = 0 \<or> apart prev cur"
  shows "hdr (take_block sz prev cur s) cur =
      (hdr s cur)\<lparr>h_size := sz, h_next_free := 0, h_is_free := 0\<rparr>"
    and "prev \<noteq> 0 \<Longrightarrow> hdr (take_block sz prev cur s) prev =
      (hdr s prev)\<lparr>h_next_free := h_next_free (hdr s cur)\<rparr>"
    and "prev = 0 \<or> apart h prev \<Longrightarrow> apart h cur \<Longrightarrow> hdr (take_block sz prev cur s) h = hdr s h"
  using assms by (auto simp: take_block_def Let_def mem_simps dest: apart_sym)

lemma take_block_frame [mem_simps]:
  "ruby_alloc_offset (take_block sz prev cur s) = ruby_alloc_offset s"
  "free_list (take_block sz prev cur s) =
     (if prev = 0 then h_next_free (hdr s cur) else free_list s)"
  by (simp_all add: take_block_def Let_def mem_simps)

lemma take_block_outside:
  assumes "unat cur + 32 \<le> 2 ^ 64" and "x \<notin> hdr_range cur"
    and "prev = 0 \<or> unat prev + 32 \<le> 2 ^ 64 \<and> x \<notin> hdr_range prev"
  shows "hmem (take_block sz prev cur s) x = hmem s x"
  using assms by (auto simp: take_block_def Let_def mem_simps)

lemma new_header_props [mem_simps]:
  "hdr (new_header h sz s) h =
     \<lparr>h_size = sz, h_capacity = sz, h_next_free = 0, h_is_free = 0, h_magic = ALLOC_MAGIC\<rparr>"
  "ruby_alloc_offset (new_header h sz s) = ruby_alloc_offset s"
  "free_list (new_header h sz s) = free_list s"
  by (simp_all add: new_header_def mem_simps)

lemma new_header_apart [mem_simps]: "apart h' h \<Longrightarrow> hdr (new_header h sz s) h' = hdr s h'"
  by (simp add: new_header_def mem_simps)

lemma new_header_outside:
  "unat h + 32 \<le> 2 ^ 64 \<Longrightarrow> x \<notin> hdr_range h \<Longrightarrow> hmem (new_header h sz s) x = hmem s x"
  by (simp add: new_header_def mem_simps)

section \<open>Alignment arithmetic\<close>

lemma is_power_of_two_iff: "is_power_of_two v \<longleftrightarrow> (\<exists>k<64. v = 2 ^ k)"
proof
  assume v: "is_power_of_two v"
  then have pos: "0 < unat v" by (simp add: is_power_of_two_def unat_gt_0)
  then obtain k where k: "2 ^ k \<le> unat v" "unat v < 2 ^ (k + 1)"
    using ex_power_ivl1 [of 2 "unat v"] by auto
  have k64: "k < 64"
  proof (rule ccontr)
    assume "\<not> k < 64"
    then have "(2::nat) ^ 64 \<le> 2 ^ k" by (intro power_increasing) simp_all
    then show False using k(1) unsigned_less [of v, where 'a = nat] by simp
  qed
  have bitk: "bit w k" if "2 ^ k \<le> unat w" "unat w < 2 ^ (k + 1)" for w :: u64
  proof -
    have "unat w div 2 ^ k = 1"
      using that by (intro div_nat_eqI) simp_all
    then have "bit (unat w) k" by (simp add: bit_iff_odd)
    then show ?thesis by (simp add: bit_unsigned_iff)
  qed
  have "unat v = 2 ^ k"
  proof (rule ccontr)
    assume "unat v \<noteq> 2 ^ k"
    then have "2 ^ k \<le> unat (v - 1)" "unat (v - 1) < 2 ^ (k + 1)"
      using k pos by (simp_all add: unat_minus_one [OF unat_gt_0 [THEN iffD1, OF pos]])
    then have "bit (v AND (v - 1)) k"
      using bitk k by (simp add: bit_and_iff)
    then show False using v by (simp add: is_power_of_two_def)
  qed
  then have "v = 2 ^ k"
    using k64 by (intro unsigned_word_eqI [where 'a = nat]) (simp add: unat_two_power)
  with k64 show "\<exists>k<64. v = 2 ^ k" by blast
next
  assume "\<exists>k<64. v = 2 ^ k"
  then obtain k where k: "k < 64" "v = 2 ^ k" by blast
  have "v AND (v - 1) = 0"
    by (rule bit_word_eqI) (auto simp: k bit_simps simp flip: mask_eq_exp_minus_1)
  moreover have "v \<noteq> 0" using k by simp
  ultimately show "is_power_of_two v" by (simp add: is_power_of_two_def)
qed

lemma unat_power_of_two:
  "is_power_of_two al \<Longrightarrow> \<exists>k<64. unat al = 2 ^ k \<and> al - 1 = mask k"
proof -
  assume "is_power_of_two al"
  then obtain k where k: "k < 64" "al = 2 ^ k" by (auto simp: is_power_of_two_iff)
  then have "unat al = 2 ^ k" by (simp add: unat_two_power)
  with k show ?thesis by (auto simp: mask_eq_exp_minus_1)
qed

lemma is_power_of_two_unat: "is_power_of_two al \<longleftrightarrow> (\<exists>k. unat al = 2 ^ k)"
proof
  assume "is_power_of_two al"
  then show "\<exists>k. unat al = 2 ^ k" using unat_power_of_two by blast
next
  assume "\<exists>k. unat al = 2 ^ k"
  then obtain k where k: "unat al = 2 ^ k" by blast
  have "(2::nat) ^ k < 2 ^ 64" using unsigned_less [of al, where 'a = nat] by (simp add: k)
  then have "k < 64" by (rule power_less_imp_less_exp [rotated]) simp
  moreover have "al = 2 ^ k"
    using \<open>k < 64\<close> by (intro unsigned_word_eqI [where 'a = nat]) (simp add: k unat_two_power)
  ultimately show "is_power_of_two al" by (auto simp: is_power_of_two_iff)
qed

lemma align_up_nat:
  assumes "is_power_of_two al" and "unat v + unat al \<le> 2 ^ 64"
  shows "unat (align_up v al) = (unat v + unat al - 1) div unat al * unat al"
proof -
  obtain k where k: "k < 64" "unat al = 2 ^ k" "al - 1 = mask k"
    using unat_power_of_two [OF assms(1)] by blast
  then have pos: "0 < unat al" by simp
  then have "unat (al - 1) = unat al - 1" by (simp add: unat_minus_one unat_gt_0)
  then have "unat (v + (al - 1)) = unat v + unat al - 1"
    using assms(2) pos by (simp add: unat_plus_if')
  then show ?thesis
    unfolding align_up_def add_diff_eq [symmetric] k(3) unat_and_not_mask by (simp add: k)
qed

lemma align_up_wraps:
  assumes "is_power_of_two al" and "2 ^ 64 < unat v + unat al"
  shows "align_up v al = 0"
proof -
  obtain k where k: "k < 64" "unat al = 2 ^ k" "al - 1 = mask k"
    using unat_power_of_two [OF assms(1)] by blast
  then have pos: "0 < unat al" by simp
  then have "unat (al - 1) = unat al - 1" by (simp add: unat_minus_one unat_gt_0)
  moreover have "\<not> unat v + (unat al - 1) < 2 ^ 64" using assms(2) by linarith
  ultimately have "unat (v + (al - 1)) = unat v + unat al - 1 - 2 ^ 64"
    using pos by (simp add: unat_plus_if')
  moreover have "unat v < 2 ^ 64" using unsigned_less [of v, where 'a = nat] by simp
  ultimately have "unat (v + (al - 1)) < 2 ^ k"
    using k(2) pos by linarith
  then have "unat (align_up v al) = 0"
    unfolding align_up_def add_diff_eq [symmetric] k(3) unat_and_not_mask by simp
  then show ?thesis by (simp add: unat_eq_zero)
qed

section \<open>The invariant\<close>

definition arena_at :: "addr \<Rightarrow> bool" where
  "arena_at A \<longleftrightarrow> 4096 \<le> unat A \<and> 4096 dvd unat A \<and>
     unat A + unat RUBY_ALLOC_ARENA_SIZE + 4096 < 2 ^ 64"

definition block_ok :: "addr \<Rightarrow> heap \<Rightarrow> addr \<Rightarrow> bool" where
  "block_ok A s h \<longleftrightarrow> h_magic (hdr s h) = ALLOC_MAGIC \<and>
     h_size (hdr s h) \<le> h_capacity (hdr s h) \<and> unat A \<le> unat h \<and> 16 dvd unat h \<and>
     unat h + 32 + unat (h_capacity (hdr s h)) \<le> unat A + unat (ruby_alloc_offset s)"

definition below :: "heap \<Rightarrow> addr \<Rightarrow> addr \<Rightarrow> bool" where
  "below s a b \<longleftrightarrow> unat a + 32 + unat (h_capacity (hdr s a)) \<le> unat b"

definition heap_inv :: "addr \<Rightarrow> heap \<Rightarrow> addr set \<Rightarrow> addr list \<Rightarrow> bool" where
  "heap_inv A s B fl \<longleftrightarrow> arena_at A \<and>
     unat (ruby_alloc_offset s) \<le> unat RUBY_ALLOC_ARENA_SIZE \<and>
     (\<forall>h\<in>B. block_ok A s h) \<and>
     (\<forall>a\<in>B. \<forall>b\<in>B. a \<noteq> b \<longrightarrow> below s a b \<or> below s b a) \<and>
     lseg s (free_list s) fl 0 \<and> distinct fl \<and> set fl \<subseteq> B \<and>
     (\<forall>h\<in>B. h_is_free (hdr s h) = (if h \<in> set fl then 1 else 0))"

lemma arena_size_nat [simp]: "unat RUBY_ALLOC_ARENA_SIZE = 67108864"
  by (simp add: RUBY_ALLOC_ARENA_SIZE_def)

text \<open>The parts of the invariant a proof asks for.\<close>

lemma heap_invD:
  assumes "heap_inv A s B fl"
  shows "arena_at A" and "unat (ruby_alloc_offset s) \<le> 67108864"
    and "h \<in> B \<Longrightarrow> block_ok A s h"
    and "a \<in> B \<Longrightarrow> b \<in> B \<Longrightarrow> a \<noteq> b \<Longrightarrow> below s a b \<or> below s b a"
    and "lseg s (free_list s) fl 0" and "distinct fl" and "set fl \<subseteq> B"
    and "h \<in> B \<Longrightarrow> h_is_free (hdr s h) = (if h \<in> set fl then 1 else 0)"
  using assms by (auto simp: heap_inv_def)

lemma block_bounds:
  assumes "heap_inv A s B fl" and "h \<in> B"
  shows "h \<noteq> 0" and "unat A \<le> unat h" and "16 dvd unat h"
    and "unat h + 32 + unat (h_capacity (hdr s h)) \<le> unat A + unat (ruby_alloc_offset s)"
    and "unat h + 32 + unat (h_capacity (hdr s h)) + 4096 < 2 ^ 64"
    and "h_magic (hdr s h) = ALLOC_MAGIC" and "h_size (hdr s h) \<le> h_capacity (hdr s h)"
    and "unat (header_payload h) = unat h + 32" and "header_payload h \<noteq> 0"
proof -
  have b: "block_ok A s h" "arena_at A" "unat (ruby_alloc_offset s) \<le> 67108864"
    using heap_invD [OF assms(1)] assms(2) by simp_all
  then show lo: "unat A \<le> unat h" and "16 dvd unat h"
    and hi: "unat h + 32 + unat (h_capacity (hdr s h)) \<le> unat A + unat (ruby_alloc_offset s)"
    and "h_magic (hdr s h) = ALLOC_MAGIC" and "h_size (hdr s h) \<le> h_capacity (hdr s h)"
    by (simp_all add: block_ok_def)
  show hi': "unat h + 32 + unat (h_capacity (hdr s h)) + 4096 < 2 ^ 64"
    using hi b by (simp add: arena_at_def)
  show "h \<noteq> 0" using lo b(2) by (auto simp: arena_at_def)
  show pay: "unat (header_payload h) = unat h + 32"
    using hi' by (simp add: header_payload_def HEADER_SIZE_def unat_plus_if')
  show "header_payload h \<noteq> 0" using pay by auto
qed

lemma blocks_apart:
  assumes "heap_inv A s B fl" and "a \<in> B" and "b \<in> B" and "a \<noteq> b"
  shows "apart a b"
  using heap_invD(4) [OF assms] block_bounds(5) [OF assms(1,2)] block_bounds(5) [OF assms(1,3)]
  by (auto simp: apart_def below_def)

lemma payload_header_payload [simp]:
  "payload_header (header_payload h) = h" "header_payload (payload_header p) = p"
  by (simp_all add: payload_header_def header_payload_def)

text \<open>A write outside every header changes no header.\<close>

lemma heap_inv_cong:
  assumes "heap_inv A s B fl"
    and "\<And>h. h \<in> B \<Longrightarrow> hdr s' h = hdr s h"
    and "ruby_alloc_offset s' = ruby_alloc_offset s" and "free_list s' = free_list s"
  shows "heap_inv A s' B fl"
proof -
  have "lseg s' (free_list s') fl 0 = lseg s (free_list s) fl 0"
    using assms(2,4) heap_invD(7) [OF assms(1)] by (metis lseg_cong subsetD)
  then show ?thesis
    using assms by (simp add: heap_inv_def block_ok_def below_def)
qed

lemma initial_heap_inv: "arena_at A \<Longrightarrow> heap_inv A (initial_heap m) {} []"
  by (simp add: heap_inv_def initial_heap_def)

section \<open>Taking a block from the free list\<close>

text \<open>What \<open>take_block\<close> does to the headers, for the block the search found.\<close>

lemma reuse_block_split:
  assumes inv: "heap_inv A s B fl" and fm: "find_match s sz al 0 fl = Some (p, c)"
  shows "\<exists>xs ys. fl = xs @ c # ys \<and> p = last (0 # xs) \<and> c \<in> B \<and> block_matches s c sz al \<and>
    (p = 0 \<and> xs = [] \<or> p \<in> set xs \<and> p \<in> B \<and> apart p c)"
proof -
  obtain xs ys where fl: "fl = xs @ c # ys" and p: "p = last (0 # xs)"
    and m: "block_matches s c sz al"
    using find_match_Some [OF fm] by blast
  have sub: "set fl \<subseteq> B" and dist: "distinct fl" using heap_invD [OF inv] by simp_all
  have "p = 0 \<and> xs = [] \<or> p \<in> set xs \<and> p \<in> B \<and> apart p c"
  proof (cases xs rule: rev_cases)
    case Nil
    then show ?thesis using p by simp
  next
    case (snoc zs z)
    then have "p \<in> set xs" "p \<in> B" "c \<in> B" "p \<noteq> c" using p fl sub dist by auto
    then show ?thesis using blocks_apart [OF inv] by blast
  qed
  with fl p m sub show ?thesis by auto
qed

lemma reuse_block_hdr:
  assumes inv: "heap_inv A s B fl" and fm: "find_match s sz al 0 fl = Some (p, c)"
    and h: "h \<in> B"
  shows "hdr (take_block sz p c s) h =
    (if h = c then (hdr s c)\<lparr>h_size := sz, h_next_free := 0, h_is_free := 0\<rparr>
     else if h = p then (hdr s p)\<lparr>h_next_free := h_next_free (hdr s c)\<rparr> else hdr s h)"
proof -
  obtain xs ys where x: "fl = xs @ c # ys" "c \<in> B"
    "p = 0 \<and> xs = [] \<or> p \<in> set xs \<and> p \<in> B \<and> apart p c"
    using reuse_block_split [OF inv fm] by blast
  have h0: "h \<noteq> 0" using block_bounds(1) [OF inv h] .
  have pc: "p = 0 \<or> apart p c" using x by blast
  have ap: "apart h k" if "k \<in> B" "h \<noteq> k" for k using blocks_apart [OF inv h that] .
  show ?thesis
    using hdr_take_block(1,2) [OF pc] hdr_take_block(3) [OF pc, of h] ap [of c] ap [of p] x(2,3) h0
    by auto
qed

lemma reuse_block_chain:
  assumes inv: "heap_inv A s B fl" and fm: "find_match s sz al 0 fl = Some (p, c)"
  defines "s' \<equiv> take_block sz p c s"
  shows "lseg s' (free_list s') (remove1 c fl) 0"
proof -
  note D = heap_invD [OF inv]
  obtain xs ys where x: "fl = xs @ c # ys" "p = last (0 # xs)" "c \<in> B"
    "p = 0 \<and> xs = [] \<or> p \<in> set xs \<and> p \<in> B \<and> apart p c"
    using reuse_block_split [OF inv fm] by blast
  have rem: "remove1 c fl = xs @ ys" using x(1) D(6) by (simp add: remove1_append)
  have nxt: "h_next_free (hdr s' h) = h_next_free (hdr s h)"
    if "h \<in> set (xs @ ys)" "h \<noteq> p" for h
    using reuse_block_hdr [OF inv fm, of h] that x(1) D(6,7) by (auto simp: s'_def)
  show ?thesis
  proof (cases xs rule: rev_cases)
    case Nil
    then have "p = 0" "lseg s (h_next_free (hdr s c)) ys 0" using x D(5) by simp_all
    moreover have "0 \<notin> set ys" using x(1) D(7) block_bounds(1) [OF inv] by auto
    ultimately have "lseg s' (h_next_free (hdr s c)) ys 0"
      by (elim lseg_congI) (use nxt \<open>p = 0\<close> in auto)
    then show ?thesis using \<open>p = 0\<close> Nil rem by (simp add: s'_def mem_simps)
  next
    case (snoc zs z)
    then have z: "p = z" "z \<in> B" "z \<noteq> 0" using x block_bounds(1) [OF inv] by auto
    from D(5) x(1) snoc have seg: "lseg s (free_list s) zs z" "lseg s (h_next_free (hdr s c)) ys 0"
      by (auto simp: lseg_append)
    have "z \<notin> set zs" "z \<notin> set ys" "z \<noteq> c" using x(1) snoc D(6) by auto
    then have "lseg s' (free_list s) zs z" "lseg s' (h_next_free (hdr s c)) ys 0"
      using nxt snoc z by (auto intro!: lseg_congI [OF seg(1)] lseg_congI [OF seg(2)])
    then show ?thesis
      using snoc z rem \<open>z \<noteq> c\<close> reuse_block_hdr [OF inv fm z(2)]
      by (auto simp: lseg_append s'_def mem_simps)
  qed
qed

lemma reuse_block_inv:
  assumes inv: "heap_inv A s B fl" and fm: "find_match s sz al 0 fl = Some (p, c)"
  defines "s' \<equiv> take_block sz p c s"
  shows "heap_inv A s' B (remove1 c fl)"
proof -
  note D = heap_invD [OF inv]
  obtain xs ys where x: "fl = xs @ c # ys" "c \<in> B" "block_matches s c sz al"
    using reuse_block_split [OF inv fm] by blast
  note H = reuse_block_hdr [OF inv fm, folded s'_def]
  have "set (remove1 c fl) = set fl - {c}" using D(6) by simp
  moreover have "block_ok A s' h" if "h \<in> B" for h
    using D(3) [OF that] x(3) H [OF that]
    by (auto simp: block_ok_def block_matches_def s'_def mem_simps)
  moreover have "h_capacity (hdr s' h) = h_capacity (hdr s h)" if "h \<in> B" for h
    using H [OF that] by simp
  moreover have "h_is_free (hdr s' h) = (if h \<in> set fl - {c} then 1 else 0)" if "h \<in> B" for h
    using H [OF that] D(8) [OF that] by auto
  ultimately show ?thesis
    using D reuse_block_chain [OF inv fm, folded s'_def]
    by (auto simp: heap_inv_def below_def s'_def mem_simps distinct_remove1)
qed

lemma reuse_block_mem:
  assumes inv: "heap_inv A s B fl" and fm: "find_match s sz al 0 fl = Some (p, c)"
    and x: "x \<notin> (\<Union>h\<in>set fl. hdr_range h)"
  shows "hmem (take_block sz p c s) x = hmem s x"
proof -
  obtain xs ys where s: "fl = xs @ c # ys" "c \<in> B"
    "p = 0 \<and> xs = [] \<or> p \<in> set xs \<and> p \<in> B \<and> apart p c"
    using reuse_block_split [OF inv fm] by blast
  have "unat h + 32 \<le> 2 ^ 64" if "h \<in> B" for h
    using block_bounds(5) [OF inv that] by simp
  with s x show ?thesis by (intro take_block_outside) auto
qed

section \<open>Cutting a block from the arena\<close>

text \<open>The address the code computes for the payload, as a natural number.\<close>

definition place :: "addr \<Rightarrow> heap \<Rightarrow> u64 \<Rightarrow> nat" where
  "place A s al =
     (unat A + unat (ruby_alloc_offset s) + 32 + unat al - 1) div unat al * unat al"

lemma place_bounds:
  assumes "0 < unat al"
  shows "unat A + unat (ruby_alloc_offset s) + 32 \<le> place A s al"
    and "place A s al < unat A + unat (ruby_alloc_offset s) + 32 + unat al"
    and "unat al dvd place A s al"
  using round_up_nat [OF assms, of "unat A + unat (ruby_alloc_offset s) + 32"]
  by (simp_all add: place_def)

lemma bump_inv:
  assumes inv: "heap_inv A s B fl" and h: "16 dvd unat h"
    and lo: "unat A + unat (ruby_alloc_offset s) \<le> unat h"
    and hi: "unat h + 32 + unat sz \<le> unat A + 67108864"
  defines "s' \<equiv> (new_header h sz s)\<lparr>ruby_alloc_offset := h + 32 + sz - A\<rparr>"
  shows "heap_inv A s' (insert h B) fl" and "h \<notin> B"
    and "unat (ruby_alloc_offset s') = unat h + 32 + unat sz - unat A"
    and "b \<in> B \<Longrightarrow> hdr s' b = hdr s b"
    and "unat x < unat A + unat (ruby_alloc_offset s) \<Longrightarrow> hmem s' x = hmem s x"
proof -
  note D = heap_invD [OF inv]
  have lim: "unat h + 32 + unat sz + 4096 < 2 ^ 64" using hi D(1) by (simp add: arena_at_def)
  have nxt: "unat (h + 32 + sz) = unat h + 32 + unat sz"
    using lim by (simp add: unat_plus_if')
  show off: "unat (ruby_alloc_offset s') = unat h + 32 + unat sz - unat A"
    using lo nxt by (simp add: s'_def unat_sub_if')
  have bb: "unat b + 32 + unat (h_capacity (hdr s b)) \<le> unat h" if "b \<in> B" for b
    using block_bounds(4) [OF inv that] lo by linarith
  show hB: "h \<notin> B" using bb by force
  have ap: "apart b h" if "b \<in> B" for b using bb [OF that] lim by (auto simp: apart_def)
  show other: "hdr s' b = hdr s b" if "b \<in> B" for b
    unfolding s'_def using ap [OF that] by (simp add: mem_simps)
  show "unat x < unat A + unat (ruby_alloc_offset s) \<Longrightarrow> hmem s' x = hmem s x" for x
    unfolding s'_def using lim lo new_header_outside [of h x sz s]
    by (simp add: hdr_range_def)
  have new: "hdr s' h = \<lparr>h_size = sz, h_capacity = sz, h_next_free = 0, h_is_free = 0, h_magic = ALLOC_MAGIC\<rparr>"
    by (simp add: s'_def mem_simps)
  have "block_ok A s' b" if "b \<in> insert h B" for b
    using that D(3) [of b] other [of b] new off h lo bb [of b] hi D(1)
    by (auto simp: block_ok_def arena_at_def)
  moreover have "lseg s' (free_list s') fl 0"
    using D(5,7) other by (auto simp: s'_def mem_simps intro!: lseg_congI [OF D(5)])
  moreover have "below s' a b \<or> below s' b a" if "a \<in> insert h B" "b \<in> insert h B" "a \<noteq> b" for a b
    using that bb [of a] bb [of b] D(4) [of a b] other [of a] other [of b] by (auto simp: below_def)
  moreover have "unat (ruby_alloc_offset s') \<le> 67108864" using off hi by linarith
  moreover have "h_is_free (hdr s' b) = (if b \<in> set fl then 1 else 0)" if "b \<in> insert h B" for b
    using that other [of b] new D(7,8) hB by auto
  ultimately show "heap_inv A s' (insert h B) fl"
    using D by (auto simp: heap_inv_def)
qed

section \<open>What arena_alloc computes\<close>

definition fit_size :: "u64 \<Rightarrow> u64" where "fit_size sz = (if sz = 0 then 1 else sz)"
definition fit_align :: "u64 \<Rightarrow> u64" where "fit_align al = (if al < 16 then 16 else al)"

lemma unat_fit_size: "unat (fit_size sz) = max 1 (unat sz)"
proof (cases "sz = 0")
  case False
  then have "0 < unat sz" by (simp add: unat_gt_0)
  with False show ?thesis by (simp add: fit_size_def max_def)
qed (simp add: fit_size_def)

lemma fit_align_props:
  assumes "al < 16 \<or> is_power_of_two al"
  shows "is_power_of_two (fit_align al)" and "16 dvd unat (fit_align al)" and "0 < unat (fit_align al)"
proof -
  have p16: "is_power_of_two 16" by (simp add: is_power_of_two_def)
  show p: "is_power_of_two (fit_align al)" using assms p16 by (auto simp: fit_align_def)
  obtain k where k: "k < 64" "unat (fit_align al) = 2 ^ k"
    using unat_power_of_two [OF p] by blast
  have "16 \<le> unat (fit_align al)" by (simp add: fit_align_def word_less_nat_alt)
  then have "(2::nat) ^ 4 \<le> 2 ^ k" using k by simp
  then have "4 \<le> k" by (rule power_le_imp_le_exp [rotated]) simp
  then have "(2::nat) ^ 4 dvd 2 ^ k" by (rule le_imp_power_dvd)
  then show "16 dvd unat (fit_align al)" using k by simp
  show "0 < unat (fit_align al)" using k by simp
qed

lemma fit_align_dvd:
  assumes "is_power_of_two al"
  shows "unat al dvd unat (fit_align al)"
proof (cases "al < 16")
  case True
  obtain k where k: "unat al = 2 ^ k" using unat_power_of_two [OF assms] by blast
  with True have "(2::nat) ^ k < 2 ^ 4" by (simp add: word_less_nat_alt)
  then have "k < 4" by (rule power_less_imp_less_exp [rotated]) simp
  then have "(2::nat) ^ k dvd 2 ^ 4" by (intro le_imp_power_dvd) simp
  then show ?thesis using True k by (simp add: fit_align_def)
qed (simp add: fit_align_def)

text \<open>
  The placement test of the code, exactly: the header, the alignment gap and the
  payload fit in what is left of the arena, computed without wrapping. It holds for
  every request up to the size of the header below \<open>SIZE_MAX\<close>.
\<close>

lemma placement_wraps:
  assumes p: "is_power_of_two al" and far: "2 ^ 64 < unat A + unat (ruby_alloc_offset s) + 32 + unat al"
  shows "2 ^ 64 \<le> place A s al"
proof -
  obtain k where k: "k < 64" "unat al = 2 ^ k" using unat_power_of_two [OF p] by blast
  have "(2::nat) ^ k dvd 2 ^ 64" using k(1) by (intro le_imp_power_dvd) simp
  then have "(2::nat) ^ 64 = 2 ^ 64 div unat al * unat al"
    unfolding k(2) by (rule dvd_div_mult_self [symmetric])
  also have "\<dots> \<le> place A s al"
    unfolding place_def using far by (intro mult_le_mono1 div_le_mono) linarith
  finally show ?thesis .
qed

lemma placement_fits:
  assumes up: "unat (align_up (A + ruby_alloc_offset s + HEADER_SIZE) al) = place A s al"
    and pl: "32 \<le> place A s al" and sz: "unat sz + 32 < 2 ^ 64" and A: "unat A + 67108864 + 4096 < 2 ^ 64"
  defines "h \<equiv> align_up (A + ruby_alloc_offset s + HEADER_SIZE) al - HEADER_SIZE"
  shows "unat h + 32 = place A s al"
    and "(h + HEADER_SIZE + sz < h \<or> h + HEADER_SIZE + sz > A + RUBY_ALLOC_ARENA_SIZE) \<longleftrightarrow>
      \<not> place A s al + unat sz \<le> unat A + 67108864"
proof -
  have lim: "unat (A + RUBY_ALLOC_ARENA_SIZE) = unat A + 67108864" using A by (simp add: unat_plus_if')
  show h: "unat h + 32 = place A s al"
    using up pl by (simp add: h_def HEADER_SIZE_def unat_sub_if')
  have "place A s al < 2 ^ 64"
    using up unsigned_less [of "align_up (A + ruby_alloc_offset s + HEADER_SIZE) al", where 'a = nat] by simp
  then have hh: "unat (h + HEADER_SIZE) = place A s al" using h by (simp add: unat_plus_if' HEADER_SIZE_def)
  show "(h + HEADER_SIZE + sz < h \<or> h + HEADER_SIZE + sz > A + RUBY_ALLOC_ARENA_SIZE) \<longleftrightarrow>
      \<not> place A s al + unat sz \<le> unat A + 67108864"
  proof (cases "place A s al + unat sz < 2 ^ 64")
    case True
    then have "unat (h + HEADER_SIZE + sz) = place A s al + unat sz"
      using hh by (simp add: unat_plus_if')
    then show ?thesis using h lim by (auto simp: word_less_nat_alt)
  next
    case False
    then have "unat (h + HEADER_SIZE + sz) = place A s al + unat sz - 2 ^ 64"
      using hh by (simp add: unat_plus_if')
    then have "h + HEADER_SIZE + sz < h" using h sz False by (simp add: word_less_nat_alt)
    then show ?thesis using False A by auto
  qed
qed

lemma placement:
  assumes inv: "heap_inv A s B fl" and p: "is_power_of_two al" and sz: "unat sz + 32 < 2 ^ 64"
  defines "h \<equiv> align_up (A + ruby_alloc_offset s + HEADER_SIZE) al - HEADER_SIZE"
  shows "(h + HEADER_SIZE + sz < h \<or> h + HEADER_SIZE + sz > A + RUBY_ALLOC_ARENA_SIZE) \<longleftrightarrow>
      \<not> place A s al + unat sz \<le> unat A + 67108864"
    and "place A s al + unat sz \<le> unat A + 67108864 \<Longrightarrow> unat h + 32 = place A s al"
proof -
  note D = heap_invD [OF inv]
  have pos: "0 < unat al" using unat_power_of_two [OF p] by auto
  have A: "unat A + 67108864 + 4096 < 2 ^ 64" using D(1) by (simp add: arena_at_def)
  have base: "unat (A + ruby_alloc_offset s + HEADER_SIZE) = unat A + unat (ruby_alloc_offset s) + 32"
    using A D(2) by (simp add: unat_plus_if' HEADER_SIZE_def)
  have goal: "((h + HEADER_SIZE + sz < h \<or> h + HEADER_SIZE + sz > A + RUBY_ALLOC_ARENA_SIZE) \<longleftrightarrow>
      \<not> place A s al + unat sz \<le> unat A + 67108864) \<and>
    (place A s al + unat sz \<le> unat A + 67108864 \<longrightarrow> unat h + 32 = place A s al)"
  proof (cases "unat A + unat (ruby_alloc_offset s) + 32 + unat al \<le> 2 ^ 64")
    case True
    then have up: "unat (align_up (A + ruby_alloc_offset s + HEADER_SIZE) al) = place A s al"
      using align_up_nat [OF p] base by (simp add: place_def)
    have pl: "32 \<le> place A s al" using place_bounds(1) [OF pos, of A s] by simp
    show ?thesis using placement_fits [OF up pl sz A] unfolding h_def by blast
  next
    case False
    then have h: "h = - 32" using align_up_wraps [OF p] base by (simp add: h_def HEADER_SIZE_def)
    have "unat h = 2 ^ 64 - 32" by (simp add: h)
    moreover have "h + HEADER_SIZE + sz = sz" by (simp add: h HEADER_SIZE_def)
    ultimately have "h + HEADER_SIZE + sz < h"
      using sz by (simp only: word_less_nat_alt)
    moreover have "unat A + 67108864 < place A s al" using placement_wraps [OF p, of A s] False A by linarith
    ultimately show ?thesis by simp
  qed
  then show "(h + HEADER_SIZE + sz < h \<or> h + HEADER_SIZE + sz > A + RUBY_ALLOC_ARENA_SIZE) \<longleftrightarrow>
      \<not> place A s al + unat sz \<le> unat A + 67108864"
    and "place A s al + unat sz \<le> unat A + 67108864 \<Longrightarrow> unat h + 32 = place A s al" by blast+
qed

text \<open>
  \<open>arena_alloc\<close> for every request it can measure: first fit from the free list, else
  a fresh block if it fits, else \<open>ENOMEM\<close> with the heap untouched.
\<close>

lemma arena_alloc_eq:
  assumes inv: "heap_inv A s B fl" and al: "al < 16 \<or> is_power_of_two al"
    and sz: "unat sz + 32 < 2 ^ 64"
  shows "arena_alloc A sz al s = Some
    (case find_match s (fit_size sz) (fit_align al) 0 fl of
       Some (p, c) \<Rightarrow> (Inr (header_payload c), take_block (fit_size sz) p c s)
     | None \<Rightarrow>
         if place A s (fit_align al) + max 1 (unat sz) \<le> unat A + 67108864
         then let h = align_up (A + ruby_alloc_offset s + HEADER_SIZE) (fit_align al) - HEADER_SIZE
              in (Inr (header_payload h),
                  (new_header h (fit_size sz) s)\<lparr>ruby_alloc_offset := h + 32 + fit_size sz - A\<rparr>)
         else (Inl ENOMEM, s))"
proof -
  note D = heap_invD [OF inv]
  let ?sz = "fit_size sz" and ?al = "fit_align al"
  have p: "is_power_of_two ?al" using fit_align_props(1) [OF al] .
  have fs: "unat ?sz + 32 < 2 ^ 64" using sz by (simp add: unat_fit_size)
  note pl = placement(1) [OF inv p fs]
  have reuse: "reuse_free_block ?sz ?al s =
      Some (case find_match s ?sz ?al 0 fl of None \<Rightarrow> (0, s)
            | Some (p, c) \<Rightarrow> (header_payload c, take_block ?sz p c s))"
    unfolding reuse_free_block_def by (rule reuse_loop_find [OF D(5)])
  have ifal: "(if al < DEFAULT_ALIGNMENT then DEFAULT_ALIGNMENT else al) = ?al"
    by (simp add: fit_align_def DEFAULT_ALIGNMENT_def)
  have start: "arena_alloc A sz al s =
     (case reuse_free_block ?sz ?al s of None \<Rightarrow> None
      | Some (reused, s1) \<Rightarrow> if reused \<noteq> 0 then Some (Inr reused, s1)
        else let h = align_up (A + ruby_alloc_offset s1 + HEADER_SIZE) ?al - HEADER_SIZE;
                 nxt = h + HEADER_SIZE + ?sz
             in if nxt < h \<or> nxt > A + RUBY_ALLOC_ARENA_SIZE then Some (Inl ENOMEM, s1)
                else Some (Inr (header_payload h), (new_header h ?sz s1)\<lparr>ruby_alloc_offset := nxt - A\<rparr>))"
    unfolding arena_alloc_def Let_def fit_size_def [symmetric] ifal using p by simp
  show ?thesis
  proof (cases "find_match s ?sz ?al 0 fl")
    case None
    then show ?thesis using pl by (simp add: start reuse Let_def unat_fit_size HEADER_SIZE_def)
  next
    case (Some pc)
    obtain p c where pc: "pc = (p, c)" by force
    obtain xs ys where "c \<in> B" using reuse_block_split [OF inv] Some pc by blast
    then have "header_payload c \<noteq> 0" using block_bounds(9) [OF inv] by blast
    with Some pc show ?thesis by (simp add: start reuse)
  qed
qed

lemma arena_alloc_EINVAL:
  "\<not> (al < 16 \<or> is_power_of_two al) \<Longrightarrow> arena_alloc A sz al s = Some (Inl EINVAL, s)"
  by (simp add: arena_alloc_def Let_def DEFAULT_ALIGNMENT_def)

section \<open>The abstract view: live pointers\<close>

text \<open>
  \<open>heap_rep A s L\<close>: in heap \<open>s\<close> the live allocations are exactly the pointers in
  the domain of \<open>L\<close>, with the number of bytes each may use.
\<close>

definition live :: "heap \<Rightarrow> addr set \<Rightarrow> addr list \<Rightarrow> addr \<Rightarrow> nat option" where
  "live s B fl p =
     (if payload_header p \<in> B \<and> payload_header p \<notin> set fl
      then Some (unat (h_capacity (hdr s (payload_header p)))) else None)"

definition heap_rep :: "addr \<Rightarrow> heap \<Rightarrow> (addr \<Rightarrow> nat option) \<Rightarrow> bool" where
  "heap_rep A s L \<longleftrightarrow> (\<exists>B fl. heap_inv A s B fl \<and> L = live s B fl)"

lemma heap_repI: "heap_inv A s B fl \<Longrightarrow> L = live s B fl \<Longrightarrow> heap_rep A s L"
  unfolding heap_rep_def by blast

lemma heap_repE:
  assumes "heap_rep A s L"
  obtains B fl where "heap_inv A s B fl" and "L = live s B fl"
  using assms unfolding heap_rep_def by blast

lemma live_Some:
  "live s B fl p = Some n \<longleftrightarrow> payload_header p \<in> B \<and> payload_header p \<notin> set fl \<and>
     n = unat (h_capacity (hdr s (payload_header p)))"
  by (auto simp: live_def)

text \<open>The bytes of a live allocation lie inside the used part of the arena.\<close>

lemma live_bounds:
  assumes "heap_rep A s L" and "L p = Some n"
  shows "unat A + 32 \<le> unat p" and "unat p + n \<le> unat A + unat (ruby_alloc_offset s)"
    and "unat p + n \<le> unat A + 67108864" and "unat p + n + 4096 < 2 ^ 64" and "16 dvd unat p" and "p \<noteq> 0"
proof -
  obtain B fl where inv: "heap_inv A s B fl" and L: "L = live s B fl"
    using assms(1) by (rule heap_repE)
  let ?h = "payload_header p"
  have h: "?h \<in> B" and n: "n = unat (h_capacity (hdr s ?h))"
    using assms(2) by (auto simp: L live_Some)
  note b = block_bounds [OF inv h]
  have p: "unat p = unat ?h + 32" using b(8) by simp
  show "unat A + 32 \<le> unat p" "unat p + n \<le> unat A + unat (ruby_alloc_offset s)"
    "unat p + n + 4096 < 2 ^ 64" "16 dvd unat p"
    using b p n by (simp_all add: dvd_add)
  then show "p \<noteq> 0" "unat p + n \<le> unat A + 67108864"
    using heap_invD(2) [OF inv] by auto
qed

text \<open>Distinct live allocations do not overlap, nor does a live one meet a header.\<close>

lemma live_disjoint:
  assumes "heap_rep A s L" and "L p = Some n" and "L q = Some k" and "p \<noteq> q"
  shows "unat p + n + 32 \<le> unat q \<or> unat q + k + 32 \<le> unat p"
proof -
  obtain B fl where inv: "heap_inv A s B fl" and L: "L = live s B fl"
    using assms(1) by (rule heap_repE)
  have h: "payload_header p \<in> B" "payload_header q \<in> B" "payload_header p \<noteq> payload_header q"
    using assms by (auto simp: L live_Some payload_header_def)
  have "unat p = unat (payload_header p) + 32" "unat q = unat (payload_header q) + 32"
    using block_bounds(8) [OF inv h(1)] block_bounds(8) [OF inv h(2)] by simp_all
  with heap_invD(4) [OF inv h] assms(2,3) show ?thesis
    by (auto simp: L live_Some below_def)
qed

text \<open>
  \<open>keeps A L s s'\<close>: the step from \<open>s\<close> to \<open>s'\<close> left every allocation in \<open>L\<close> alone, and
  everything outside the arena.
\<close>

definition keeps :: "addr \<Rightarrow> (addr \<Rightarrow> nat option) \<Rightarrow> heap \<Rightarrow> heap \<Rightarrow> bool" where
  "keeps A L s s' \<longleftrightarrow>
     (\<forall>q k. L q = Some k \<longrightarrow> hdr s' (payload_header q) = hdr s (payload_header q) \<and>
        (\<forall>x. unat q \<le> unat x \<and> unat x < unat q + k \<longrightarrow> hmem s' x = hmem s x)) \<and>
     (\<forall>x. unat x < unat A \<or> unat A + 67108864 \<le> unat x \<longrightarrow> hmem s' x = hmem s x)"

lemma keeps_refl [simp]: "keeps A L s s" by (simp add: keeps_def)

lemma keepsI:
  assumes "\<And>q k. L q = Some k \<Longrightarrow> hdr s' (payload_header q) = hdr s (payload_header q)"
    and "\<And>q k x. L q = Some k \<Longrightarrow> unat q \<le> unat x \<Longrightarrow> unat x < unat q + k \<Longrightarrow> hmem s' x = hmem s x"
    and "\<And>x. unat x < unat A \<or> unat A + 67108864 \<le> unat x \<Longrightarrow> hmem s' x = hmem s x"
  shows "keeps A L s s'"
  using assms unfolding keeps_def by blast

lemma keepsD:
  assumes "keeps A L s s'" and "L q = Some k"
  shows "hdr s' (payload_header q) = hdr s (payload_header q)"
    and "unat q \<le> unat x \<Longrightarrow> unat x < unat q + k \<Longrightarrow> hmem s' x = hmem s x"
  using assms by (auto simp: keeps_def)

lemma keeps_outside:
  "keeps A L s s' \<Longrightarrow> unat x < unat A \<or> unat A + 67108864 \<le> unat x \<Longrightarrow> hmem s' x = hmem s x"
  unfolding keeps_def by blast

lemma live_outside_headers:
  assumes inv: "heap_inv A s B fl" and q: "live s B fl q = Some k" and h: "h \<in> B"
    and x: "unat q \<le> unat x" "unat x < unat q + k"
  shows "x \<notin> hdr_range h"
proof -
  let ?g = "payload_header q"
  have g: "?g \<in> B" "k = unat (h_capacity (hdr s ?g))" using q by (simp_all add: live_Some)
  have "unat q = unat ?g + 32" using block_bounds(8) [OF inv g(1)] by simp
  with heap_invD(4) [OF inv h g(1)] x g(2) show ?thesis
    by (cases "h = ?g") (auto simp: hdr_range_def below_def)
qed

lemma header_in_arena:
  assumes "heap_inv A s B fl" and "h \<in> B" and "x \<in> hdr_range h"
  shows "unat A \<le> unat x" and "unat x < unat A + 67108864"
  using block_bounds(2,4) [OF assms(1,2)] heap_invD(2) [OF assms(1)] assms(3)
  by (auto simp: hdr_range_def)

definition alloc_post ::
    "addr \<Rightarrow> (addr \<Rightarrow> nat option) \<Rightarrow> u64 \<Rightarrow> u64 \<Rightarrow> heap \<Rightarrow> addr \<Rightarrow> heap \<Rightarrow> bool" where
  "alloc_post A L sz al s p s' \<longleftrightarrow>
     L p = None \<and> unat al dvd unat p \<and> h_size (hdr s' (payload_header p)) = sz \<and> keeps A L s s' \<and>
     (\<exists>n. unat sz \<le> n \<and> heap_rep A s' (L(p \<mapsto> n)))"

lemma reuse_post:
  assumes inv: "heap_inv A s B fl" and fm: "find_match s sz al 0 fl = Some (p, c)"
  shows "alloc_post A (live s B fl) sz al s (header_payload c) (take_block sz p c s)"
proof -
  let ?s = "take_block sz p c s" and ?q = "header_payload c"
  obtain xs ys where x: "fl = xs @ c # ys" "c \<in> B" "block_matches s c sz al"
    "p = 0 \<and> xs = [] \<or> p \<in> set xs \<and> p \<in> B \<and> apart p c"
    using reuse_block_split [OF inv fm] by blast
  note H = reuse_block_hdr [OF inv fm]
  have cap: "h_capacity (hdr ?s h) = h_capacity (hdr s h)" if "h \<in> B" for h
    using H [OF that] by simp
  have fl': "set (remove1 c fl) = set fl - {c}" using heap_invD(6) [OF inv] by simp
  have "live ?s B (remove1 c fl) = (live s B fl)(?q \<mapsto> unat (h_capacity (hdr s c)))"
    using x(2) fl' cap by (auto simp: live_def fun_eq_iff)
  then have rep: "heap_rep A ?s ((live s B fl)(?q \<mapsto> unat (h_capacity (hdr s c))))"
    by (intro heap_repI [OF reuse_block_inv [OF inv fm]]) simp
  have "unat sz \<le> unat (h_capacity (hdr s c))"
    using x(3) by (simp add: block_matches_def word_le_nat_alt)
  moreover have "unat al dvd unat ?q"
    using x(3) by (metis block_matches_def mod_0_imp_dvd unat_mod unsigned_0)
  moreover have "keeps A (live s B fl) s ?s"
  proof (rule keepsI)
    fix q k
    assume q: "live s B fl q = Some k"
    then show "hdr ?s (payload_header q) = hdr s (payload_header q)"
      using H [of "payload_header q"] x block_bounds(1) [OF inv, of "payload_header q"]
      by (auto simp: live_Some)
    show "hmem ?s y = hmem s y" if "unat q \<le> unat y" "unat y < unat q + k" for y
      using live_outside_headers [OF inv q _ that] heap_invD(7) [OF inv]
      by (intro reuse_block_mem [OF inv fm]) blast
  next
    show "hmem ?s y = hmem s y" if "unat y < unat A \<or> unat A + 67108864 \<le> unat y" for y
      using header_in_arena [OF inv] heap_invD(7) [OF inv] that
      by (intro reuse_block_mem [OF inv fm]) fastforce
  qed
  ultimately show ?thesis
    using rep x(1) H [OF x(2)] unfolding alloc_post_def by (auto simp: live_def)
qed

lemma bump_post:
  assumes inv: "heap_inv A s B fl" and al: "16 dvd unat al" "0 < unat al"
    and h: "unat h + 32 = place A s al" and fits: "place A s al + unat sz \<le> unat A + 67108864"
  shows "alloc_post A (live s B fl) sz al s (header_payload h)
           ((new_header h sz s)\<lparr>ruby_alloc_offset := h + 32 + sz - A\<rparr>)"
proof -
  let ?s = "(new_header h sz s)\<lparr>ruby_alloc_offset := h + 32 + sz - A\<rparr>" and ?q = "header_payload h"
  note pb = place_bounds [OF al(2), of A s]
  have "16 dvd place A s al" using al(1) pb(3) by (rule dvd_trans)
  then have h16: "16 dvd unat h" unfolding h [symmetric] by presburger
  have lo: "unat A + unat (ruby_alloc_offset s) \<le> unat h" using h pb(1) by linarith
  have hi: "unat h + 32 + unat sz \<le> unat A + 67108864" using h fits by linarith
  note bump = bump_inv [OF inv h16 lo hi]
  have lt: "unat h + 32 < 2 ^ 64" using hi heap_invD(1) [OF inv] by (simp add: arena_at_def)
  have uq: "unat ?q = place A s al"
    using h lt by (simp add: header_payload_def HEADER_SIZE_def unat_plus_if')
  have new: "hdr ?s h = \<lparr>h_size = sz, h_capacity = sz, h_next_free = 0, h_is_free = 0, h_magic = ALLOC_MAGIC\<rparr>"
    by (simp add: mem_simps)
  have "live ?s (insert h B) fl = (live s B fl)(?q \<mapsto> unat sz)"
    using bump(2,4) new heap_invD(7) [OF inv] by (auto simp: live_def fun_eq_iff)
  then have rep: "heap_rep A ?s ((live s B fl)(?q \<mapsto> unat sz))"
    by (intro heap_repI [OF bump(1)]) simp
  have "keeps A (live s B fl) s ?s"
  proof (rule keepsI)
    fix q k
    assume q: "live s B fl q = Some k"
    then show "hdr ?s (payload_header q) = hdr s (payload_header q)"
      by (intro bump(4)) (simp add: live_Some)
    show "hmem ?s y = hmem s y" if "unat q \<le> unat y" "unat y < unat q + k" for y
      using live_bounds(2) [OF heap_repI [OF inv refl] q] that by (intro bump(5)) linarith
  next
    show "hmem ?s y = hmem s y" if "unat y < unat A \<or> unat A + 67108864 \<le> unat y" for y
      using that lo hi lt new_header_outside [of h _ sz s] by (auto simp: hdr_range_def)
  qed
  then show ?thesis
    using rep new uq pb(3) bump(2) unfolding alloc_post_def by (auto simp: live_def)
qed

lemma arena_alloc_rep:
  assumes rep: "heap_rep A s L" and al: "al < 16 \<or> is_power_of_two al"
    and sz: "unat sz + 32 < 2 ^ 64"
  shows "\<exists>r s'. arena_alloc A sz al s = Some (r, s') \<and>
    (case r of Inl e \<Rightarrow> e = ENOMEM \<and> s' = s
     | Inr p \<Rightarrow> alloc_post A L (fit_size sz) (fit_align al) s p s')"
proof -
  obtain B fl where inv: "heap_inv A s B fl" and L: "L = live s B fl"
    using rep by (rule heap_repE)
  note eq = arena_alloc_eq [OF inv al sz]
  note fa = fit_align_props [OF al]
  show ?thesis
  proof (cases "find_match s (fit_size sz) (fit_align al) 0 fl")
    case (Some pc)
    obtain p c where "pc = (p, c)" by force
    with Some show ?thesis using reuse_post [OF inv, of _ _ p c] by (simp add: eq L)
  next
    case None
    show ?thesis
    proof (cases "place A s (fit_align al) + max 1 (unat sz) \<le> unat A + 67108864")
      case True
      then have fits: "place A s (fit_align al) + unat (fit_size sz) \<le> unat A + 67108864"
        by (simp add: unat_fit_size)
      have fs: "unat (fit_size sz) + 32 < 2 ^ 64" using sz by (simp add: unat_fit_size)
      show ?thesis
        using None True bump_post [OF inv fa(2,3) placement(2) [OF inv fa(1) fs fits] fits]
        by (simp add: eq L Let_def)
    next
      case False
      with None show ?thesis by (simp add: eq)
    qed
  qed
qed

lemma alloc_postD:
  assumes "alloc_post A L sz al s p s'"
  obtains n where "L p = None" and "heap_rep A s' (L(p \<mapsto> n))" and "unat sz \<le> n"
    and "keeps A L s s'" and "unat al dvd unat p" and "h_size (hdr s' (payload_header p)) = sz"
  using assms unfolding alloc_post_def by blast

section \<open>Releasing and writing\<close>

lemma free_ignored:
  "ptr = 0 \<or> h_magic (hdr s (payload_header ptr)) \<noteq> ALLOC_MAGIC \<or>
     h_is_free (hdr s (payload_header ptr)) \<noteq> 0 \<Longrightarrow> free ptr s = s"
  by (auto simp: free_def Let_def)

lemma free_inv:
  assumes inv: "heap_inv A s B fl" and h: "h \<in> B" "h \<notin> set fl"
  shows "heap_inv A (free (header_payload h) s) B (h # fl)"
    and "b \<in> B \<Longrightarrow> hdr (free (header_payload h) s) b =
           (if b = h then (hdr s h)\<lparr>h_is_free := 1, h_next_free := free_list s\<rparr> else hdr s b)"
    and "x \<notin> hdr_range h \<Longrightarrow> hmem (free (header_payload h) s) x = hmem s x"
proof -
  note D = heap_invD [OF inv] and b = block_bounds [OF inv h(1)]
  let ?s = "free (header_payload h) s"
  have eq: "?s = (set_next_free h (free_list s) (set_is_free h 1 s))\<lparr>free_list := h\<rparr>"
    using b D(8) [OF h(1)] h(2) by (simp add: free_def Let_def mem_simps)
  show H: "b \<in> B \<Longrightarrow> hdr ?s b =
      (if b = h then (hdr s h)\<lparr>h_is_free := 1, h_next_free := free_list s\<rparr> else hdr s b)" for b
    using blocks_apart [OF inv, of b h] h by (auto simp: eq mem_simps)
  show "x \<notin> hdr_range h \<Longrightarrow> hmem ?s x = hmem s x"
    using b(5) by (simp add: eq mem_simps)
  have fl: "free_list ?s = h" "ruby_alloc_offset ?s = ruby_alloc_offset s" by (simp_all add: eq mem_simps)
  have "lseg ?s (free_list s) fl 0"
    using D(7) H h by (intro lseg_congI [OF D(5)]) auto
  then have "lseg ?s (free_list ?s) (h # fl) 0" using fl b(1) H [OF h(1)] by simp
  then show "heap_inv A ?s B (h # fl)"
    using D h H fl unfolding heap_inv_def block_ok_def below_def by auto
qed

lemma free_rep:
  assumes rep: "heap_rep A s L" and p: "L p = Some n"
  shows "heap_rep A (free p s) (L(p := None))" and "keeps A (L(p := None)) s (free p s)"
    and "unat p \<le> unat x \<Longrightarrow> hmem (free p s) x = hmem s x"
proof -
  obtain B fl where inv: "heap_inv A s B fl" and L: "L = live s B fl"
    using rep by (rule heap_repE)
  let ?h = "payload_header p" and ?s = "free p s"
  have h: "?h \<in> B" "?h \<notin> set fl" using p by (simp_all add: L live_Some)
  note F = free_inv [OF inv h, simplified] and b = block_bounds [OF inv h(1)]
  have "L(p := None) = live ?s B (?h # fl)"
    using F(2) by (auto simp: L live_def fun_eq_iff payload_header_def)
  then show "heap_rep A ?s (L(p := None))" by (intro heap_repI [OF F(1)])
  show "unat p \<le> unat x \<Longrightarrow> hmem ?s x = hmem s x" for x
    using b(8) by (intro F(3)) (simp add: hdr_range_def)
  show "keeps A (L(p := None)) s ?s"
  proof (rule keepsI)
    fix q k
    assume "(L(p := None)) q = Some k"
    then have q: "live s B fl q = Some k" "q \<noteq> p" by (auto simp: L split: if_splits)
    then show "hdr ?s (payload_header q) = hdr s (payload_header q)"
      using F(2) [of "payload_header q"] by (auto simp: live_Some payload_header_def)
    show "hmem ?s y = hmem s y" if "unat q \<le> unat y" "unat y < unat q + k" for y
      using live_outside_headers [OF inv q(1) h(1) that] by (rule F(3))
  next
    show "hmem ?s y = hmem s y" if "unat y < unat A \<or> unat A + 67108864 \<le> unat y" for y
      using header_in_arena [OF inv h(1), of y] that by (intro F(3)) linarith
  qed
qed

text \<open>The owner of a live allocation may write every byte of it.\<close>

lemma write_rep:
  assumes rep: "heap_rep A s L" and p: "L p = Some n"
    and m: "\<And>x. \<not> (unat p \<le> unat x \<and> unat x < unat p + n) \<Longrightarrow> m x = hmem s x"
  shows "heap_rep A (s\<lparr>hmem := m\<rparr>) L" and "keeps A (L(p := None)) s (s\<lparr>hmem := m\<rparr>)"
    and "L q = Some k \<Longrightarrow> hdr (s\<lparr>hmem := m\<rparr>) (payload_header q) = hdr s (payload_header q)"
proof -
  obtain B fl where inv: "heap_inv A s B fl" and L: "L = live s B fl"
    using rep by (rule heap_repE)
  let ?s = "s\<lparr>hmem := m\<rparr>"
  have H: "hdr ?s h = hdr s h" if "h \<in> B" for h
  proof (rule hdr_cong)
    show "unat h + 32 \<le> 2 ^ 64" using block_bounds(5) [OF inv that] by simp
    fix x :: addr
    assume "unat h \<le> unat x" "unat x < unat h + 32"
    then have "x \<in> hdr_range h" by (simp add: hdr_range_def)
    then have "\<not> (unat p \<le> unat x \<and> unat x < unat p + n)"
      using live_outside_headers [OF inv p [unfolded L] that] by blast
    then show "hmem ?s x = hmem s x" using m by simp
  qed
  have inv': "heap_inv A ?s B fl" by (rule heap_inv_cong [OF inv]) (simp_all add: H)
  have "L = live ?s B fl" by (auto simp: L live_def H fun_eq_iff)
  then show "heap_rep A ?s L" by (rule heap_repI [OF inv'])
  show "L q = Some k \<Longrightarrow> hdr ?s (payload_header q) = hdr s (payload_header q)" for q k
    by (intro H) (simp add: L live_Some)
  show "keeps A (L(p := None)) s ?s"
  proof (rule keepsI)
    fix q k
    assume "(L(p := None)) q = Some k"
    then have q: "L q = Some k" "q \<noteq> p" by (auto split: if_splits)
    then show "hdr ?s (payload_header q) = hdr s (payload_header q)" by (intro H) (simp add: L live_Some)
    show "hmem ?s y = hmem s y" if "unat q \<le> unat y" "unat y < unat q + k" for y
      using live_disjoint [OF rep p q(1)] q(2) that m [of y] by auto
  next
    show "hmem ?s y = hmem s y" if "unat y < unat A \<or> unat A + 67108864 \<le> unat y" for y
      using live_bounds(1,3) [OF rep p] that m [of y] by auto
  qed
qed

lemma heap_rep_arena: "heap_rep A s L \<Longrightarrow> arena_at A"
  by (auto elim!: heap_repE dest: heap_invD(1))

lemma live_header:
  assumes "heap_rep A s L" and "L p = Some n"
  shows "n = unat (h_capacity (hdr s (payload_header p)))"
    and "unat (h_size (hdr s (payload_header p))) \<le> n"
    and "h_magic (hdr s (payload_header p)) = ALLOC_MAGIC" and "h_is_free (hdr s (payload_header p)) = 0"
proof -
  obtain B fl where inv: "heap_inv A s B fl" and L: "L = live s B fl"
    using assms(1) by (rule heap_repE)
  have h: "payload_header p \<in> B" "payload_header p \<notin> set fl"
    and n: "n = unat (h_capacity (hdr s (payload_header p)))"
    using assms(2) by (simp_all add: L live_Some)
  show "n = unat (h_capacity (hdr s (payload_header p)))" by (rule n)
  show "unat (h_size (hdr s (payload_header p))) \<le> n"
    using block_bounds(7) [OF inv h(1)] n by (simp add: word_le_nat_alt)
  show "h_magic (hdr s (payload_header p)) = ALLOC_MAGIC" by (rule block_bounds(6) [OF inv h(1)])
  show "h_is_free (hdr s (payload_header p)) = 0" using heap_invD(8) [OF inv h(1)] h(2) by simp
qed

end
