(* ===== verification/Alloc_Clients.thy ===== *)
theory Alloc_Clients
  imports Arena_Correct
begin

text \<open>
  The interface between the allocator and its callers. The locale \<open>allocator\<close> states
  what a caller relies on; its lemmas are proved from those laws alone and reach the
  code through the interpretation on \<open>malloc\<close> and \<open>free\<close>. The rest of the theory is
  the callers of \<^verbatim>\<open>ruby_alloc.c\<close> itself: \<open>calloc\<close>, \<open>realloc\<close>, \<open>posix_memalign\<close>
  and \<open>aligned_alloc\<close>.
\<close>

section \<open>The interface\<close>

text \<open>
  \<open>rep s L\<close> relates a state to the map of live pointers and their usable sizes,
  \<open>kept L s s'\<close> says that a step left the allocations of \<open>L\<close> alone, \<open>fits n\<close> is the
  range of requests the provider measures correctly.
\<close>

locale allocator =
  fixes rep :: "'s \<Rightarrow> (addr \<Rightarrow> nat option) \<Rightarrow> bool"
    and kept :: "(addr \<Rightarrow> nat option) \<Rightarrow> 's \<Rightarrow> 's \<Rightarrow> bool"
    and fits :: "u64 \<Rightarrow> bool"
    and alloc :: "u64 \<Rightarrow> 's \<Rightarrow> (addr result \<times> 's) option"
    and release :: "addr \<Rightarrow> 's \<Rightarrow> 's"
  assumes kept_refl: "kept L s s"
    and kept_trans: "kept L s s' \<Longrightarrow> kept L s' s'' \<Longrightarrow> kept L s s''"
    and kept_mono: "kept L s s' \<Longrightarrow> L' \<subseteq>\<^sub>m L \<Longrightarrow> kept L' s s'"
    and alloc_returns: "rep s L \<Longrightarrow> fits n \<Longrightarrow> \<exists>r s'. alloc n s = Some (r, s')"
    and alloc_fails: "rep s L \<Longrightarrow> fits n \<Longrightarrow> alloc n s = Some (Inl e, s') \<Longrightarrow> e = ENOMEM \<and> s' = s"
    and alloc_gives: "rep s L \<Longrightarrow> fits n \<Longrightarrow> alloc n s = Some (Inr p, s') \<Longrightarrow>
      L p = None \<and> kept L s s' \<and> (\<exists>k\<ge>unat n. rep s' (L(p \<mapsto> k)))"
    and release_takes: "rep s L \<Longrightarrow> L p = Some k \<Longrightarrow>
      rep (release p s) (L(p := None)) \<and> kept (L(p := None)) s (release p s)"
begin

lemma kept_without: "kept L s s' \<Longrightarrow> kept (L(p := None)) s s'"
  by (erule kept_mono) (auto simp: map_le_def)

lemma kept_below: "kept (L(p \<mapsto> k)) s s' \<Longrightarrow> L p = None \<Longrightarrow> kept L s s'"
  by (erule kept_mono) (auto simp: map_le_def)

text \<open>Giving back what was just allocated restores the set of live pointers.\<close>

lemma alloc_release:
  assumes "rep s L" and "fits n" and "alloc n s = Some (Inr p, s')"
  shows "rep (release p s') L" and "kept L s (release p s')"
proof -
  from alloc_gives [OF assms] obtain k where k: "L p = None" "kept L s s'" "rep s' (L(p \<mapsto> k))"
    by blast
  have upd: "(L(p \<mapsto> k))(p := None) = L" using k(1) by auto
  have "rep (release p s') L \<and> kept L s' (release p s')"
    using release_takes [OF k(3), of p k] unfolding upd by simp
  then show "rep (release p s') L" and "kept L s (release p s')"
    by (simp, elim conjE, intro kept_trans [OF k(2)])
qed

text \<open>
  Moving an allocation: a new block, some writes that leave the live allocations
  alone, and the release of the old one.
\<close>

lemma move_block:
  assumes rep: "rep s L" and p: "L p = Some k" and n: "fits n"
    and new: "alloc n s = Some (Inr q, s1)"
    and wr: "\<And>m. rep s1 (L(q \<mapsto> m)) \<Longrightarrow> rep s2 (L(q \<mapsto> m)) \<and> kept L s1 s2"
  shows "\<exists>m\<ge>unat n. rep (release p s2) ((L(p := None))(q \<mapsto> m))"
    and "kept (L(p := None)) s (release p s2)"
proof -
  from alloc_gives [OF rep n new] obtain m where
    m: "L q = None" "kept L s s1" "unat n \<le> m" "rep s1 (L(q \<mapsto> m))" by blast
  have w: "rep s2 (L(q \<mapsto> m))" "kept L s1 s2" using wr [OF m(4)] by blast+
  have pq: "p \<noteq> q" using p m(1) by auto
  then have lp: "(L(q \<mapsto> m)) p = Some k" using p by simp
  have upd: "(L(q \<mapsto> m))(p := None) = (L(p := None))(q \<mapsto> m)" using pq by auto
  note R = release_takes [OF w(1) lp]
  from R m(3) show "\<exists>m\<ge>unat n. rep (release p s2) ((L(p := None))(q \<mapsto> m))"
    unfolding upd by blast
  have "kept ((L(p := None))(q \<mapsto> m)) s2 (release p s2)" using R unfolding upd by blast
  then have b: "kept (L(p := None)) s2 (release p s2)" by (rule kept_below) (use m(1) pq in simp)
  have a: "kept (L(p := None)) s s2"
    using kept_trans [OF m(2) w(2)] by (rule kept_without)
  show "kept (L(p := None)) s (release p s2)" by (rule kept_trans [OF a b])
qed

end

text \<open>
  A client that holds a list of pointers: it asks for memory, and gives back only
  pointers it holds.
\<close>

datatype request = Get u64 | Give_back nat

fun run_client ::
    "(u64 \<Rightarrow> 's \<Rightarrow> (addr result \<times> 's) option) \<Rightarrow> (addr \<Rightarrow> 's \<Rightarrow> 's) \<Rightarrow>
     request list \<Rightarrow> 's \<Rightarrow> addr list \<Rightarrow> ('s \<times> addr list) option" where
  "run_client alloc release [] s held = Some (s, held)"
| "run_client alloc release (Get n # rs) s held =
     (case alloc n s of
        None \<Rightarrow> None
      | Some (Inl e, s') \<Rightarrow> run_client alloc release rs s' held
      | Some (Inr p, s') \<Rightarrow> run_client alloc release rs s' (p # held))"
| "run_client alloc release (Give_back i # rs) s held =
     (if i < length held
      then run_client alloc release rs (release (held ! i) s) (take i held @ drop (Suc i) held)
      else run_client alloc release rs s held)"

text \<open>Taking one of the pointers held out of the list.\<close>

lemma without_nth:
  assumes "i < length xs" and "distinct xs"
  shows "distinct (take i xs @ drop (Suc i) xs)" and "set (take i xs @ drop (Suc i) xs) = set xs - {xs ! i}"
proof -
  have split: "xs = take i xs @ xs ! i # drop (Suc i) xs" using assms(1) by (rule id_take_nth_drop)
  have d: "distinct (take i xs @ drop (Suc i) xs)" "xs ! i \<notin> set (take i xs @ drop (Suc i) xs)"
    using assms(2) by (subst (asm) split, simp)+
  then show "distinct (take i xs @ drop (Suc i) xs)" by blast
  have "set xs = insert (xs ! i) (set (take i xs @ drop (Suc i) xs))" by (subst split) simp
  with d(2) show "set (take i xs @ drop (Suc i) xs) = set xs - {xs ! i}" by auto
qed

context allocator
begin

text \<open>Every run of such a client returns, and the live pointers are those it holds.\<close>

text \<open>The two requests of a client: a block it gets is new, one it gives back is gone.\<close>

lemma get_block:
  assumes "rep s L" and "dom L = set held" and "distinct held" and "fits n" and "alloc n s = Some (res, s')"
  shows "case res of Inl e \<Rightarrow> s' = s
    | Inr p \<Rightarrow> (\<exists>L'. rep s' L' \<and> dom L' = set (p # held)) \<and> distinct (p # held)"
proof (cases res)
  case (Inl e)
  then show ?thesis using alloc_fails [OF assms(1,4)] assms(5) by simp
next
  case (Inr p)
  with alloc_gives [OF assms(1,4)] assms(5) obtain k where k: "L p = None" "rep s' (L(p \<mapsto> k))" by blast
  then have d: "dom (L(p \<mapsto> k)) = set (p # held)" "distinct (p # held)" using assms(2,3) by auto
  show ?thesis unfolding Inr sum.case by (intro conjI exI [of _ "L(p \<mapsto> k)"] k(2) d)
qed

lemma give_back_block:
  assumes "rep s L" and "dom L = set held" and "distinct held" and "i < length held"
  defines "h \<equiv> take i held @ drop (Suc i) held"
  shows "\<exists>L'. rep (release (held ! i) s) L' \<and> dom L' = set h" and "distinct h"
proof -
  note w = without_nth [OF assms(4,3), folded h_def]
  have "held ! i \<in> dom L" using assms(2,4) by simp
  then obtain k where p: "L (held ! i) = Some k" by blast
  have "dom (L(held ! i := None)) = set h" unfolding w(2) using assms(2) by simp
  then show "\<exists>L'. rep (release (held ! i) s) L' \<and> dom L' = set h" using release_takes [OF assms(1) p] by blast
  show "distinct h" by (rule w(1))
qed

lemma run_client_rep:
  assumes "rep s L" and "dom L = set held" and "distinct held"
    and "\<And>n. Get n \<in> set rs \<Longrightarrow> fits n"
  shows "\<exists>s' held' L'. run_client alloc release rs s held = Some (s', held') \<and>
    rep s' L' \<and> dom L' = set held' \<and> distinct held'"
  using assms
proof (induction rs arbitrary: s L held)
  case Nil
  then show ?case by auto
next
  case (Cons r rs)
  have fr: "\<And>n. Get n \<in> set rs \<Longrightarrow> fits n" using Cons.prems(4) by simp
  show ?case
  proof (cases r)
    case (Get n)
    then have n: "fits n" using Cons.prems(4) by simp
    obtain res s' where a: "alloc n s = Some (res, s')"
      using alloc_returns [OF Cons.prems(1) n] by blast
    note G = get_block [OF Cons.prems(1-3) n a]
    show ?thesis
    proof (cases res)
      case (Inl e)
      with G a Get Cons.IH [OF Cons.prems(1-3) fr] show ?thesis by simp
    next
      case (Inr p)
      with G obtain L' where "rep s' L'" "dom L' = set (p # held)" "distinct (p # held)" by auto
      from Cons.IH [OF this fr] Inr a Get show ?thesis by simp
    qed
  next
    case (Give_back i)
    show ?thesis
    proof (cases "i < length held")
      case True
      note B = give_back_block [OF Cons.prems(1-3) True]
      then obtain L' where L': "rep (release (held ! i) s) L'"
        "dom L' = set (take i held @ drop (Suc i) held)" by blast
      from Cons.IH [OF L' B(2) fr] show ?thesis using True Give_back by simp
    next
      case False
      with Give_back Cons.IH [OF Cons.prems(1-3) fr] show ?thesis by simp
    qed
  qed
qed

end

section \<open>malloc and free provide it\<close>

definition measurable :: "u64 \<Rightarrow> bool" where
  "measurable n \<longleftrightarrow> unat n + 32 < 2 ^ 64"

lemma keeps_trans: "keeps A L s s' \<Longrightarrow> keeps A L s' s'' \<Longrightarrow> keeps A L s s''"
  by (simp add: keeps_def)

lemma keeps_mono: "keeps A L s s' \<Longrightarrow> L' \<subseteq>\<^sub>m L \<Longrightarrow> keeps A L' s s'"
  unfolding keeps_def map_le_def by (metis domI)

lemma upd_undo: "L p = None \<Longrightarrow> (L(p \<mapsto> k))(p := None) = L"
  by auto

lemma fit_size_le: "unat n \<le> unat (fit_size n)"
  by (simp add: unat_fit_size)

lemma malloc_rep:
  assumes "heap_rep A s L" and "measurable sz"
  shows "\<exists>r s'. malloc A sz s = Some (r, s') \<and>
    (case r of Inl e \<Rightarrow> e = ENOMEM \<and> s' = s | Inr p \<Rightarrow> alloc_post A L (fit_size sz) 16 s p s')"
proof -
  have "is_power_of_two 16" and fa: "fit_align 16 = 16"
    by (simp_all add: is_power_of_two_def fit_align_def)
  with arena_alloc_rep [OF assms(1), of 16 sz, unfolded fa] assms(2) show ?thesis
    unfolding malloc_def measurable_def by (simp add: DEFAULT_ALIGNMENT_def)
qed

text \<open>
  \<open>malloc\<close> succeeds while the unused end of the arena has room for the request, its header
  and the alignment, and takes no more than that from it.
\<close>

lemma malloc_room:
  assumes rep: "heap_rep A s L" and room: "unat (ruby_alloc_offset s) + unat n + 64 \<le> 67108864"
  shows "\<exists>p s'. malloc A n s = Some (Inr p, s') \<and>
    unat (ruby_alloc_offset s') \<le> unat (ruby_alloc_offset s) + unat n + 64"
proof -
  obtain B fl where inv: "heap_inv A s B fl" using rep by (rule heap_repE)
  have al: "(16 :: u64) < 16 \<or> is_power_of_two 16" and fa: "fit_align 16 = 16" and sz: "unat n + 32 < 2 ^ 64"
    using room by (simp_all add: is_power_of_two_def fit_align_def)
  note eq = arena_alloc_eq [OF inv al sz, unfolded fa]
  show ?thesis
  proof (cases "find_match s (fit_size n) 16 0 fl")
    case (Some pc)
    then show ?thesis by (cases pc) (simp add: malloc_def DEFAULT_ALIGNMENT_def eq take_block_frame)
  next
    case None
    let ?h = "align_up (A + ruby_alloc_offset s + HEADER_SIZE) 16 - HEADER_SIZE"
    note pb = place_bounds [of 16 A s]
    have fits: "place A s 16 + unat (fit_size n) \<le> unat A + 67108864"
      using pb(2) room by (simp add: unat_fit_size)
    have h: "unat ?h + 32 = place A s 16"
      by (rule placement(2) [OF inv _ _ fits]) (use sz in \<open>simp_all add: unat_fit_size is_power_of_two_def\<close>)
    have "16 dvd place A s 16" using pb(3) by simp
    then have h16: "16 dvd unat ?h" unfolding h [symmetric] by presburger
    have lo: "unat A + unat (ruby_alloc_offset s) \<le> unat ?h" using h pb(1) by simp
    have hi: "unat ?h + 32 + unat (fit_size n) \<le> unat A + 67108864" using h fits by simp
    note b = bump_inv(3) [OF inv h16 lo hi]
    have "malloc A n s = Some (Inr (header_payload ?h),
        (new_header ?h (fit_size n) s)\<lparr>ruby_alloc_offset := ?h + 32 + fit_size n - A\<rparr>)"
      using None fits by (simp add: malloc_def DEFAULT_ALIGNMENT_def eq Let_def unat_fit_size)
    then show ?thesis using b h pb(2) by (auto simp: unat_fit_size)
  qed
qed

interpretation mf: allocator "heap_rep A" "keeps A" measurable "malloc A" free for A
proof unfold_locales
  fix s L n e p s' k
  assume rep: "heap_rep A s L"
  show "\<exists>r s'. malloc A n s = Some (r, s')" if "measurable n"
    using malloc_rep [OF rep that] by blast
  show "e = ENOMEM \<and> s' = s" if "measurable n" "malloc A n s = Some (Inl e, s')"
    using malloc_rep [OF rep that(1)] that(2) by simp
  show "L p = None \<and> keeps A L s s' \<and> (\<exists>k\<ge>unat n. heap_rep A s' (L(p \<mapsto> k)))"
    if "measurable n" "malloc A n s = Some (Inr p, s')"
  proof -
    have "alloc_post A L (fit_size n) 16 s p s'" using malloc_rep [OF rep that(1)] that(2) by simp
    then show ?thesis using fit_size_le [of n] by (elim alloc_postD) (meson le_trans)
  qed
  show "heap_rep A (free p s) (L(p := None)) \<and> keeps A (L(p := None)) s (free p s)" if "L p = Some k"
    using free_rep [OF rep that] by blast
qed (auto intro: keeps_trans keeps_mono)

section \<open>Filling a new block\<close>

lemma fill_new:
  assumes rep: "heap_rep A s1 (L(p \<mapsto> n))" and new: "L p = None" and k: "keeps A L s s1"
    and out: "\<And>x. \<not> (unat p \<le> unat x \<and> unat x < unat p + n) \<Longrightarrow> m x = hmem s1 x"
  shows "heap_rep A (s1\<lparr>hmem := m\<rparr>) (L(p \<mapsto> n))" and "keeps A L s (s1\<lparr>hmem := m\<rparr>)"
proof -
  have lp: "(L(p \<mapsto> n)) p = Some n" by simp
  note W = write_rep [where L = "L(p \<mapsto> n)", OF rep lp out]
  show "heap_rep A (s1\<lparr>hmem := m\<rparr>) (L(p \<mapsto> n))" by (rule W(1))
  show "keeps A L s (s1\<lparr>hmem := m\<rparr>)"
    by (rule keeps_trans [OF k W(2) [unfolded upd_undo [where L = L and p = p, OF new]]])
qed

text \<open>\<open>memset\<close> to zero of the first \<open>k\<close> bytes of a new block.\<close>

lemma zero_new:
  assumes rep: "heap_rep A s1 (L(p \<mapsto> n))" and new: "L p = None" and k: "keeps A L s s1"
    and le: "unat t \<le> n"
  defines "s2 \<equiv> s1\<lparr>hmem := memset (hmem s1) p 0 t\<rparr>"
  shows "heap_rep A s2 (L(p \<mapsto> n))" and "keeps A L s s2"
    and "unat p \<le> unat x \<Longrightarrow> unat x < unat p + unat t \<Longrightarrow> hmem s2 x = 0"
    and "\<not> (unat p \<le> unat x \<and> unat x < unat p + n) \<Longrightarrow> hmem s2 x = hmem s1 x"
proof -
  have "(L(p \<mapsto> n)) p = Some n" by simp
  from live_bounds(4) [where L = "L(p \<mapsto> n)", OF rep this] le
  have lim: "unat p + unat t \<le> 2 ^ 64" by linarith
  note ap = memset_apply [OF lim]
  have out: "memset (hmem s1) p 0 t x = hmem s1 x" if "\<not> (unat p \<le> unat x \<and> unat x < unat p + n)" for x
    using that le by (auto simp: ap)
  show "heap_rep A s2 (L(p \<mapsto> n))" "keeps A L s s2"
    unfolding s2_def by (rule fill_new [OF rep new k out]; simp)+
  show "unat p \<le> unat x \<Longrightarrow> unat x < unat p + unat t \<Longrightarrow> hmem s2 x = 0"
    by (simp add: s2_def ap)
  show "\<not> (unat p \<le> unat x \<and> unat x < unat p + n) \<Longrightarrow> hmem s2 x = hmem s1 x"
    by (simp add: s2_def out)
qed

section \<open>Allocating after a release\<close>

text \<open>The block released last is the first one considered.\<close>

lemma free_then_alloc:
  assumes "heap_rep A s L" and "L p = Some n" and "max 1 (unat sz) \<le> n"
    and al: "is_power_of_two al" "unat (fit_align al) dvd unat p"
  shows "\<exists>s'. arena_alloc A sz al (free p s) = Some (Inr p, s') \<and> heap_rep A s' L \<and>
    keeps A (L(p := None)) s s'"
proof -
  obtain B fl where inv: "heap_inv A s B fl" and L: "L = live s B fl"
    using assms(1) by (rule heap_repE)
  let ?h = "payload_header p" and ?s1 = "free p s" and ?al = "fit_align al"
  have h: "?h \<in> B" "?h \<notin> set fl" and n: "n = unat (h_capacity (hdr s ?h))"
    using assms(2) by (simp_all add: L live_Some)
  note F = free_inv [OF inv h, simplified] and b = block_bounds [OF inv h(1)]
  have "unat (p mod ?al) = 0" using al(2) by (simp add: unat_mod)
  then have "p mod ?al = 0" by (simp add: unat_eq_zero)
  moreover have "fit_size sz \<le> h_capacity (hdr ?s1 ?h)"
    using assms(3) n F(2) [OF h(1)] by (simp add: word_le_nat_alt unat_fit_size)
  ultimately have fm: "find_match ?s1 (fit_size sz) ?al 0 (?h # fl) = Some (0, ?h)"
    by (simp add: block_matches_def)
  have m: "unat sz + 32 < 2 ^ 64" using assms(3) n b(5) by simp
  let ?s2 = "take_block (fit_size sz) 0 ?h ?s1"
  have run: "arena_alloc A sz al ?s1 = Some (Inr p, ?s2)"
    using arena_alloc_eq [OF F(1), of al sz] al m fm by simp
  have inv2: "heap_inv A ?s2 B fl" using reuse_block_inv [OF F(1) fm] by simp
  have cap: "h_capacity (hdr ?s2 g) = h_capacity (hdr s g)" if "g \<in> B" for g
    using reuse_block_hdr [OF F(1) fm that] F(2) [OF that] F(2) [OF h(1)] by auto
  have rep2: "heap_rep A ?s2 L" by (rule heap_repI [OF inv2]) (auto simp: L live_def cap fun_eq_iff)
  have k1: "keeps A (L(p := None)) s ?s1" by (rule free_rep(2) [OF assms(1,2)])
  have "L(p := None) = live ?s1 B (?h # fl)"
    using F(2) by (auto simp: L live_def fun_eq_iff payload_header_def)
  then have "keeps A (L(p := None)) ?s1 ?s2"
    using reuse_post [OF F(1) fm] by (auto elim: alloc_postD)
  with run rep2 keeps_trans [OF k1] show ?thesis by blast
qed

section \<open>calloc\<close>

text \<open>The division in \<open>calloc\<close> detects exactly the products that do not fit in \<open>size_t\<close>.\<close>

lemma calloc_guard:
  "(count \<noteq> 0 \<and> sz > (- 1) div count) \<longleftrightarrow> 2 ^ 64 \<le> unat count * unat (sz :: u64)"
proof (cases "count = 0")
  case False
  then have pos: "0 < unat count" by (simp add: unat_gt_0)
  have "unat ((- 1) div count :: u64) = (2 ^ 64 - 1) div unat count"
    by (simp add: unat_div unsigned_minus_1_eq_mask mask_eq_exp_minus_1)
  then have "sz > (- 1) div count \<longleftrightarrow> (2 ^ 64 - 1) div unat count < unat sz"
    by (simp add: word_less_nat_alt)
  also have "\<dots> \<longleftrightarrow> (2 ^ 64 - 1) < unat sz * unat count"
    using div_less_iff_less_mult [OF pos] by blast
  also have "\<dots> \<longleftrightarrow> 2 ^ 64 \<le> unat count * unat sz" by (auto simp: mult.commute)
  finally show ?thesis using False by blast
qed simp

lemma unat_mult_no_wrap: "unat a * unat b < 2 ^ 64 \<Longrightarrow> unat (a * b :: u64) = unat a * unat b"
  by (simp add: unat_mult_lem [THEN iffD1])

lemma calloc_rep:
  assumes rep: "heap_rep A s L" and sz: "unat count * unat sz + 32 < 2 ^ 64"
  shows "\<exists>r s'. calloc A count sz s = Some (r, s') \<and>
    (case r of Inl e \<Rightarrow> e = ENOMEM \<and> s' = s
     | Inr p \<Rightarrow> L p = None \<and> keeps A L s s' \<and>
         (\<exists>n\<ge>unat count * unat sz. heap_rep A s' (L(p \<mapsto> n))) \<and>
         (\<forall>x. unat p \<le> unat x \<and> unat x < unat p + unat count * unat sz \<longrightarrow> hmem s' x = 0))"
proof -
  let ?t = "count * sz"
  have t: "unat ?t = unat count * unat sz" using sz by (intro unat_mult_no_wrap) simp
  then have m: "measurable ?t" using sz by (simp add: measurable_def)
  have ng: "\<not> (count \<noteq> 0 \<and> sz > (- 1) div count)" unfolding calloc_guard using sz by simp
  obtain r s1 where a: "malloc A ?t s = Some (r, s1)"
    and post: "case r of Inl e \<Rightarrow> e = ENOMEM \<and> s1 = s | Inr p \<Rightarrow> alloc_post A L (fit_size ?t) 16 s p s1"
    using malloc_rep [OF rep m] by blast
  show ?thesis
  proof (cases r)
    case (Inl e)
    with a post ng show ?thesis by (simp add: calloc_def Let_def)
  next
    case (Inr p)
    with post obtain n where n: "L p = None" "heap_rep A s1 (L(p \<mapsto> n))" "unat (fit_size ?t) \<le> n" "keeps A L s s1"
      by (auto elim: alloc_postD)
    have le: "unat ?t \<le> n" using n(3) fit_size_le [of ?t] by linarith
    note Z = zero_new [OF n(2,1,4) le]
    show ?thesis
      using a ng Inr Z(1,2,3) n(1) le by (auto simp: calloc_def Let_def t)
  qed
qed

text \<open>It is refused by the test for overflow, or exactly as \<open>malloc\<close> of the product is.\<close>

lemma calloc_result:
  assumes "unat count * unat sz + 32 < 2 ^ 64" and "calloc A count sz s = Some (r, s')"
  shows "\<exists>s1. malloc A (of_nat (unat count * unat sz)) s = Some (r, s1)"
proof -
  have "of_nat (unat count * unat sz) = count * sz" by simp
  moreover have "\<not> (count \<noteq> 0 \<and> sz > (- 1) div count)" unfolding calloc_guard using assms(1) by simp
  ultimately show ?thesis
    using assms(2) by (auto simp: calloc_def Let_def split: option.splits sum.splits)
qed

lemma calloc_ENOMEM:
  "calloc A count sz s = Some (Inl ENOMEM, s) \<longleftrightarrow>
     2 ^ 64 \<le> unat count * unat sz \<or> malloc A (of_nat (unat count * unat sz)) s = Some (Inl ENOMEM, s)"
proof -
  have "of_nat (unat count * unat sz) = count * sz" by simp
  then show ?thesis unfolding calloc_guard [symmetric]
    by (auto simp: calloc_def Let_def split: option.splits sum.splits)
qed

section \<open>realloc\<close>

text \<open>Changing the recorded size of a live block, within its capacity.\<close>

lemma resize_rep:
  assumes rep: "heap_rep A s L" and p: "L p = Some n" and sz: "unat sz \<le> n"
  shows "heap_rep A (set_size (payload_header p) sz s) L"
    and "keeps A (L(p := None)) s (set_size (payload_header p) sz s)"
    and "unat p \<le> unat x \<Longrightarrow> hmem (set_size (payload_header p) sz s) x = hmem s x"
proof -
  obtain B fl where inv: "heap_inv A s B fl" and L: "L = live s B fl"
    using rep by (rule heap_repE)
  let ?h = "payload_header p" and ?s = "set_size (payload_header p) sz s"
  have h: "?h \<in> B" "?h \<notin> set fl" "n = unat (h_capacity (hdr s ?h))"
    using p by (simp_all add: L live_Some)
  note b = block_bounds [OF inv h(1)] and D = heap_invD [OF inv]
  have H: "hdr ?s g = (if g = ?h then (hdr s ?h)\<lparr>h_size := sz\<rparr> else hdr s g)" if "g \<in> B" for g
    using blocks_apart [OF inv that h(1)] by (auto simp: mem_simps)
  have lim: "unat ?h + 32 \<le> 2 ^ 64" using b(5) by simp
  have ok: "block_ok A ?s g" if "g \<in> B" for g
    using D(3) [OF that] H [OF that] sz h(3) by (auto simp: block_ok_def word_le_nat_alt mem_simps)
  have seg: "lseg ?s (free_list ?s) fl 0"
    unfolding set_frame using H D(7) by (intro lseg_congI [OF D(5)]) (auto simp: subset_iff)
  have "heap_inv A ?s B fl"
    using D ok seg H by (auto simp: heap_inv_def below_def mem_simps)
  moreover have "L = live ?s B fl" using H by (auto simp: L live_def fun_eq_iff)
  ultimately show "heap_rep A ?s L" by (rule heap_repI)
  show out: "unat p \<le> unat x \<Longrightarrow> hmem ?s x = hmem s x" for x
    using b(8) by (intro set_outside(1) [OF lim]) (simp add: hdr_range_def)
  show "keeps A (L(p := None)) s ?s"
  proof (rule keepsI)
    fix q k
    assume "(L(p := None)) q = Some k"
    then have q: "live s B fl q = Some k" "q \<noteq> p" by (auto simp: L split: if_splits)
    then show "hdr ?s (payload_header q) = hdr s (payload_header q)"
      using H [of "payload_header q"] by (auto simp: live_Some payload_header_def)
    show "hmem ?s y = hmem s y" if "unat q \<le> unat y" "unat y < unat q + k" for y
      using live_outside_headers [OF inv q(1) h(1) that] by (rule set_outside(1) [OF lim])
  next
    show "hmem ?s y = hmem s y" if "unat y < unat A \<or> unat A + 67108864 \<le> unat y" for y
      using header_in_arena [OF inv h(1), of y] that by (intro set_outside(1) [OF lim]) linarith
  qed
qed

definition realloc_post ::
    "addr \<Rightarrow> (addr \<Rightarrow> nat option) \<Rightarrow> addr \<Rightarrow> u64 \<Rightarrow> heap \<Rightarrow> addr \<Rightarrow> heap \<Rightarrow> bool" where
  "realloc_post A L ptr sz s q s' \<longleftrightarrow>
     (L(ptr := None)) q = None \<and> (\<exists>k\<ge>unat sz. heap_rep A s' ((L(ptr := None))(q \<mapsto> k))) \<and>
     keeps A (L(ptr := None)) s s' \<and>
     (\<forall>i < min (unat (h_size (hdr s (payload_header ptr)))) (unat sz).
        hmem s' (q + of_nat i) = hmem s (ptr + of_nat i))"

text \<open>Offsets inside a live block, and the part of it that a move copies.\<close>

lemma live_offset:
  assumes "heap_rep A s L" and "L p = Some n" and "i \<le> n"
  shows "unat (p + of_nat i) = unat p + i"
  by (rule unat_offset [of _ n]) (use assms(3) live_bounds(4) [OF assms(1,2)] in simp_all)

lemma realloc_in_place:
  assumes rep: "heap_rep A s L" and p: "L ptr = Some n"
    and fits: "sz \<le> h_capacity (hdr s (payload_header ptr))"
  shows "realloc_post A L ptr sz s ptr (set_size (payload_header ptr) sz s)"
proof -
  have sn: "unat sz \<le> n" using fits live_header(1) [OF rep p] by (simp add: word_le_nat_alt)
  note R = resize_rep [OF rep p sn]
  have "hmem (set_size (payload_header ptr) sz s) (ptr + of_nat i) = hmem s (ptr + of_nat i)"
    if "i < unat sz" for i
    using that sn live_offset [OF rep p, of i] by (intro R(3)) simp
  moreover have "(L(ptr := None))(ptr \<mapsto> n) = L" using p by auto
  ultimately show ?thesis using R sn unfolding realloc_post_def by auto
qed

lemma realloc_moves:
  assumes rep: "heap_rep A s L" and p: "L ptr = Some n" and m: "measurable sz"
    and big: "h_capacity (hdr s (payload_header ptr)) < sz" and a: "malloc A sz s = Some (Inr q, s1)"
  defines "cn \<equiv> if h_size (hdr s (payload_header ptr)) < sz then h_size (hdr s (payload_header ptr)) else sz"
  shows "realloc_post A L ptr sz s q (free ptr (s1\<lparr>hmem := memcpy (hmem s1) q ptr cn\<rparr>))"
proof -
  let ?old = "unat (h_size (hdr s (payload_header ptr)))"
  let ?s2 = "s1\<lparr>hmem := memcpy (hmem s1) q ptr cn\<rparr>"
  note lh = live_header [OF rep p]
  obtain k where k: "L q = None" "heap_rep A s1 (L(q \<mapsto> k))" "keeps A L s s1" "unat sz \<le> k"
    using mf.alloc_gives [OF rep m a] by blast
  have c: "unat cn = min ?old (unat sz)" by (simp add: cn_def word_less_nat_alt)
  have qp: "q \<noteq> ptr" using k(1) p by auto
  have Lq: "(L(q \<mapsto> k)) q = Some k" and Lp: "(L(q \<mapsto> k)) ptr = Some n" using qp p by simp_all
  have ck: "unat cn \<le> k" using c k(4) by linarith
  have lim: "unat q + unat cn \<le> 2 ^ 64" using live_bounds(4) [OF k(2) Lq] ck by linarith
  have out: "memcpy (hmem s1) q ptr cn x = hmem s1 x" if "\<not> (unat q \<le> unat x \<and> unat x < unat q + k)" for x
    using that ck by (auto simp: memcpy_apply [OF lim])
  note W = write_rep [where L = "L(q \<mapsto> k)", OF k(2) Lq out]
  have kw: "keeps A L s1 ?s2" by (rule W(2) [unfolded upd_undo [where L = L and p = q, OF k(1)]])
  have mv: "heap_rep A ?s2 (L(q \<mapsto> m')) \<and> keeps A L s1 ?s2" if "heap_rep A s1 (L(q \<mapsto> m'))" for m'
  proof -
    have "(L(q \<mapsto> m')) q = Some m'" by simp
    then have "m' = k" using live_header(1) [OF that] live_header(1) [OF k(2) Lq] by metis
    then show ?thesis using W(1) kw by simp
  qed
  have "hmem (free ptr ?s2) (q + of_nat i) = hmem s (ptr + of_nat i)" if i: "i < min ?old (unat sz)" for i
  proof -
    have ic: "i < unat cn" using i by (simp only: c)
    have qi: "unat (q + of_nat i) = unat q + i" by (rule live_offset [OF k(2) Lq]) (use ic ck in simp)
    have kk: "((L(q \<mapsto> k))(ptr := None)) q = Some k" using qp by simp
    have "hmem (free ptr ?s2) (q + of_nat i) = hmem ?s2 (q + of_nat i)"
      by (rule keepsD(2) [OF free_rep(2) [OF W(1) Lp] kk]) (use qi ic ck in linarith)+
    also have "\<dots> = hmem s1 (ptr + of_nat i)"
      using qi ic by (simp add: memcpy_apply [OF lim])
    also have "\<dots> = hmem s (ptr + of_nat i)"
      using live_offset [OF rep p, of i] i lh(2) by (intro keepsD(2) [OF k(3) p]) simp_all
    finally show ?thesis .
  qed
  with mf.move_block [OF rep p m a mv] k(1) show ?thesis unfolding realloc_post_def by simp
qed

lemma realloc_rep:
  assumes rep: "heap_rep A s L" and p: "L ptr = Some n" and nz: "sz \<noteq> 0" and m: "measurable sz"
  shows "\<exists>r s'. realloc A ptr sz s = Some (r, s') \<and>
    (case r of Inl e \<Rightarrow> e = ENOMEM \<and> s' = s | Inr q \<Rightarrow> realloc_post A L ptr sz s q s')"
proof (cases "sz \<le> h_capacity (hdr s (payload_header ptr))")
  case True
  then show ?thesis using realloc_in_place [OF rep p True] live_bounds(6) [OF rep p] nz
    by (simp add: realloc_def Let_def)
next
  case False
  then have big: "h_capacity (hdr s (payload_header ptr)) < sz" by simp
  obtain r s1 where a: "malloc A sz s = Some (r, s1)" using mf.alloc_returns [OF rep m] by blast
  show ?thesis
  proof (cases r)
    case (Inl e)
    with a mf.alloc_fails [OF rep m] False live_bounds(6) [OF rep p] nz show ?thesis
      by (auto simp: realloc_def Let_def)
  next
    case (Inr q)
    from realloc_moves [OF rep p m big a [unfolded Inr]] Inr a False live_bounds(6) [OF rep p] nz
    show ?thesis by (simp add: realloc_def Let_def)
  qed
qed

end
