(* ===== verification/Alloc_Props.thy ===== *)
theory Alloc_Props
  imports Alloc_Clients
begin

text \<open>
  What a caller of the allocator of \<^verbatim>\<open>ruby_alloc.c\<close> may rely on, stated over the code's
  functions. \<open>demo_heap\<close> is the heap after one \<open>malloc(100)\<close>; the witnesses run there.
\<close>

definition demo_arena :: addr where "demo_arena = 0x10000000"

definition demo_heap_on :: "mem \<Rightarrow> heap" where
  "demo_heap_on m = (new_header demo_arena 100 (initial_heap m))\<lparr>ruby_alloc_offset := 132\<rparr>"

definition demo_heap :: heap where "demo_heap = demo_heap_on (\<lambda>_. 0)"

lemma demo_arena_at: "arena_at demo_arena"
  by (simp add: arena_at_def demo_arena_def)

lemma initial_rep: "arena_at A \<Longrightarrow> heap_rep A (initial_heap m) Map.empty"
  by (rule heap_repI [OF initial_heap_inv]) (auto simp: live_def)

lemma demo_rep_on: "heap_rep demo_arena (demo_heap_on m) [demo_arena + 32 \<mapsto> 100]"
proof -
  note inv = initial_heap_inv [OF demo_arena_at, of m]
  have h: "16 dvd unat demo_arena"
    "unat demo_arena + unat (ruby_alloc_offset (initial_heap m)) \<le> unat demo_arena"
    "unat demo_arena + 32 + unat (100 :: u64) \<le> unat demo_arena + 67108864"
    by (simp_all add: demo_arena_def initial_heap_def)
  have eq: "demo_heap_on m = (new_header demo_arena 100 (initial_heap m))
      \<lparr>ruby_alloc_offset := demo_arena + 32 + 100 - demo_arena\<rparr>"
    by (simp add: demo_heap_on_def)
  have "heap_inv demo_arena (demo_heap_on m) {demo_arena} []"
    using bump_inv(1) [OF inv h] by (simp add: eq)
  moreover have "[demo_arena + 32 \<mapsto> 100] = live (demo_heap_on m) {demo_arena} []"
    by (auto simp: live_def fun_eq_iff demo_heap_on_def mem_simps payload_header_def HEADER_SIZE_def
        diff_eq_eq)
  ultimately show ?thesis by (rule heap_repI)
qed

lemma demo_rep: "heap_rep demo_arena demo_heap [demo_arena + 32 \<mapsto> 100]"
  unfolding demo_heap_def by (rule demo_rep_on)

lemma demo_live: "[demo_arena + 32 \<mapsto> (100::nat)] (demo_arena + 32) = Some 100" by simp

text \<open>
  C1: \<open>arena_alloc\<close> serves every request for an alignment that is a power of two and a
  size up to the header size below \<open>SIZE_MAX\<close>. It returns; when it fails it reports
  \<open>ENOMEM\<close> and changes nothing; otherwise the pointer is new and aligned, at least
  the requested bytes lie inside the arena and overlap no live allocation, and no byte
  of a live allocation has changed.
\<close>

theorem arena_alloc_serves:
  assumes "heap_rep A s L" and "al < 16 \<or> is_power_of_two al" and "unat sz + 32 < 2 ^ 64"
  shows "\<exists>r s'. arena_alloc A sz al s = Some (r, s') \<and>
    (case r of Inl e \<Rightarrow> e = ENOMEM \<and> s' = s
     | Inr p \<Rightarrow> L p = None \<and> unat (fit_align al) dvd unat p \<and>
         (\<exists>n\<ge>max 1 (unat sz). heap_rep A s' (L(p \<mapsto> n)) \<and>
            unat A \<le> unat p \<and> unat p + n \<le> unat A + 67108864 \<and>
            (\<forall>q k. L q = Some k \<longrightarrow> (unat p + n \<le> unat q \<or> unat q + k \<le> unat p) \<and>
               (\<forall>x. unat q \<le> unat x \<and> unat x < unat q + k \<longrightarrow> hmem s' x = hmem s x))))"
proof -
  obtain r s' where a: "arena_alloc A sz al s = Some (r, s')"
    and post: "case r of Inl e \<Rightarrow> e = ENOMEM \<and> s' = s
               | Inr p \<Rightarrow> alloc_post A L (fit_size sz) (fit_align al) s p s'"
    using arena_alloc_rep [OF assms] by blast
  show ?thesis
  proof (cases r)
    case (Inl e)
    with a post show ?thesis by simp
  next
    case (Inr p)
    with post obtain n where n: "L p = None" "heap_rep A s' (L(p \<mapsto> n))" "unat (fit_size sz) \<le> n"
      "keeps A L s s'" "unat (fit_align al) dvd unat p"
      by (auto elim: alloc_postD)
    have lp: "(L(p \<mapsto> n)) p = Some n" by simp
    note lb = live_bounds [where L = "L(p \<mapsto> n)", OF n(2) lp]
    have "unat p + n \<le> unat q \<or> unat q + k \<le> unat p" if "L q = Some k" for q k
    proof -
      have "q \<noteq> p" "(L(p \<mapsto> n)) q = Some k" using that n(1) by auto
      with live_disjoint [where L = "L(p \<mapsto> n)", OF n(2) lp] show ?thesis by fastforce
    qed
    then show ?thesis
      using a Inr n lb(1,3) keepsD(2) [OF n(4)] by (auto simp: unat_fit_size)
  qed
qed

theorem arena_alloc_serves_witness:
  "\<exists>r s'. arena_alloc demo_arena 4096 4096 demo_heap = Some (r, s')"
proof -
  have "is_power_of_two 4096" by (simp add: is_power_of_two_def)
  then show ?thesis
    using arena_alloc_serves [OF demo_rep, of 4096 4096] by auto
qed

text \<open>
  C25: \<open>arena_alloc\<close> fails with \<open>ENOMEM\<close> exactly when no free block is large enough
  and suitably aligned and the next aligned payload does not fit before the end of the
  64 MiB arena, both computed without wrapping.
\<close>

theorem arena_alloc_ENOMEM_iff:
  assumes "heap_inv A s B fl" and "al < 16 \<or> is_power_of_two al" and "unat sz + 32 < 2 ^ 64"
  shows "arena_alloc A sz al s = Some (Inl ENOMEM, s) \<longleftrightarrow>
    (\<forall>c\<in>set fl. \<not> (fit_size sz \<le> h_capacity (hdr s c) \<and> (c + 32) mod fit_align al = 0)) \<and>
    unat A + 67108864 <
      (unat A + unat (ruby_alloc_offset s) + 32 + unat (fit_align al) - 1)
        div unat (fit_align al) * unat (fit_align al) + max 1 (unat sz)"
proof (cases "find_match s (fit_size sz) (fit_align al) 0 fl")
  case None
  then have "\<forall>c\<in>set fl. \<not> (fit_size sz \<le> h_capacity (hdr s c) \<and> (c + 32) mod fit_align al = 0)"
    by (simp add: find_match_None block_matches_def header_payload_def HEADER_SIZE_def)
  with None show ?thesis
    unfolding arena_alloc_eq [OF assms] place_def [symmetric] by (auto simp: Let_def)
next
  case (Some pc)
  obtain p c where pc: "pc = (p, c)" by force
  with Some have cfl: "c \<in> set fl" and "block_matches s c (fit_size sz) (fit_align al)"
    using find_match_Some [of s "fit_size sz" "fit_align al" 0 fl p c] by auto
  then have "fit_size sz \<le> h_capacity (hdr s c) \<and> (c + 32) mod fit_align al = 0"
    unfolding block_matches_def header_payload_def HEADER_SIZE_def by simp
  then have "\<not> (\<forall>c\<in>set fl. \<not> (fit_size sz \<le> h_capacity (hdr s c) \<and> (c + 32) mod fit_align al = 0))"
    using cfl by (intro notI) (drule (1) bspec, simp)
  moreover have "arena_alloc A sz al s \<noteq> Some (Inl ENOMEM, s)"
    using Some pc by (simp add: arena_alloc_eq [OF assms])
  ultimately show ?thesis by blast
qed

theorem arena_alloc_ENOMEM_iff_witness:
  "arena_alloc demo_arena (64 * 1024 * 1024) 16 (initial_heap (\<lambda>_. 0)) =
     Some (Inl ENOMEM, initial_heap (\<lambda>_. 0))"
  by (subst arena_alloc_ENOMEM_iff [OF initial_heap_inv [OF demo_arena_at]])
    (simp_all add: demo_arena_def initial_heap_def fit_align_def is_power_of_two_def)

text \<open>
  C26: The walk of \<open>reuse_free_block\<close> along a null-terminated free list returns, and it
  is first fit: it takes the first block in list order that is large enough and
  aligned, and returns NULL with the heap untouched when there is none.
\<close>

theorem reuse_free_block_first_fit:
  assumes "lseg s (free_list s) fl 0"
  shows "(\<exists>xs c ys p. fl = xs @ c # ys \<and> (\<forall>x\<in>set xs. \<not> block_matches s x sz al) \<and>
      block_matches s c sz al \<and> p = last (0 # xs) \<and>
      reuse_free_block sz al s = Some (header_payload c, take_block sz p c s)) \<or>
    (\<forall>c\<in>set fl. \<not> block_matches s c sz al) \<and> reuse_free_block sz al s = Some (0, s)"
proof (cases "find_match s sz al 0 fl")
  case None
  then have "\<forall>c\<in>set fl. \<not> block_matches s c sz al" by (simp only: find_match_None)
  moreover have "reuse_free_block sz al s = Some (0, s)"
    using None by (simp add: reuse_free_block_def reuse_loop_find [OF assms])
  ultimately show ?thesis by blast
next
  case (Some pc)
  then obtain p c where pc: "find_match s sz al 0 fl = Some (p, c)" by (cases pc) simp
  with find_match_Some [OF pc] reuse_loop_find [OF assms, of sz al 0] show ?thesis
    by (auto simp: reuse_free_block_def)
qed

theorem reuse_free_block_first_fit_witness:
  "\<exists>s'. reuse_free_block 50 16 (free (demo_arena + 32) demo_heap) = Some (demo_arena + 32, s')"
proof -
  let ?s = "free (demo_arena + 32) demo_heap"
  have h: "hdr demo_heap demo_arena = \<lparr>h_size = 100, h_capacity = 100, h_next_free = 0, h_is_free = 0, h_magic = ALLOC_MAGIC\<rparr>"
    by (simp add: demo_heap_def demo_heap_on_def mem_simps)
  have ph: "payload_header (demo_arena + 32) = demo_arena" "demo_arena \<noteq> 0" "demo_arena + 32 \<noteq> 0"
    by (simp_all add: payload_header_def HEADER_SIZE_def demo_arena_def)
  have f: "free_list ?s = demo_arena" "h_next_free (hdr ?s demo_arena) = 0"
    "h_capacity (hdr ?s demo_arena) = 100"
    using ph h by (simp_all add: free_def Let_def mem_simps demo_heap_def demo_heap_on_def initial_heap_def)
  have "lseg ?s (free_list ?s) [demo_arena] 0" using f ph by simp
  from reuse_free_block_first_fit [OF this, of 50 16] f show ?thesis
    by (auto simp: block_matches_def header_payload_def HEADER_SIZE_def demo_arena_def Cons_eq_append_conv)
qed

text \<open>
  Releasing a live pointer makes its block the first the allocator considers: a
  \<open>malloc\<close> of any size up to the block's capacity returns the same pointer, the live
  allocations are those before, and the other ones are untouched.
\<close>

lemma free_then_malloc:
  assumes "heap_rep A s L" and "L p = Some n" and "max 1 (unat sz) \<le> n"
  shows "\<exists>s'. malloc A sz (free p s) = Some (Inr p, s') \<and> heap_rep A s' L \<and>
    keeps A (L(p := None)) s s'"
proof -
  have "is_power_of_two 16" "fit_align 16 = 16" by (simp_all add: is_power_of_two_def fit_align_def)
  with free_then_alloc [OF assms, of 16] live_bounds(5) [OF assms(1,2)] show ?thesis
    by (simp add: malloc_def DEFAULT_ALIGNMENT_def)
qed

text \<open>
  \<open>free\<close> acts at most once on a pointer: whatever the pointer and the state of the
  memory, freeing it a second time in a row changes nothing.
\<close>

lemma free_idempotent: "free p (free p s) = free p s"
proof (cases "p = 0 \<or> h_magic (hdr s (payload_header p)) \<noteq> ALLOC_MAGIC \<or> h_is_free (hdr s (payload_header p)) \<noteq> 0")
  case True
  then show ?thesis by (simp add: free_ignored)
next
  case False
  then have "h_is_free (hdr (free p s) (payload_header p)) \<noteq> 0"
    by (simp add: free_def Let_def mem_simps)
  then show ?thesis by (intro free_ignored) blast
qed

text \<open>
  C27: \<open>calloc\<close> fails with \<open>ENOMEM\<close>, without touching the heap, exactly when the product
  of its arguments exceeds \<open>SIZE_MAX\<close> or \<open>malloc\<close> of the product fails so; it never
  refuses anything else. For a product at least the header size below \<open>SIZE_MAX\<close> it
  returns: it fails in that way, or it gives the pointer that \<open>malloc\<close> of the product
  gives, a new block with room for it whose bytes are all zero, and leaves the live
  allocations alone.
\<close>

theorem calloc_overflow_and_zero:
  assumes "heap_rep A s L"
  shows "(calloc A count sz s = Some (Inl ENOMEM, s) \<longleftrightarrow>
      2 ^ 64 \<le> unat count * unat sz \<or> malloc A (of_nat (unat count * unat sz)) s = Some (Inl ENOMEM, s)) \<and>
    (unat count * unat sz + 32 < 2 ^ 64 \<longrightarrow>
      (\<exists>r s' s1. calloc A count sz s = Some (r, s') \<and>
        malloc A (of_nat (unat count * unat sz)) s = Some (r, s1) \<and>
        (case r of Inl e \<Rightarrow> e = ENOMEM \<and> s' = s
         | Inr p \<Rightarrow> L p = None \<and> keeps A L s s' \<and>
             (\<exists>n\<ge>unat count * unat sz. heap_rep A s' (L(p \<mapsto> n))) \<and>
             (\<forall>x. unat p \<le> unat x \<and> unat x < unat p + unat count * unat sz \<longrightarrow> hmem s' x = 0))))"
proof (intro conjI impI)
  show "calloc A count sz s = Some (Inl ENOMEM, s) \<longleftrightarrow>
      2 ^ 64 \<le> unat count * unat sz \<or> malloc A (of_nat (unat count * unat sz)) s = Some (Inl ENOMEM, s)"
    by (rule calloc_ENOMEM)
  assume "unat count * unat sz + 32 < 2 ^ 64"
  from calloc_rep [OF assms this] calloc_result show "\<exists>r s' s1. calloc A count sz s = Some (r, s') \<and>
        malloc A (of_nat (unat count * unat sz)) s = Some (r, s1) \<and>
        (case r of Inl e \<Rightarrow> e = ENOMEM \<and> s' = s
         | Inr p \<Rightarrow> L p = None \<and> keeps A L s s' \<and>
             (\<exists>n\<ge>unat count * unat sz. heap_rep A s' (L(p \<mapsto> n))) \<and>
             (\<forall>x. unat p \<le> unat x \<and> unat x < unat p + unat count * unat sz \<longrightarrow> hmem s' x = 0))"
    using \<open>unat count * unat sz + 32 < 2 ^ 64\<close> by fastforce
qed

theorem calloc_overflow_and_zero_witness:
  "calloc demo_arena (2 ^ 32) (2 ^ 32) demo_heap = Some (Inl ENOMEM, demo_heap) \<and>
   (\<exists>r s' s1. calloc demo_arena 3 7 demo_heap = Some (r, s') \<and> malloc demo_arena 21 demo_heap = Some (r, s1))"
  using calloc_overflow_and_zero [OF demo_rep, of "2 ^ 32" "2 ^ 32"]
    calloc_overflow_and_zero [OF demo_rep, of 3 7] by auto

text \<open>
  C13: \<open>realloc\<close> of a live block keeps its contents: it returns, fails only with
  \<open>ENOMEM\<close> and then changes nothing, and otherwise the old pointer is given up, the
  new one is none of the other live pointers, has at least the requested capacity and
  starts with the old bytes, up to the smaller of the two sizes, and no other allocation
  changes.
\<close>

theorem realloc_preserves_contents:
  assumes "heap_rep A s L" and "L ptr = Some n" and "sz \<noteq> 0" and "unat sz + 32 < 2 ^ 64"
  shows "\<exists>r s'. realloc A ptr sz s = Some (r, s') \<and>
    (case r of Inl e \<Rightarrow> e = ENOMEM \<and> s' = s
     | Inr q \<Rightarrow> (L(ptr := None)) q = None \<and> (\<exists>k\<ge>unat sz. heap_rep A s' ((L(ptr := None))(q \<mapsto> k))) \<and>
         keeps A (L(ptr := None)) s s' \<and>
         (\<forall>i < min (unat (h_size (hdr s (payload_header ptr)))) (unat sz).
            hmem s' (q + of_nat i) = hmem s (ptr + of_nat i)))"
  using realloc_rep [OF assms(1-3)] assms(4) unfolding realloc_post_def measurable_def by blast

theorem realloc_preserves_contents_witness:
  "\<exists>r s'. realloc demo_arena (demo_arena + 32) 5000 demo_heap = Some (r, s')"
  using realloc_preserves_contents [OF demo_rep demo_live, of 5000] by auto

text \<open>
  C34: \<open>posix_memalign\<close> returns \<open>EINVAL\<close> exactly for a null result pointer, an alignment
  below the size of a pointer or one that is not a power of two; otherwise it returns 0
  and stores a pointer with that alignment, or \<open>ENOMEM\<close> and stores nothing. The error
  number it reads back after the failed allocation is never mistaken.
\<close>

theorem posix_memalign_codes:
  assumes "heap_rep A s L" and "unat sz + 32 < 2 ^ 64"
  shows "\<exists>code out s'. posix_memalign A memptr_null al sz s = Some ((code, out), s') \<and>
    (code = Some EINVAL \<longleftrightarrow> memptr_null \<or> unat al < 8 \<or> (\<forall>k. unat al \<noteq> 2 ^ k)) \<and>
    (case code of
       None \<Rightarrow> \<exists>p n. out = Some p \<and> L p = None \<and> unat al dvd unat p \<and> unat sz \<le> n \<and>
                heap_rep A s' (L(p \<mapsto> n)) \<and> keeps A L s s'
     | Some e \<Rightarrow> (e = EINVAL \<or> e = ENOMEM) \<and> out = None \<and> s' = s)"
proof -
  have pow: "is_power_of_two al \<longleftrightarrow> (\<exists>k. unat al = 2 ^ k)"
    by (rule is_power_of_two_unat)
  have lt: "al < 8 \<longleftrightarrow> unat al < 8" by (simp add: word_less_nat_alt)
  show ?thesis
  proof (cases "memptr_null \<or> al < 8 \<or> \<not> is_power_of_two al")
    case True
    then show ?thesis using pow lt by (auto simp: posix_memalign_def)
  next
    case False
    then obtain r s' where a: "arena_alloc A sz al s = Some (r, s')"
      and post: "case r of Inl e \<Rightarrow> e = ENOMEM \<and> s' = s
                 | Inr p \<Rightarrow> alloc_post A L (fit_size sz) (fit_align al) s p s'"
      using arena_alloc_rep [OF assms(1) _ assms(2), of al] by blast
    have no: "\<not> (memptr_null \<or> unat al < 8 \<or> (\<forall>k. unat al \<noteq> 2 ^ k))" using False pow lt by blast
    show ?thesis
    proof (cases r)
      case (Inl e)
      with a post False no show ?thesis by (simp add: posix_memalign_def)
    next
      case (Inr p)
      with post obtain n where n: "L p = None" "heap_rep A s' (L(p \<mapsto> n))" "unat (fit_size sz) \<le> n"
        "keeps A L s s'" "unat (fit_align al) dvd unat p"
        by (auto elim: alloc_postD)
      have "unat al dvd unat (fit_align al)"
        using False fit_align_dvd [of al] by blast
      then have "unat al dvd unat p" using n(5) by (rule dvd_trans)
      moreover have "unat sz \<le> n" using n(3) fit_size_le [of sz] by linarith
      ultimately show ?thesis
        using a Inr False no n(1,2,4) by (auto simp: posix_memalign_def)
    qed
  qed
qed

theorem posix_memalign_codes_witness:
  "\<exists>code out s'. posix_memalign demo_arena False 24 100 demo_heap = Some ((code, out), s')"
  using posix_memalign_codes [OF demo_rep, of 100 False 24] by auto

text \<open>
  Any sequence of \<open>malloc\<close> calls and of \<open>free\<close> calls on pointers still held, from
  the initial heap, returns, and the pointers held at the end are distinct live
  allocations inside the arena that do not overlap.
\<close>

theorem malloc_free_run:
  assumes "arena_at A" and "\<forall>n. Get n \<in> set rs \<longrightarrow> unat n + 32 < 2 ^ 64"
  shows "\<exists>s held L. run_client (malloc A) free rs (initial_heap m) [] = Some (s, held) \<and>
    heap_rep A s L \<and> dom L = set held \<and> distinct held \<and>
    (\<forall>p\<in>set held. unat A \<le> unat p \<and> unat p + the (L p) \<le> unat A + 67108864) \<and>
    (\<forall>p\<in>set held. \<forall>q\<in>set held. p \<noteq> q \<longrightarrow>
       unat p + the (L p) \<le> unat q \<or> unat q + the (L q) \<le> unat p)"
proof -
  obtain s held L where r: "run_client (malloc A) free rs (initial_heap m) [] = Some (s, held)"
    "heap_rep A s L" "dom L = set held" "distinct held"
    using mf.run_client_rep [OF initial_rep [OF assms(1)], of "[]" rs m] assms(2)
    by (auto simp: measurable_def)
  have some: "L p = Some (the (L p))" if "p \<in> set held" for p
    using that r(3) by (metis domD option.sel)
  have "unat A \<le> unat p \<and> unat p + the (L p) \<le> unat A + 67108864" if "p \<in> set held" for p
    using live_bounds(1,3) [OF r(2) some [OF that]] by linarith
  moreover have "unat p + the (L p) \<le> unat q \<or> unat q + the (L q) \<le> unat p"
    if "p \<in> set held" "q \<in> set held" "p \<noteq> q" for p q
    using live_disjoint [OF r(2) some [OF that(1)] some [OF that(2)] that(3)] by linarith
  ultimately show ?thesis using r by blast
qed

theorem malloc_free_run_witness:
  "\<exists>s held. run_client (malloc demo_arena) free [Get 10, Get 20, Give_back 1, Get 5]
     (initial_heap (\<lambda>_. 0)) [] = Some (s, held)"
proof -
  have "\<forall>n. Get n \<in> set [Get 10, Get 20, Give_back 1, Get 5] \<longrightarrow> unat n + 32 < 2 ^ 64" by auto
  from malloc_free_run [OF demo_arena_at this] show ?thesis by blast
qed

text \<open>
  C39: The overflow test of \<open>arena_alloc\<close> misses a request whose sum with the header
  size itself wraps: \<open>malloc(SIZE_MAX)\<close> on the initial heap succeeds, records a
  capacity of \<open>SIZE_MAX\<close> and advances the arena by 31 bytes, less than the header it
  wrote, so the header of the next block lies in the block just handed out.
\<close>

theorem malloc_accepts_SIZE_MAX:
  assumes "arena_at A"
  shows "\<exists>s1 s2. malloc A (- 1) (initial_heap m) = Some (Inr (A + 32), s1) \<and>
    h_capacity (hdr s1 A) = - 1 \<and> ruby_alloc_offset s1 = 31 \<and>
    malloc A 16 s1 = Some (Inr (A + 64), s2)"
proof -
  have a: "4096 dvd unat A" "unat A + 67108864 + 4096 < 2 ^ 64"
    using assms by (simp_all add: arena_at_def)
  have up: "align_up (A + 32) 16 = A + 32" "align_up (A + 63) 16 = A + 64"
  proof -
    obtain j where j: "unat A = 16 * j" using a(1) dvd_trans [of 16 4096 "unat A"] by (auto elim: dvdE)
    have u: "unat (A + 32) = 16 * j + 32" "unat (A + 63) = 16 * j + 63" "unat (A + 64) = 16 * j + 64"
      using a(2) j by (simp_all add: unat_plus_if')
    have lim: "16 * j + 63 + 16 < 2 ^ 64" using a(2) j by linarith
    have "(16 * j + 32 + 16 - 1) div 16 * 16 = 16 * j + 32" "(16 * j + 63 + 16 - 1) div 16 * 16 = 16 * j + 64"
      by presburger+
    then show "align_up (A + 32) 16 = A + 32" "align_up (A + 63) 16 = A + 64"
      using u lim align_up_nat [of 16 "A + 32"] align_up_nat [of 16 "A + 63"]
      by (intro unsigned_word_eqI [where 'a = nat]; simp add: is_power_of_two_def)+
  qed
  let ?s = "initial_heap m"
  let ?s1 = "(new_header A (- 1) ?s)\<lparr>ruby_alloc_offset := 31\<rparr>"
  have free: "free_list ?s = 0" "free_list ?s1 = 0" by (simp_all add: initial_heap_def mem_simps)
  have cmp: "\<not> A + 31 < A" "\<not> A + 67108864 < A + 31" "\<not> A + 80 < A + 32" "\<not> A + 67108864 < A + 80"
    using a by (simp_all add: word_less_nat_alt unat_plus_if')
  have p16: "is_power_of_two 16" by (simp add: is_power_of_two_def)
  have r1: "malloc A (- 1) ?s = Some (Inr (A + 32), ?s1)"
    using up cmp p16 free
    by (simp add: malloc_def arena_alloc_def Let_def alloc_consts reuse_free_block_def reuse_loop.simps
        header_payload_def initial_heap_def add.commute [of 31 A])
  have "malloc A 16 ?s1 = Some (Inr (A + 64), (new_header (A + 32) 16 ?s1)\<lparr>ruby_alloc_offset := 80\<rparr>)"
    using up cmp p16 free
    by (simp add: malloc_def arena_alloc_def Let_def alloc_consts reuse_free_block_def reuse_loop.simps
        header_payload_def mem_simps add.commute [of 63 A] add.commute [of 80 A]
        add.commute [of 32 A])
  with r1 show ?thesis by (auto simp: mem_simps)
qed

theorem malloc_accepts_SIZE_MAX_witness:
  "\<exists>s1. malloc demo_arena (- 1) (initial_heap (\<lambda>_. 0)) = Some (Inr (demo_arena + 32), s1)"
  using malloc_accepts_SIZE_MAX [OF demo_arena_at] by blast

end
