(* ===== verification/Mmap.thy ===== *)
theory Mmap
  imports Alloc_Props
begin

text \<open>
  The mapping calls of \<^verbatim>\<open>ruby_alloc.c\<close>: \<open>mmap\<close> of anonymous memory and of files of
  the embedded archive, \<open>munmap\<close> and \<open>mremap\<close>.

  The descriptor table belongs to libsel4muslcsys, which is not part of this
  repository, so it is a parameter: \<open>fdlib\<close> holds the functions the code calls on a
  table state of any type \<open>'f\<close>, and \<open>fdlib_ok\<close> the documented behaviour relied on.
  The layout of \<open>cpio_file_data_t\<close> comes from the same library: \<open>cpio_layout\<close> gives
  its size and field offsets. The object itself lives in the byte memory, since the code
  allocates it with \<open>malloc\<close>.
\<close>

section \<open>The descriptor library, as a parameter\<close>

datatype muslcsys_filetype = FILE_TYPE_CPIO | FILE_TYPE_OTHER nat

record muslcsys_fd =
  filetype :: muslcsys_filetype
  fd_data :: addr

record 'f fdlib =
  allocate_fd :: "'f \<Rightarrow> int \<times> 'f"
  add_free_fd :: "int \<Rightarrow> 'f \<Rightarrow> 'f"
  valid_fd :: "int \<Rightarrow> bool"
  get_fd_struct :: "'f \<Rightarrow> int \<Rightarrow> muslcsys_fd option"
  put_fd_struct :: "int \<Rightarrow> muslcsys_fd \<Rightarrow> 'f \<Rightarrow> 'f"

record cpio_layout =
  sizeof_cpio :: u64
  off_start :: u64
  off_size :: u64
  off_current :: u64

definition layout_ok :: "cpio_layout \<Rightarrow> bool" where
  "layout_ok ly \<longleftrightarrow> unat (sizeof_cpio ly) \<le> 4096 \<and>
     unat (off_start ly) + 8 \<le> unat (sizeof_cpio ly) \<and>
     unat (off_size ly) + 4 \<le> unat (sizeof_cpio ly) \<and>
     unat (off_current ly) + 4 \<le> unat (sizeof_cpio ly) \<and>
     (unat (off_start ly) + 8 \<le> unat (off_size ly) \<or> unat (off_size ly) + 4 \<le> unat (off_start ly)) \<and>
     (unat (off_start ly) + 8 \<le> unat (off_current ly) \<or> unat (off_current ly) + 4 \<le> unat (off_start ly)) \<and>
     (unat (off_size ly) + 4 \<le> unat (off_current ly) \<or> unat (off_current ly) + 4 \<le> unat (off_size ly))"

text \<open>The fields of \<open>cpio_file_data_t\<close> at address \<open>d\<close>.\<close>

definition cpio_start :: "cpio_layout \<Rightarrow> mem \<Rightarrow> addr \<Rightarrow> addr" where
  "cpio_start ly m d = load64 m (d + off_start ly)"

definition cpio_size :: "cpio_layout \<Rightarrow> mem \<Rightarrow> addr \<Rightarrow> u32" where
  "cpio_size ly m d = load32 m (d + off_size ly)"

section \<open>mmap\<close>

definition MAP_ANONYMOUS :: u32 where "MAP_ANONYMOUS = 0x20"

definition cpio_file_for_fd :: "'f fdlib \<Rightarrow> 'f \<Rightarrow> int \<Rightarrow> addr option" where
  "cpio_file_for_fd lib f fd =
     (if fd < 0 \<or> \<not> valid_fd lib fd then None
      else case get_fd_struct lib f fd of
        None \<Rightarrow> None
      | Some fds \<Rightarrow>
          if filetype fds \<noteq> FILE_TYPE_CPIO \<or> fd_data fds = 0 then None else Some (fd_data fds))"

text \<open>
  \<open>MAP_FAILED\<close> is \<open>Inl\<close> of the \<open>errno\<close> set. The hint address and the protection are
  ignored by the code; \<open>off\<close> is the signed file offset.
\<close>

definition mmap ::
    "addr \<Rightarrow> cpio_layout \<Rightarrow> 'f fdlib \<Rightarrow> 'f \<Rightarrow> u64 \<Rightarrow> u32 \<Rightarrow> int \<Rightarrow> u64 \<Rightarrow> heap \<Rightarrow>
       (addr result \<times> heap) option" where
  "mmap A ly lib f len flags fd off s =
     (if len = 0 then Some (Inl EINVAL, s)
      else
        let rounded = (len + MMAP_ALIGNMENT - 1) AND NOT (MMAP_ALIGNMENT - 1)
        in if rounded < len then Some (Inl ENOMEM, s)
           else if flags AND MAP_ANONYMOUS = 0 \<and> fd \<ge> 0 then
             (case cpio_file_for_fd lib f fd of
                None \<Rightarrow> Some (Inl ENODEV, s)
              | Some file \<Rightarrow>
                  let fsize = ucast (cpio_size ly (hmem s) file) :: u64
                  in if sint off < 0 \<or> off > fsize then Some (Inl EINVAL, s)
                     else
                       let avail0 = fsize - off;
                           available = (if avail0 > len then len else avail0)
                       in case arena_alloc A rounded MMAP_ALIGNMENT s of
                            None \<Rightarrow> None
                          | Some (Inl e, s1) \<Rightarrow> Some (Inl e, s1)
                          | Some (Inr ptr, s1) \<Rightarrow>
                              let m1 = memset (hmem s1) ptr 0 rounded;
                                  m2 = memcpy m1 ptr (cpio_start ly m1 file + off) available
                              in Some (Inr ptr, s1\<lparr>hmem := m2\<rparr>))
           else
             case arena_alloc A rounded MMAP_ALIGNMENT s of
               None \<Rightarrow> None
             | Some (Inl e, s1) \<Rightarrow> Some (Inl e, s1)
             | Some (Inr ptr, s1) \<Rightarrow>
                 Some (Inr ptr, s1\<lparr>hmem := memset (hmem s1) ptr 0 rounded\<rparr>))"

definition mmap_alias ::
    "addr \<Rightarrow> cpio_layout \<Rightarrow> 'f fdlib \<Rightarrow> 'f \<Rightarrow> u64 \<Rightarrow> u32 \<Rightarrow> int \<Rightarrow> u64 \<Rightarrow> heap \<Rightarrow>
       (addr result \<times> heap) option" where
  "mmap_alias A ly lib f len flags fd off s = mmap A ly lib f len flags fd off s"

text \<open>The return value of \<open>munmap\<close> is always 0.\<close>

definition munmap :: "addr \<Rightarrow> u64 \<Rightarrow> heap \<Rightarrow> int \<times> heap" where
  "munmap a len s = (0, if a \<noteq> 0 then free a s else s)"

definition munmap_alias :: "addr \<Rightarrow> u64 \<Rightarrow> heap \<Rightarrow> int \<times> heap" where
  "munmap_alias a len s = munmap a len s"

definition mremap :: "addr \<Rightarrow> u64 \<Rightarrow> u64 \<Rightarrow> u32 \<Rightarrow> addr result" where
  "mremap old_addr old_len new_len flags = Inl ENOMEM"

definition mremap_alias :: "addr \<Rightarrow> u64 \<Rightarrow> u64 \<Rightarrow> u32 \<Rightarrow> addr result" where
  "mremap_alias old_addr old_len new_len flags = Inl ENOMEM"

section \<open>Page rounding\<close>

definition page_round :: "u64 \<Rightarrow> u64" where
  "page_round len = (len + MMAP_ALIGNMENT - 1) AND NOT (MMAP_ALIGNMENT - 1)"

lemma page_pow: "is_power_of_two MMAP_ALIGNMENT" "unat MMAP_ALIGNMENT = 4096"
  "fit_align MMAP_ALIGNMENT = MMAP_ALIGNMENT"
  by (simp_all add: is_power_of_two_def MMAP_ALIGNMENT_def fit_align_def)

lemma page_round_align: "page_round len = align_up len MMAP_ALIGNMENT"
  by (simp add: page_round_def align_up_def)

lemma page_round_nat:
  assumes "unat len + 4096 \<le> 2 ^ 64"
  shows "unat (page_round len) = (unat len + 4095) div 4096 * 4096"
  using align_up_nat [OF page_pow(1), of len] assms by (simp add: page_round_align page_pow(2))

lemma page_round_guard: "page_round len < len \<longleftrightarrow> 2 ^ 64 < unat len + 4096"
proof (cases "2 ^ 64 < unat len + 4096")
  case True
  then have "page_round len = 0"
    using align_up_wraps [OF page_pow(1), of len] by (simp add: page_round_align page_pow(2))
  with True show ?thesis by (simp add: word_less_nat_alt)
next
  case False
  then have "unat (page_round len) = (unat len + 4095) div 4096 * 4096"
    by (intro page_round_nat) simp
  then have "unat len \<le> unat (page_round len)"
    using round_up_nat(1) [of 4096 "unat len"] by simp
  with False show ?thesis by (simp add: word_less_nat_alt)
qed

lemma page_round_props:
  assumes "\<not> page_round len < len" and "len \<noteq> 0"
  shows "unat len \<le> unat (page_round len)" and "unat (page_round len) < unat len + 4096"
    and "4096 dvd unat (page_round len)" and "unat (page_round len) + 32 < 2 ^ 64"
    and "0 < unat (page_round len)" and "fit_size (page_round len) = page_round len"
proof -
  have lim: "unat len + 4096 \<le> 2 ^ 64" using assms(1) unfolding page_round_guard by simp
  have len: "0 < unat len" using assms(2) by (simp add: unat_gt_0)
  note eq = page_round_nat [OF lim] and r = round_up_nat [of 4096 "unat len"]
  show a: "unat len \<le> unat (page_round len)" "unat (page_round len) < unat len + 4096"
    "4096 dvd unat (page_round len)"
    using eq r by simp_all
  then show "0 < unat (page_round len)" using len by linarith
  then show "fit_size (page_round len) = page_round len" by (auto simp: fit_size_def)
  obtain k where k: "unat (page_round len) = 4096 * k" using a(3) by (elim dvdE)
  with unsigned_less [of "page_round len", where 'a = nat] have "4096 * k < 2 ^ 64" by simp
  then have "k < 4503599627370496" by simp
  then have "4096 * k + 4096 \<le> 2 ^ 64" by simp
  with k show "unat (page_round len) + 32 < 2 ^ 64" by linarith
qed

section \<open>What a mapping is\<close>

text \<open>A page-aligned block fresh from the arena, after \<open>memset\<close>.\<close>

lemma page_block:
  assumes rep: "heap_rep A s L" and len: "len \<noteq> 0" "\<not> page_round len < len"
  shows "\<exists>r s1. arena_alloc A (page_round len) MMAP_ALIGNMENT s = Some (r, s1) \<and>
    (case r of Inl e \<Rightarrow> e = ENOMEM \<and> s1 = s
     | Inr p \<Rightarrow> \<exists>n. L p = None \<and> 4096 dvd unat p \<and> unat (page_round len) \<le> n \<and> keeps A L s s1 \<and>
                   heap_rep A s1 (L(p \<mapsto> n)))"
proof -
  note pr = page_round_props [OF len(2,1)]
  obtain r s1 where a: "arena_alloc A (page_round len) MMAP_ALIGNMENT s = Some (r, s1)"
    and post: "case r of Inl e \<Rightarrow> e = ENOMEM \<and> s1 = s
               | Inr p \<Rightarrow> alloc_post A L (page_round len) MMAP_ALIGNMENT s p s1"
    using arena_alloc_rep [OF rep _ pr(4), of MMAP_ALIGNMENT, unfolded page_pow(3) pr(6)]
      page_pow(1) by blast
  show ?thesis
  proof (cases r)
    case (Inl e)
    with a post show ?thesis by simp
  next
    case (Inr p)
    with post a show ?thesis by (auto elim!: alloc_postD simp: page_pow)
  qed
qed

lemma mmap_anon_eq:
  assumes "len \<noteq> 0" and "\<not> page_round len < len" and "flags AND MAP_ANONYMOUS \<noteq> 0 \<or> fd < 0"
  shows "mmap A ly lib f len flags fd off s =
    (case arena_alloc A (page_round len) MMAP_ALIGNMENT s of
       None \<Rightarrow> None
     | Some (Inl e, s1) \<Rightarrow> Some (Inl e, s1)
     | Some (Inr p, s1) \<Rightarrow> Some (Inr p, s1\<lparr>hmem := memset (hmem s1) p 0 (page_round len)\<rparr>))"
proof -
  have nf: "(flags AND MAP_ANONYMOUS = 0 \<and> 0 \<le> fd) = False" using assms(3) by auto
  show ?thesis using assms(1,2) unfolding mmap_def page_round_def [symmetric] Let_def nf by simp
qed

lemma mmap_file_eq:
  assumes "len \<noteq> 0" and "\<not> page_round len < len" and "flags AND MAP_ANONYMOUS = 0" "0 \<le> fd"
    and "cpio_file_for_fd lib f fd = Some d"
    and "sint off \<ge> 0" "off \<le> ucast (cpio_size ly (hmem s) d)"
  shows "mmap A ly lib f len flags fd off s =
    (case arena_alloc A (page_round len) MMAP_ALIGNMENT s of
       None \<Rightarrow> None
     | Some (Inl e, s1) \<Rightarrow> Some (Inl e, s1)
     | Some (Inr p, s1) \<Rightarrow> Some (Inr p, s1\<lparr>hmem :=
         memcpy (memset (hmem s1) p 0 (page_round len)) p
           (cpio_start ly (memset (hmem s1) p 0 (page_round len)) d + off)
           (min (ucast (cpio_size ly (hmem s) d) - off) len)\<rparr>))"
proof -
  have c: "(flags AND MAP_ANONYMOUS = 0 \<and> 0 \<le> fd) = True" using assms(3,4) by simp
  have o: "(sint off < 0 \<or> ucast (cpio_size ly (hmem s) d) < off) = False" using assms(6,7) by auto
  have m: "(if x > len then len else x) = min x len" for x by (auto simp: min_def)
  show ?thesis
    using assms(1,2) unfolding mmap_def page_round_def [symmetric] Let_def c if_True assms(5)
      option.case o if_False m by simp
qed

lemma mmap_round_overflow:
  "len \<noteq> 0 \<Longrightarrow> page_round len < len \<Longrightarrow> mmap A ly lib f len flags fd off s = Some (Inl ENOMEM, s)"
  unfolding mmap_def page_round_def [symmetric] Let_def by simp

lemma mmap_anonymous_rep:
  assumes rep: "heap_rep A s L" and len: "len \<noteq> 0" and anon: "flags AND MAP_ANONYMOUS \<noteq> 0 \<or> fd < 0"
  shows "\<exists>r s'. mmap A ly lib f len flags fd off s = Some (r, s') \<and>
    (case r of Inl e \<Rightarrow> e = ENOMEM \<and> s' = s
     | Inr p \<Rightarrow> L p = None \<and> 4096 dvd unat p \<and> keeps A L s s' \<and>
         (\<exists>n\<ge>unat (page_round len). heap_rep A s' (L(p \<mapsto> n))) \<and>
         (\<forall>x. unat p \<le> unat x \<and> unat x < unat p + unat (page_round len) \<longrightarrow> hmem s' x = 0))"
proof (cases "page_round len < len")
  case True
  show ?thesis unfolding mmap_round_overflow [OF len True] by simp
next
  case False
  obtain r s1 where a: "arena_alloc A (page_round len) MMAP_ALIGNMENT s = Some (r, s1)"
    and post: "case r of Inl e \<Rightarrow> e = ENOMEM \<and> s1 = s
       | Inr p \<Rightarrow> \<exists>n. L p = None \<and> 4096 dvd unat p \<and> unat (page_round len) \<le> n \<and> keeps A L s s1 \<and>
                     heap_rep A s1 (L(p \<mapsto> n))"
    using page_block [OF rep len False] by blast
  note eq = mmap_anon_eq [OF len False anon, where A = A and s = s, unfolded a]
  show ?thesis
  proof (cases r)
    case (Inl e)
    with post show ?thesis unfolding eq by simp
  next
    case (Inr p)
    with post obtain n where n: "heap_rep A s1 (L(p \<mapsto> n))" "L p = None" "keeps A L s s1"
      "unat (page_round len) \<le> n" "4096 dvd unat p" by auto
    show ?thesis
      unfolding eq using Inr zero_new [OF n(1-4)] n(2,4,5) by auto
  qed
qed

lemma mmap_page_round:
  assumes "mmap A ly lib f len flags fd off s = Some (Inr p, s')"
  shows "unat (page_round len) = (unat len + 4095) div 4096 * 4096"
proof -
  have "len \<noteq> 0" using assms by (auto simp: mmap_def)
  then have "\<not> page_round len < len"
    using mmap_round_overflow [of len A ly lib f flags fd off s] assms by auto
  then show ?thesis unfolding page_round_guard by (intro page_round_nat) simp
qed

text \<open>The object behind a descriptor, with the archive it points into.\<close>

definition file_ok ::
    "addr \<Rightarrow> cpio_layout \<Rightarrow> heap \<Rightarrow> (addr \<Rightarrow> nat option) \<Rightarrow> addr \<Rightarrow> bool" where
  "file_ok A ly s L d \<longleftrightarrow> layout_ok ly \<and> (\<exists>k\<ge>unat (sizeof_cpio ly). L d = Some k) \<and>
     (let a = unat (cpio_start ly (hmem s) d); n = unat (cpio_size ly (hmem s) d)
      in a + n \<le> unat A \<or> unat A + 67108864 \<le> a \<and> a + n < 2 ^ 64)"

lemma cpio_fields_cong:
  assumes "layout_ok ly" and "unat d + 4096 < 2 ^ 64"
    and "\<And>x. unat d \<le> unat x \<Longrightarrow> unat x < unat d + unat (sizeof_cpio ly) \<Longrightarrow> m x = m' x"
  shows "cpio_start ly m d = cpio_start ly m' d" and "cpio_size ly m d = cpio_size ly m' d"
proof -
  have o: "unat (d + off_start ly) = unat d + unat (off_start ly)"
    "unat (d + off_size ly) = unat d + unat (off_size ly)"
    using assms(1,2) unfolding layout_ok_def by (intro unat_add_no_wrap; linarith)+
  show "cpio_start ly m d = cpio_start ly m' d" unfolding cpio_start_def
    by (rule load64_cong) (use assms o in \<open>auto simp: layout_ok_def\<close>)
  show "cpio_size ly m d = cpio_size ly m' d" unfolding cpio_size_def
    by (rule load32_cong) (use assms o in \<open>auto simp: layout_ok_def\<close>)
qed

text \<open>Nothing of the object is touched by the new block or by what is written to it.\<close>

lemma mapped_fields:
  assumes rep: "heap_rep A s L" and fok: "file_ok A ly s L d" and k: "keeps A L s s1"
    and new: "heap_rep A s1 (L(p \<mapsto> n))" "L p = None" "unat t \<le> n"
  shows "cpio_start ly (memset (hmem s1) p 0 t) d = cpio_start ly (hmem s) d"
proof -
  obtain k where lay: "layout_ok ly" and d: "L d = Some k" "unat (sizeof_cpio ly) \<le> k"
    using fok unfolding file_ok_def by blast
  have lim: "unat d + 4096 < 2 ^ 64" using live_bounds(4) [OF rep d(1)] by linarith
  have d': "(L(p \<mapsto> n)) d = Some k" "p \<noteq> d" using d(1) new(2) by auto
  have lp: "(L(p \<mapsto> n)) p = Some n" by simp
  have dis: "unat p + n \<le> unat d \<or> unat d + k \<le> unat p"
    using live_disjoint [where L = "L(p \<mapsto> n)", OF new(1) lp d'] by linarith
  have bd: "unat p + unat t \<le> 2 ^ 64"
    using live_bounds(4) [where L = "L(p \<mapsto> n)", OF new(1) lp] new(3) by linarith
  show ?thesis
  proof (rule cpio_fields_cong(1) [OF lay lim])
    fix x :: addr
    assume x: "unat d \<le> unat x" "unat x < unat d + unat (sizeof_cpio ly)"
    then have "\<not> (unat p \<le> unat x \<and> unat x < unat p + unat t)"
      using dis d(2) new(3) by linarith
    then show "memset (hmem s1) p 0 t x = hmem s x"
      using keepsD(2) [OF k d(1), of x] x d(2) by (auto simp: memset_apply [OF bd])
  qed
qed

text \<open>What the two library calls leave in the new pages.\<close>

lemma copy_after_zero:
  assumes "unat p + unat t < 2 ^ 64" and "unat c \<le> unat t" and "i < unat t"
    and src: "unat src + unat c < 2 ^ 64"
      "unat src + unat c \<le> unat p \<or> unat p + unat t \<le> unat src \<or> unat c = 0"
  shows "memcpy (memset m p 0 t) p src c (p + of_nat i) = (if i < unat c then m (src + of_nat i) else 0)"
proof -
  have x: "unat (p + of_nat i) = unat p + i"
    by (rule unat_offset [where n = "unat t"]) (use assms in linarith)+
  have lim: "unat p + unat c \<le> 2 ^ 64" "unat p + unat t \<le> 2 ^ 64" using assms by linarith+
  show ?thesis
  proof (cases "i < unat c")
    case True
    have y: "unat (src + of_nat i) = unat src + i"
      by (rule unat_offset [OF src(1)]) (use True in simp)
    have "\<not> (unat p \<le> unat src + i \<and> unat src + i < unat p + unat t)"
      using src(2) True by linarith
    then show ?thesis using True assms(3)
      by (auto simp: memcpy_apply [OF lim(1)] memset_apply [OF lim(2)] x y)
  next
    case False
    then show ?thesis using assms(3)
      by (simp add: memcpy_apply [OF lim(1)] memset_apply [OF lim(2)] x)
  qed
qed

text \<open>The new block, zeroed, with the part of the file that fits copied over its start.\<close>

lemma copied_file:
  assumes rep: "heap_rep A s L" and fok: "file_ok A ly s L d"
    and off: "off \<le> ucast (cpio_size ly (hmem s) d)"
    and n: "heap_rep A s1 (L(p \<mapsto> n))" "keeps A L s s1" "unat (page_round len) \<le> n"
    and len: "unat len \<le> unat (page_round len)"
  defines "c \<equiv> min (ucast (cpio_size ly (hmem s) d) - off) len"
    and "src \<equiv> cpio_start ly (hmem s) d + off"
  defines "m \<equiv> memcpy (memset (hmem s1) p 0 (page_round len)) p src c"
  shows "i < unat (page_round len) \<Longrightarrow> m (p + of_nat i) =
      (if i < unat len \<and> unat off + i < unat (cpio_size ly (hmem s) d) then hmem s (src + of_nat i) else 0)"
    and "\<not> (unat p \<le> unat x \<and> unat x < unat p + n) \<Longrightarrow> m x = hmem s1 x"
proof -
  let ?a = "unat (cpio_start ly (hmem s) d)" and ?n = "unat (cpio_size ly (hmem s) d)"
  have lp: "(L(p \<mapsto> n)) p = Some n" by simp
  note lb = live_bounds(1,3,4) [where L = "L(p \<mapsto> n)", OF n(1) lp]
  have sz: "unat (ucast (cpio_size ly (hmem s) d) :: u64) = ?n" by simp
  have offle: "unat off \<le> ?n" using off sz by (simp add: word_le_nat_alt)
  have cn: "unat c = min (?n - unat off) (unat len)"
    using off sz by (simp add: c_def min_def unat_sub word_le_nat_alt)
  have cb: "unat c \<le> unat (page_round len)" using cn len by simp
  have arena: "unat A + 67108864 < 2 ^ 64" using heap_rep_arena [OF rep] by (simp add: arena_at_def)
  have fa: "?a + ?n \<le> unat A \<or> unat A + 67108864 \<le> ?a \<and> ?a + ?n < 2 ^ 64"
    using fok unfolding file_ok_def by (simp add: Let_def)
  have srcn: "unat src = ?a + unat off" unfolding src_def
    by (rule unat_add_no_wrap) (use fa offle arena in linarith)
  have s1: "unat src + unat c < 2 ^ 64" using srcn cn offle fa arena by linarith
  have s2: "unat src + unat c \<le> unat p \<or> unat p + unat (page_round len) \<le> unat src \<or> unat c = 0"
    using srcn cn offle fa lb n(3) by linarith
  have lim: "unat p + unat (page_round len) < 2 ^ 64" using lb n(3) by linarith
  show "m (p + of_nat i) = (if i < unat len \<and> unat off + i < ?n then hmem s (src + of_nat i) else 0)"
    if i: "i < unat (page_round len)"
  proof -
    have iff: "i < unat c \<longleftrightarrow> i < unat len \<and> unat off + i < ?n" using cn by auto
    have "hmem s1 (src + of_nat i) = hmem s (src + of_nat i)" if "i < unat c"
    proof (rule keeps_outside [OF n(2)])
      have "unat (src + of_nat i) = unat src + i"
        by (rule unat_offset [OF s1]) (use that in simp)
      then show "unat (src + of_nat i) < unat A \<or> unat A + 67108864 \<le> unat (src + of_nat i)"
        using srcn that cn fa by linarith
    qed
    then show ?thesis unfolding m_def copy_after_zero [OF lim cb i s1 s2] iff by auto
  qed
  show "m x = hmem s1 x" if "\<not> (unat p \<le> unat x \<and> unat x < unat p + n)"
    using that cb n(3) lim
    by (auto simp: m_def memcpy_apply [where n = c and dst = p] memset_apply [where p = p])
qed

lemma mmap_file_rep:
  assumes rep: "heap_rep A s L" and len: "len \<noteq> 0"
    and fd: "flags AND MAP_ANONYMOUS = 0" "0 \<le> fd" "cpio_file_for_fd lib f fd = Some d"
    and fok: "file_ok A ly s L d"
    and off: "sint off \<ge> 0" "off \<le> ucast (cpio_size ly (hmem s) d)"
  shows "\<exists>r s'. mmap A ly lib f len flags fd off s = Some (r, s') \<and>
    (case r of Inl e \<Rightarrow> e = ENOMEM \<and> s' = s
     | Inr p \<Rightarrow> L p = None \<and> 4096 dvd unat p \<and> keeps A L s s' \<and>
         (\<exists>n\<ge>unat (page_round len). heap_rep A s' (L(p \<mapsto> n))) \<and>
         (\<forall>i < unat (page_round len). hmem s' (p + of_nat i) =
            (if i < unat len \<and> unat off + i < unat (cpio_size ly (hmem s) d)
             then hmem s (cpio_start ly (hmem s) d + off + of_nat i) else 0)))"
proof (cases "page_round len < len")
  case True
  show ?thesis unfolding mmap_round_overflow [OF len True] by simp
next
  case False
  note pr = page_round_props [OF False len]
  obtain r s1 where a: "arena_alloc A (page_round len) MMAP_ALIGNMENT s = Some (r, s1)"
    and post: "case r of Inl e \<Rightarrow> e = ENOMEM \<and> s1 = s
       | Inr p \<Rightarrow> \<exists>n. L p = None \<and> 4096 dvd unat p \<and> unat (page_round len) \<le> n \<and> keeps A L s s1 \<and>
                     heap_rep A s1 (L(p \<mapsto> n))"
    using page_block [OF rep len False] by blast
  note eq = mmap_file_eq [OF len False fd, where A = A and s = s and ly = ly, OF off, unfolded a]
  show ?thesis
  proof (cases r)
    case (Inl e)
    with post show ?thesis unfolding eq by simp
  next
    case (Inr p)
    with post obtain n where n: "heap_rep A s1 (L(p \<mapsto> n))" "L p = None" "keeps A L s s1"
      "unat (page_round len) \<le> n" "4096 dvd unat p" by auto
    note C = copied_file [OF rep fok off(2) n(1,3,4) pr(1)]
    note F = fill_new [OF n(1-3) C(2)]
    show ?thesis using eq Inr mapped_fields [OF rep fok n(3) n(1,2,4)] n(2,4,5) F C(1) by auto
  qed
qed

section \<open>Mapping and unmapping keep the allocator's contract\<close>

lemma anonymous_flag: "MAP_ANONYMOUS AND MAP_ANONYMOUS \<noteq> 0"
  by (simp add: MAP_ANONYMOUS_def)

interpretation mm: allocator "heap_rep A" "keeps A" "\<lambda>n. n \<noteq> 0"
  "\<lambda>n s. mmap A ly lib f n MAP_ANONYMOUS fd off s" "\<lambda>p s. snd (munmap p len s)"
  for A and ly :: cpio_layout and lib :: "'f fdlib" and f :: 'f and fd :: int and off len :: u64
proof unfold_locales
  fix s L n e p s' k
  assume rep: "heap_rep A s L"
  note M = mmap_anonymous_rep [OF rep, where flags = MAP_ANONYMOUS, OF _ disjI1 [OF anonymous_flag]]
  show "\<exists>r s'. mmap A ly lib f n MAP_ANONYMOUS fd off s = Some (r, s')" if "n \<noteq> 0"
    using M [OF that, of ly lib f fd off] by blast
  show "e = ENOMEM \<and> s' = s"
    if "n \<noteq> 0" "mmap A ly lib f n MAP_ANONYMOUS fd off s = Some (Inl e, s')"
    using M [OF that(1), of ly lib f fd off] that(2) by auto
  show "L p = None \<and> keeps A L s s' \<and> (\<exists>k\<ge>unat n. heap_rep A s' (L(p \<mapsto> k)))"
    if n: "n \<noteq> 0" and run: "mmap A ly lib f n MAP_ANONYMOUS fd off s = Some (Inr p, s')"
  proof -
    have "\<not> page_round n < n"
      using mmap_round_overflow [OF n, of A ly lib f MAP_ANONYMOUS fd off s] run by auto
    from page_round_props(1) [OF this n] M [OF n, of ly lib f fd off] run show ?thesis
      by (auto intro: le_trans)
  qed
  show "heap_rep A (snd (munmap p len s)) (L(p := None)) \<and> keeps A (L(p := None)) s (snd (munmap p len s))"
    if "L p = Some k"
    using free_rep [OF rep that] live_bounds(6) [OF rep that] by (simp add: munmap_def)
qed (auto intro: keeps_trans keeps_mono)

section \<open>What unmapping part of a mapping does\<close>

text \<open>A header whose last four bytes are zero does not carry the magic number.\<close>

lemma free_no_magic:
  assumes "load32 (hmem s) (p - 4) = 0"
  shows "free p s = s"
proof (rule free_ignored)
  have "h_magic (hdr s (payload_header p)) = load32 (hmem s) (payload_header p + 28)"
    by (simp add: hdr_def)
  also have "\<dots> = load32 (hmem s) (p - 4)" by (simp add: payload_header_def HEADER_SIZE_def)
  finally show "p = 0 \<or> h_magic (hdr s (payload_header p)) \<noteq> ALLOC_MAGIC \<or>
      h_is_free (hdr s (payload_header p)) \<noteq> 0"
    using assms by (simp add: ALLOC_MAGIC_def)
qed

lemma load32_zero:
  assumes "unat a + 4 < 2 ^ 64" and "\<And>x. unat a \<le> unat x \<Longrightarrow> unat x < unat a + 4 \<Longrightarrow> m x = 0"
  shows "load32 m a = 0"
proof -
  have "load32 m a = load32 (\<lambda>_. 0) a" by (rule load32_cong) (use assms in auto)
  also have "\<dots> = 0" by (simp add: load32_def loads_def numeral_eq_Suc)
  finally show ?thesis .
qed

section \<open>Properties of the mapping calls\<close>

text \<open>
  A descriptor library on which the parameters can be instantiated: a stack of free
  descriptors over a table of sixteen entries, and a sixteen-byte object layout.
\<close>

definition demo_lib :: "(int list \<times> (int \<Rightarrow> muslcsys_fd)) fdlib" where
  "demo_lib = \<lparr>
     allocate_fd = (\<lambda>(fs, t). case fs of [] \<Rightarrow> (- 24, (fs, t))
       | x # xs \<Rightarrow> if 0 \<le> x \<and> x < 16 then (x, (xs, t)) else (- 24, (fs, t))),
     add_free_fd = (\<lambda>fd (fs, t). (fd # fs, t)),
     valid_fd = (\<lambda>fd. 0 \<le> fd \<and> fd < 16),
     get_fd_struct = (\<lambda>(fs, t) fd. Some (t fd)),
     put_fd_struct = (\<lambda>fd v (fs, t). (fs, t(fd := v)))\<rparr>"

definition demo_fds :: "int list \<times> (int \<Rightarrow> muslcsys_fd)" where
  "demo_fds = ([3, 4, 5], \<lambda>_. \<lparr>filetype = FILE_TYPE_OTHER 0, fd_data = 0\<rparr>)"

definition demo_layout :: cpio_layout where
  "demo_layout = \<lparr>sizeof_cpio = 16, off_start = 0, off_size = 8, off_current = 12\<rparr>"

lemma demo_layout_ok: "layout_ok demo_layout"
  by (simp add: layout_ok_def demo_layout_def)

text \<open>
  C24: an anonymous \<open>mmap\<close> of any non-zero length returns; it fails only with \<open>ENOMEM\<close>
  and then changes nothing; otherwise the mapping is new, starts on a page boundary,
  covers whole pages up to the end of the last page asked for, every byte of those pages
  reads as zero, and no live allocation has changed.
\<close>

theorem mmap_anonymous_pages:
  assumes "heap_rep A s L" and "len \<noteq> 0" and "flags AND MAP_ANONYMOUS \<noteq> 0 \<or> fd < 0"
  shows "\<exists>r s'. mmap A ly lib f len flags fd off s = Some (r, s') \<and>
    (case r of Inl e \<Rightarrow> e = ENOMEM \<and> s' = s
     | Inr p \<Rightarrow> L p = None \<and> 4096 dvd unat p \<and> keeps A L s s' \<and>
         (\<exists>n\<ge>(unat len + 4095) div 4096 * 4096. heap_rep A s' (L(p \<mapsto> n)) \<and>
            unat A \<le> unat p \<and> unat p + n \<le> unat A + 67108864) \<and>
         (\<forall>x. unat p \<le> unat x \<and> unat x < unat p + (unat len + 4095) div 4096 * 4096 \<longrightarrow>
            hmem s' x = 0))"
proof (cases "page_round len < len")
  case True
  show ?thesis unfolding mmap_round_overflow [OF assms(2) True] by simp
next
  case False
  then have eq: "unat (page_round len) = (unat len + 4095) div 4096 * 4096"
    unfolding page_round_guard by (intro page_round_nat) simp
  obtain r s' where run: "mmap A ly lib f len flags fd off s = Some (r, s')"
    and post: "case r of Inl e \<Rightarrow> e = ENOMEM \<and> s' = s
     | Inr p \<Rightarrow> L p = None \<and> 4096 dvd unat p \<and> keeps A L s s' \<and>
         (\<exists>n\<ge>unat (page_round len). heap_rep A s' (L(p \<mapsto> n))) \<and>
         (\<forall>x. unat p \<le> unat x \<and> unat x < unat p + unat (page_round len) \<longrightarrow> hmem s' x = 0)"
    using mmap_anonymous_rep [OF assms, of ly lib f off] by blast
  have "unat A \<le> unat p \<and> unat p + n \<le> unat A + 67108864" if "heap_rep A s' (L(p \<mapsto> n))" for p n
    using live_bounds(1,3) [where L = "L(p \<mapsto> n)" and p = p and n = n, OF that] by simp
  with run post show ?thesis unfolding eq by (cases r) auto
qed

theorem mmap_anonymous_pages_witness:
  "\<exists>r s'. mmap demo_arena demo_layout demo_lib demo_fds 5000 MAP_ANONYMOUS (-1) 0 demo_heap = Some (r, s') \<and>
    (case r of Inl e \<Rightarrow> e = ENOMEM | Inr p \<Rightarrow> 4096 dvd unat p \<and>
      (\<forall>x. unat p \<le> unat x \<and> unat x < unat p + 8192 \<longrightarrow> hmem s' x = 0))"
proof -
  have h: "(5000 :: u64) \<noteq> 0" "MAP_ANONYMOUS AND MAP_ANONYMOUS \<noteq> 0 \<or> (-1 :: int) < 0" by simp_all
  from mmap_anonymous_pages [OF demo_rep h, of demo_layout demo_lib demo_fds 0]
  obtain r s' where "mmap demo_arena demo_layout demo_lib demo_fds 5000 MAP_ANONYMOUS (-1) 0 demo_heap
      = Some (r, s')"
    and "case r of Inl e \<Rightarrow> e = ENOMEM | Inr p \<Rightarrow> 4096 dvd unat p \<and>
      (\<forall>x. unat p \<le> unat x \<and> unat x < unat p + 8192 \<longrightarrow> hmem s' x = 0)"
    by (fastforce split: sum.splits)
  then show ?thesis by blast
qed

text \<open>
  C12: mapping a file of the archive copies its contents: byte \<open>i\<close> of the mapping is byte
  \<open>off + i\<close> of the file as long as that lies within the length asked for and within the
  file, and every other byte up to the end of the last page is zero. The object behind the
  descriptor is live on the same heap and the archive lies outside the arena.
\<close>

theorem mmap_file_contents:
  assumes "heap_rep A s L" and "len \<noteq> 0" and "flags AND MAP_ANONYMOUS = 0" and "0 \<le> fd"
    and "cpio_file_for_fd lib f fd = Some d" and "file_ok A ly s L d"
    and "sint off \<ge> 0" and "unat off \<le> unat (cpio_size ly (hmem s) d)"
  shows "\<exists>r s'. mmap A ly lib f len flags fd off s = Some (r, s') \<and>
    (case r of Inl e \<Rightarrow> e = ENOMEM \<and> s' = s
     | Inr p \<Rightarrow> L p = None \<and> 4096 dvd unat p \<and> keeps A L s s' \<and>
         (\<exists>n\<ge>(unat len + 4095) div 4096 * 4096. heap_rep A s' (L(p \<mapsto> n))) \<and>
         (\<forall>i < (unat len + 4095) div 4096 * 4096. hmem s' (p + of_nat i) =
            (if i < unat len \<and> unat off + i < unat (cpio_size ly (hmem s) d)
             then hmem s (cpio_start ly (hmem s) d + off + of_nat i) else 0)))"
proof (cases "page_round len < len")
  case True
  show ?thesis unfolding mmap_round_overflow [OF assms(2) True] by simp
next
  case False
  then have eq: "unat (page_round len) = (unat len + 4095) div 4096 * 4096"
    unfolding page_round_guard by (intro page_round_nat) simp
  have "off \<le> ucast (cpio_size ly (hmem s) d)"
    using assms(8)
    by (simp add: word_le_nat_alt)
  from mmap_file_rep [OF assms(1-7) this] show ?thesis unfolding eq .
qed

text \<open>An archive of one file \<open>hello\<close> at \<open>0x1000\<close> and its object in the live block of the demo heap.\<close>

definition demo_text :: mem where
  "demo_text x = (if x - 0x1000 < 5 then ([104, 101, 108, 108, 111] ! unat (x - 0x1000)) else 0)"

definition demo_file_heap :: heap where
  "demo_file_heap = (let s = demo_heap_on demo_text
     in s\<lparr>hmem := store32 (store64 (hmem s) (demo_arena + 32) 0x1000) (demo_arena + 40) 5\<rparr>)"

definition demo_file_fds :: "int list \<times> (int \<Rightarrow> muslcsys_fd)" where
  "demo_file_fds = ([4, 5], \<lambda>_. \<lparr>filetype = FILE_TYPE_CPIO, fd_data = demo_arena + 32\<rparr>)"

lemma store_outside:
  assumes "unat a + 8 \<le> 2 ^ 64" and "\<not> (unat a \<le> unat x \<and> unat x < unat a + 8)"
  shows "store64 m a w x = m x" and "store32 m a v x = m x"
  using assms in_range_nat [of a 8 x] in_range_nat [of a 4 x]
  by (auto simp: store64_def store32_def stores_def)

lemma demo_file_rep: "heap_rep demo_arena demo_file_heap [demo_arena + 32 \<mapsto> 100]"
proof -
  let ?s = "demo_heap_on demo_text"
  have u: "unat (demo_arena + 32) = 268435488" "unat (demo_arena + 40) = 268435496"
    by (simp_all add: demo_arena_def)
  show ?thesis unfolding demo_file_heap_def Let_def
    by (rule write_rep(1) [OF demo_rep_on demo_live]) (auto simp: store_outside u)
qed

lemma demo_file_fields:
  "cpio_start demo_layout (hmem demo_file_heap) (demo_arena + 32) = 0x1000"
  "cpio_size demo_layout (hmem demo_file_heap) (demo_arena + 32) = 5"
  by (simp_all add: cpio_start_def cpio_size_def demo_layout_def demo_file_heap_def Let_def
      demo_arena_def mem_simps)

lemma demo_file_ok: "file_ok demo_arena demo_layout demo_file_heap [demo_arena + 32 \<mapsto> 100] (demo_arena + 32)"
  unfolding file_ok_def demo_file_fields Let_def
  by (simp add: demo_layout_ok) (simp add: demo_layout_def demo_arena_def)

lemma demo_file_fd: "cpio_file_for_fd demo_lib demo_file_fds 3 = Some (demo_arena + 32)"
  by (simp add: cpio_file_for_fd_def demo_lib_def demo_file_fds_def demo_arena_def)

lemma demo_file_byte: "hmem demo_file_heap 0x1002 = 108"
  by (simp add: demo_file_heap_def Let_def store_outside demo_arena_def demo_heap_on_def new_header_def
      set_size_def set_capacity_def set_next_free_def set_is_free_def set_magic_def initial_heap_def
      demo_text_def)

theorem mmap_file_contents_witness:
  "\<exists>r s'. mmap demo_arena demo_layout demo_lib demo_file_fds 9 0 3 0 demo_file_heap = Some (r, s') \<and>
    (case r of Inl e \<Rightarrow> e = ENOMEM
     | Inr p \<Rightarrow> 4096 dvd unat p \<and> hmem s' (p + of_nat 2) = 108 \<and> hmem s' (p + of_nat 5) = 0)"
proof -
  have h: "(9 :: u64) \<noteq> 0" "(0 :: u32) AND MAP_ANONYMOUS = 0" "(0 :: int) \<le> 3" "0 \<le> sint (0 :: u64)"
    "unat (0 :: u64) \<le> unat (cpio_size demo_layout (hmem demo_file_heap) (demo_arena + 32))"
    by simp_all
  from mmap_file_contents [OF demo_file_rep h(1-3) demo_file_fd demo_file_ok h(4,5)]
  obtain r s' where run: "mmap demo_arena demo_layout demo_lib demo_file_fds 9 0 3 0 demo_file_heap = Some (r, s')"
    and post: "case r of Inl e \<Rightarrow> e = ENOMEM | Inr p \<Rightarrow> 4096 dvd unat p \<and>
      (\<forall>i < 4096. hmem s' (p + of_nat i) =
         (if i < 9 \<and> i < 5 then hmem demo_file_heap (0x1000 + of_nat i) else 0))"
    unfolding demo_file_fields by (fastforce split: sum.splits)
  have "4096 dvd unat p \<and> hmem s' (p + of_nat 2) = 108 \<and> hmem s' (p + of_nat 5) = 0" if "r = Inr p" for p
  proof -
    have all: "hmem s' (p + of_nat i) = (if i < 9 \<and> i < 5 then hmem demo_file_heap (0x1000 + of_nat i) else 0)"
      if "i < 4096" for i
      using post that \<open>r = Inr p\<close> by simp
    show ?thesis using all [of 2] all [of 5] post that demo_file_byte by simp
  qed
  with run post show ?thesis by (cases r) auto
qed

text \<open>
  The failures of \<open>mmap\<close>, each of which leaves the heap as it was: a length of zero
  is \<open>EINVAL\<close>, a length that does not fit after rounding up to pages is \<open>ENOMEM\<close>, a
  descriptor that is not an open archive file is \<open>ENODEV\<close>, and an offset that is
  negative or beyond the end of the file is \<open>EINVAL\<close>.
\<close>

lemma mmap_errors:
  "mmap A ly lib f 0 flags fd off s = Some (Inl EINVAL, s) \<and>
   (2 ^ 64 < unat len + 4096 \<longrightarrow> mmap A ly lib f len flags fd off s = Some (Inl ENOMEM, s)) \<and>
   (len \<noteq> 0 \<and> unat len + 4096 \<le> 2 ^ 64 \<and> flags AND MAP_ANONYMOUS = 0 \<and> 0 \<le> fd \<longrightarrow>
     (cpio_file_for_fd lib f fd = None \<longrightarrow> mmap A ly lib f len flags fd off s = Some (Inl ENODEV, s)) \<and>
     (\<forall>d. cpio_file_for_fd lib f fd = Some d \<and>
          (sint off < 0 \<or> unat (cpio_size ly (hmem s) d) < unat off) \<longrightarrow>
        mmap A ly lib f len flags fd off s = Some (Inl EINVAL, s)))"
proof (intro conjI impI allI)
  show "mmap A ly lib f 0 flags fd off s = Some (Inl EINVAL, s)" by (simp add: mmap_def)
  show "mmap A ly lib f len flags fd off s = Some (Inl ENOMEM, s)" if "2 ^ 64 < unat len + 4096"
  proof (rule mmap_round_overflow)
    show "len \<noteq> 0" using that by auto
    show "page_round len < len" using that unfolding page_round_guard .
  qed
  assume h: "len \<noteq> 0 \<and> unat len + 4096 \<le> 2 ^ 64 \<and> flags AND MAP_ANONYMOUS = 0 \<and> 0 \<le> fd"
  then have c: "(page_round len < len) = False" "(flags AND MAP_ANONYMOUS = 0 \<and> 0 \<le> fd) = True"
    unfolding page_round_guard by simp_all
  note M = mmap_def [of A ly lib f len flags fd off s, folded page_round_def, unfolded Let_def c if_True if_False]
  show "mmap A ly lib f len flags fd off s = Some (Inl ENODEV, s)" if "cpio_file_for_fd lib f fd = None"
    using M h that by simp
  show "mmap A ly lib f len flags fd off s = Some (Inl EINVAL, s)"
    if "cpio_file_for_fd lib f fd = Some d \<and> (sint off < 0 \<or> unat (cpio_size ly (hmem s) d) < unat off)" for d
    using M h that by (auto simp: word_less_nat_alt)
qed

text \<open>
  Unmapping the tail or the middle of a fresh mapping, at any offset of at least four
  bytes and up to its end, changes nothing at all: the bytes where a header would be are
  zero, so the magic number is missing.
\<close>

lemma munmap_inside_ignored:
  assumes "heap_rep A s L" and "len \<noteq> 0" and "flags AND MAP_ANONYMOUS \<noteq> 0 \<or> fd < 0"
    and "mmap A ly lib f len flags fd off s = Some (Inr p, s')"
    and "4 \<le> k" and "k \<le> (unat len + 4095) div 4096 * 4096"
  shows "munmap (p + of_nat k) trim s' = (0, s')"
proof -
  have nov: "\<not> page_round len < len"
    using mmap_round_overflow [OF assms(2), of A ly lib f flags fd off s] assms(4) by auto
  then have eq: "unat (page_round len) = (unat len + 4095) div 4096 * 4096"
    unfolding page_round_guard by (intro page_round_nat) simp
  from mmap_anonymous_rep [OF assms(1-3), of ly lib f off] assms(4)
  obtain n where n: "heap_rep A s' (L(p \<mapsto> n))" "unat (page_round len) \<le> n"
    and z: "\<And>x. unat p \<le> unat x \<Longrightarrow> unat x < unat p + unat (page_round len) \<Longrightarrow> hmem s' x = 0"
    by auto
  have lp: "(L(p \<mapsto> n)) p = Some n" by simp
  have lim: "unat p + k < 2 ^ 64"
    using live_bounds(4) [where L = "L(p \<mapsto> n)", OF n(1) lp] n(2) assms(6) eq by linarith
  have pk: "p + of_nat k - 4 = p + of_nat (k - 4)" using assms(5) by (simp add: of_nat_diff)
  have u: "unat (p + of_nat (k - 4)) = unat p + (k - 4)" by (rule unat_offset [OF lim]) simp
  have "load32 (hmem s') (p + of_nat k - 4) = 0" unfolding pk
    by (rule load32_zero) (use u lim assms(5,6) eq z in auto)
  from free_no_magic [OF this] show ?thesis by (simp add: munmap_def)
qed

text \<open>
  C38: the length given to \<open>munmap\<close> is ignored, so unmapping any length at the start of a
  live mapping gives the whole of it back: the next anonymous mapping that fits returns
  the same address, zeroed, over bytes the caller meant to keep.
\<close>

theorem munmap_start_releases_all:
  assumes "heap_rep A s L" and "L p = Some n" and "4096 dvd unat p"
    and "len \<noteq> 0" and "unat (page_round len) \<le> n" and "unat len + 4096 \<le> 2 ^ 64"
    and "flags AND MAP_ANONYMOUS \<noteq> 0 \<or> fd < 0"
  shows "\<exists>s'. mmap A ly lib f len flags fd off (snd (munmap p trim s)) = Some (Inr p, s') \<and>
    heap_rep A s' L \<and> (\<forall>x. unat p \<le> unat x \<and> unat x < unat p + unat (page_round len) \<longrightarrow> hmem s' x = 0)"
proof -
  have nov: "\<not> page_round len < len" using assms(6) unfolding page_round_guard by simp
  note pr = page_round_props [OF nov assms(4)]
  have mun: "snd (munmap p trim s) = free p s"
    using live_bounds(6) [OF assms(1,2)] by (simp add: munmap_def)
  have le: "max 1 (unat (page_round len)) \<le> n" using pr(5) assms(5) by simp
  obtain s1 where s1: "arena_alloc A (page_round len) MMAP_ALIGNMENT (free p s) = Some (Inr p, s1)"
    "heap_rep A s1 L" "keeps A (L(p := None)) s s1"
    using free_then_alloc [OF assms(1,2) le page_pow(1)] assms(3) page_pow by auto
  define L0 where "L0 = L(p := None)"
  have L: "L = L0(p \<mapsto> n)" and new: "L0 p = None" using assms(2) by (auto simp: L0_def)
  have e: "L0(p \<mapsto> n) = L" using L by simp
  have rep1: "heap_rep A s1 (L0(p \<mapsto> n))" unfolding e by (rule s1(2))
  have k1: "keeps A L0 s s1" unfolding L0_def by (rule s1(3))
  note Z = zero_new [OF rep1 new k1 assms(5)]
  show ?thesis unfolding mun mmap_anon_eq [OF assms(4) nov assms(7)] s1(1)
    using Z(1,3) by (simp add: L)
qed

lemma first_mapping:
  "\<exists>s1. mmap demo_arena ly lib f 8192 MAP_ANONYMOUS (-1) 0 (initial_heap m) = Some (Inr 0x10001000, s1)"
  by (simp add: mmap_def arena_alloc_def reuse_free_block_def reuse_loop.simps initial_heap_def
      MMAP_ALIGNMENT_def DEFAULT_ALIGNMENT_def is_power_of_two_def align_up_def HEADER_SIZE_def
      RUBY_ALLOC_ARENA_SIZE_def demo_arena_def header_payload_def Let_def MAP_ANONYMOUS_def)

theorem munmap_start_releases_all_witness:
  "\<exists>p s1 s2. mmap demo_arena demo_layout demo_lib demo_fds 8192 MAP_ANONYMOUS (-1) 0 (initial_heap (\<lambda>_. 0))
       = Some (Inr p, s1) \<and>
     mmap demo_arena demo_layout demo_lib demo_fds 8192 MAP_ANONYMOUS (-1) 0 (snd (munmap p 4096 s1))
       = Some (Inr p, s2)"
proof -
  let ?p = "0x10001000 :: addr"
  obtain s1 where run: "mmap demo_arena demo_layout demo_lib demo_fds 8192 MAP_ANONYMOUS (-1) 0
      (initial_heap (\<lambda>_. 0)) = Some (Inr ?p, s1)"
    using first_mapping [of demo_layout demo_lib demo_fds "\<lambda>_. 0"] by blast
  have pr: "unat (page_round 8192) = 8192" by (simp add: page_round_def MMAP_ALIGNMENT_def)
  have fl: "MAP_ANONYMOUS AND MAP_ANONYMOUS \<noteq> 0 \<or> (-1 :: int) < 0" by simp
  have len: "(8192 :: u64) \<noteq> 0" by simp
  obtain n where n: "heap_rep demo_arena s1 [?p \<mapsto> n]" "unat (page_round 8192) \<le> n"
    using mmap_anonymous_rep [OF initial_rep [OF demo_arena_at, of "\<lambda>_. 0"] len fl,
        of demo_layout demo_lib demo_fds 0] run by auto
  have "[?p \<mapsto> n] ?p = Some n" "4096 dvd unat ?p" "unat (8192 :: u64) + 4096 \<le> 2 ^ 64" by simp_all
  from munmap_start_releases_all [OF n(1) this(1,2) len n(2) this(3) fl,
      of demo_layout demo_lib demo_fds 0 4096] run
  show ?thesis by blast
qed

end
