(* ===== verification/Cpio_Fs.thy ===== *)
theory Cpio_Fs
  imports Mmap
begin

text \<open>
  The read-only file surface of \<^verbatim>\<open>ruby_syscall_fs.c\<close>: paths, lookup in the embedded
  CPIO archive, directories inferred from entry names, \<open>open\<close> and the \<open>stat\<close> family.

  The archive reader (\<open>cpio_get_file\<close>, \<open>cpio_get_entry\<close>) is a library outside the
  repository and a parameter: \<open>cpio\<close> holds its two functions on the component's archive,
  and \<open>cpio_ok\<close> says what the code relies on. A C string is a list of characters without
  the final NUL; a \<open>NULL\<close> pointer is \<open>None\<close>.
\<close>

section \<open>The archive, as a parameter\<close>

text \<open>
  \<open>entry_at i\<close> is \<open>cpio_get_entry\<close> at index \<open>i\<close>: the address of the data, the name it
  stores through its argument, and the size. \<open>file_named n\<close> is \<open>cpio_get_file\<close>.
\<close>

record cpio =
  entry_at :: "nat \<Rightarrow> (addr \<times> string option \<times> u64) option"
  file_named :: "string \<Rightarrow> (addr \<times> u64) option"

definition cpio_ok :: "cpio \<Rightarrow> nat \<Rightarrow> bool" where
  "cpio_ok ar n \<longleftrightarrow> (\<forall>i. entry_at ar i = None \<longleftrightarrow> n \<le> i) \<and>
     (\<forall>name a sz. file_named ar name = Some (a, sz) \<longrightarrow> (\<exists>i. entry_at ar i = Some (a, Some name, sz))) \<and>
     (\<forall>name. file_named ar name = None \<longrightarrow> (\<forall>i a sz. entry_at ar i \<noteq> Some (a, Some name, sz)))"

section \<open>Paths\<close>

fun skip_slashes :: "string \<Rightarrow> string" where
  "skip_slashes (c # cs) = (if c = CHR ''/'' then skip_slashes cs else c # cs)"
| "skip_slashes [] = []"

fun skip_dot_slashes :: "string \<Rightarrow> string" where
  "skip_dot_slashes (c # d # cs) =
     (if c = CHR ''.'' \<and> d = CHR ''/'' then skip_dot_slashes cs else c # d # cs)"
| "skip_dot_slashes cs = cs"

definition normalize_path :: "string option \<Rightarrow> string option" where
  "normalize_path path =
     (case path of None \<Rightarrow> None | Some p \<Rightarrow> Some (skip_dot_slashes (skip_slashes p)))"

definition find_file :: "cpio \<Rightarrow> string option \<Rightarrow> (addr \<times> u64) option" where
  "find_file ar path = (case normalize_path path of None \<Rightarrow> None | Some name \<Rightarrow> file_named ar name)"

section \<open>Status records\<close>

text \<open>The fields the code fills in; \<open>memset\<close> leaves every other one zero.\<close>

record stat_buf =
  st_mode :: u32
  st_nlink :: u64
  st_size :: u64
  st_blksize :: u64
  st_blocks :: u64

definition S_IFREG :: u32 where "S_IFREG = 0x8000"
definition S_IFDIR :: u32 where "S_IFDIR = 0x4000"
definition S_IFCHR :: u32 where "S_IFCHR = 0x2000"
definition S_IRUSR :: u32 where "S_IRUSR = 0x100"
definition S_IWUSR :: u32 where "S_IWUSR = 0x80"
definition S_IXUSR :: u32 where "S_IXUSR = 0x40"
definition S_IRGRP :: u32 where "S_IRGRP = 0x20"
definition S_IXGRP :: u32 where "S_IXGRP = 0x8"
definition S_IROTH :: u32 where "S_IROTH = 0x4"
definition S_IXOTH :: u32 where "S_IXOTH = 0x1"

definition zeroed_stat :: stat_buf where
  "zeroed_stat = \<lparr>st_mode = 0, st_nlink = 0, st_size = 0, st_blksize = 0, st_blocks = 0\<rparr>"

definition fill_regular :: "u64 \<Rightarrow> stat_buf" where
  "fill_regular sz = zeroed_stat\<lparr>
     st_mode := S_IFREG OR S_IRUSR OR S_IRGRP OR S_IROTH, st_nlink := 1, st_size := sz,
     st_blksize := 4096, st_blocks := (sz + 511) div 512\<rparr>"

definition fill_directory :: stat_buf where
  "fill_directory = zeroed_stat\<lparr>
     st_mode := S_IFDIR OR S_IRUSR OR S_IXUSR OR S_IRGRP OR S_IXGRP OR S_IROTH OR S_IXOTH,
     st_nlink := 2, st_blksize := 4096\<rparr>"

section \<open>Directories inferred from entry names\<close>

text \<open>\<open>strncmp (a, b, n) == 0\<close>, and a character of a string read as C does, with the NUL.\<close>

fun strncmp_eq :: "string \<Rightarrow> string \<Rightarrow> nat \<Rightarrow> bool" where
  "strncmp_eq a b 0 = True"
| "strncmp_eq [] [] (Suc n) = True"
| "strncmp_eq (x # a) (y # b) (Suc n) = (x = y \<and> strncmp_eq a b n)"
| "strncmp_eq [] (y # b) (Suc n) = False"
| "strncmp_eq (x # a) [] (Suc n) = False"

definition char_at :: "string \<Rightarrow> nat \<Rightarrow> char" where
  "char_at s i = (if i < length s then s ! i else CHR 0x00)"

partial_function (option) scan_entries :: "cpio \<Rightarrow> string \<Rightarrow> nat \<Rightarrow> bool option" where
  "scan_entries ar name index =
     (case entry_at ar index of
        None \<Rightarrow> Some False
      | Some (_, entry, _) \<Rightarrow>
          (case entry of
             None \<Rightarrow> scan_entries ar name (index + 1)
           | Some e \<Rightarrow>
               if strncmp_eq e name (length name) \<and> char_at e (length name) = CHR ''/''
               then Some True
               else scan_entries ar name (index + 1)))"

definition is_archive_directory :: "cpio \<Rightarrow> string option \<Rightarrow> bool option" where
  "is_archive_directory ar nm =
     (case nm of
        None \<Rightarrow> Some False
      | Some name \<Rightarrow> if length name = 0 then Some True else scan_entries ar name 0)"

section \<open>open\<close>

definition O_ACCMODE :: u32 where "O_ACCMODE = 0x200003"
definition O_RDONLY :: u32 where "O_RDONLY = 0"
definition EMFILE_number :: int where "EMFILE_number = 24"

text \<open>
  The state is the descriptor table of the library and the heap. \<open>None\<close> stands for
  behaviour the C code does not define: a free-list walk that never ends, or a null
  descriptor structure. \<open>Inl e\<close> is the return value \<open>-e\<close>.
\<close>

definition open_cpio ::
    "addr \<Rightarrow> cpio_layout \<Rightarrow> 'f fdlib \<Rightarrow> cpio \<Rightarrow> string option \<Rightarrow> u32 \<Rightarrow> 'f \<times> heap \<Rightarrow>
       (int result \<times> ('f \<times> heap)) option" where
  "open_cpio A ly lib ar pathname flags st =
     (let (f, s) = st in
      if pathname = None then Some (Inl EFAULT, st)
      else if flags AND O_ACCMODE \<noteq> O_RDONLY then Some (Inl EROFS, st)
      else case find_file ar pathname of
        None \<Rightarrow> Some (Inl ENOENT, st)
      | Some (file, sz) \<Rightarrow>
          let (fd, f1) = allocate_fd lib f in
          if fd = - EMFILE_number then Some (Inl EMFILE, (f1, s))
          else case get_fd_struct lib f1 fd of
            None \<Rightarrow> None
          | Some fds \<Rightarrow>
              let f2 = put_fd_struct lib fd (fds\<lparr>filetype := FILE_TYPE_CPIO\<rparr>) f1 in
              case malloc A (sizeof_cpio ly) s of
                None \<Rightarrow> None
              | Some (Inl e, s1) \<Rightarrow>
                  let f3 = put_fd_struct lib fd (fds\<lparr>filetype := FILE_TYPE_CPIO, fd_data := 0\<rparr>) f2
                  in Some (Inl ENOMEM, (add_free_fd lib fd f3, s1))
              | Some (Inr data, s1) \<Rightarrow>
                  let f3 = put_fd_struct lib fd (fds\<lparr>filetype := FILE_TYPE_CPIO, fd_data := data\<rparr>) f2;
                      m1 = store64 (hmem s1) (data + off_start ly) file;
                      m2 = store32 m1 (data + off_size ly) (ucast sz);
                      m3 = store32 m2 (data + off_current ly) 0
                  in Some (Inr fd, (f3, s1\<lparr>hmem := m3\<rparr>)))"

definition ruby_sys_open where
  "ruby_sys_open A ly lib ar pathname flags st = open_cpio A ly lib ar pathname flags st"

definition ruby_sys_openat where
  "ruby_sys_openat A ly lib ar (dirfd :: int) pathname flags st = open_cpio A ly lib ar pathname flags st"

text \<open>
  What the constructor registers. The system call table and its registration function
  belong to libsel4muslcsys; \<open>install\<close> and \<open>install_cpio\<close> are their parameters.
\<close>

datatype sys_handler = Ruby_sys_open | Ruby_sys_openat

definition install_ruby_fs ::
    "(cpio \<Rightarrow> 't \<Rightarrow> 't) \<Rightarrow> (nat \<Rightarrow> sys_handler \<Rightarrow> 't \<Rightarrow> 't) \<Rightarrow> cpio \<Rightarrow> 't \<Rightarrow> 't" where
  "install_ruby_fs install_cpio install ar t =
     install 257 Ruby_sys_openat (install 2 Ruby_sys_open (install_cpio ar t))"

text \<open>
  The libc wrapper. \<open>sys\<close> is the \<open>openat\<close> system call as the table dispatches it; the
  wrapper of the C library turns a return value \<open>-e\<close> into \<open>errno = e\<close>.
\<close>

definition AT_FDCWD :: int where "AT_FDCWD = - 100"

definition open_path ::
    "(int \<Rightarrow> string option \<Rightarrow> u32 \<Rightarrow> 'c \<Rightarrow> (int result \<times> 'c) option) \<Rightarrow>
       string option \<Rightarrow> u32 \<Rightarrow> 'c \<Rightarrow> (int result \<times> 'c) option" where
  "open_path sys path flags st =
     (if path = None then Some (Inl EFAULT, st)
      else if flags AND O_ACCMODE \<noteq> O_RDONLY then Some (Inl EROFS, st)
      else sys AT_FDCWD (normalize_path path) O_RDONLY st)"

definition openat_path where
  "openat_path sys (dirfd :: int) path flags st = open_path sys path flags st"

section \<open>stat\<close>

definition stat :: "cpio \<Rightarrow> string option \<Rightarrow> bool \<Rightarrow> stat_buf result option" where
  "stat ar path st_null =
     (if st_null then Some (Inl EFAULT)
      else case find_file ar path of
        Some (_, sz) \<Rightarrow> Some (Inr (fill_regular sz))
      | None \<Rightarrow>
          (case is_archive_directory ar (normalize_path path) of
             None \<Rightarrow> None
           | Some True \<Rightarrow> Some (Inr fill_directory)
           | Some False \<Rightarrow> Some (Inl ENOENT)))"

definition lstat :: "cpio \<Rightarrow> string option \<Rightarrow> bool \<Rightarrow> stat_buf result option" where
  "lstat ar path st_null = stat ar path st_null"

definition fstatat :: "cpio \<Rightarrow> int \<Rightarrow> string option \<Rightarrow> bool \<Rightarrow> int \<Rightarrow> stat_buf result option" where
  "fstatat ar dirfd path st_null flags = stat ar path st_null"

definition fstat ::
    "cpio_layout \<Rightarrow> 'f fdlib \<Rightarrow> int \<Rightarrow> bool \<Rightarrow> 'f \<times> heap \<Rightarrow> stat_buf result" where
  "fstat ly lib fd st_null st =
     (if st_null then Inl EFAULT
      else if fd = 0 \<or> fd = 1 \<or> fd = 2
      then Inr (zeroed_stat\<lparr>st_mode := S_IFCHR OR S_IRUSR OR S_IWUSR, st_nlink := 1, st_blksize := 4096\<rparr>)
      else if valid_fd lib fd
      then (case get_fd_struct lib (fst st) fd of
              None \<Rightarrow> Inl EBADF
            | Some fds \<Rightarrow>
                if filetype fds = FILE_TYPE_CPIO \<and> fd_data fds \<noteq> 0
                then Inr (fill_regular (ucast (cpio_size ly (hmem (snd st)) (fd_data fds))))
                else Inl EBADF)
      else Inl EBADF)"

section \<open>Directory lookup\<close>

text \<open>
  Once \<open>strncmp\<close> has found the name to be a prefix, indexing the entry one past the
  compared characters stays within the string or hits its NUL.
\<close>

lemma strncmp_prefix: "strncmp_eq e name (length name) \<longleftrightarrow> (\<exists>rest. e = name @ rest)"
proof (induction name arbitrary: e)
  case Nil
  then show ?case by simp
next
  case (Cons c name)
  then show ?case by (cases e) auto
qed

lemma under_directory:
  "strncmp_eq e name (length name) \<and> char_at e (length name) = CHR ''/'' \<longleftrightarrow>
     (\<exists>rest. e = name @ CHR ''/'' # rest)"
  (is "?l \<longleftrightarrow> ?r")
proof
  assume l: ?l
  then obtain rest where e: "e = name @ rest" using strncmp_prefix by blast
  with l show ?r by (cases rest) (auto simp: char_at_def)
next
  assume ?r
  then show ?l using strncmp_prefix by (auto simp: char_at_def)
qed

definition lies_under :: "cpio \<Rightarrow> string \<Rightarrow> nat \<Rightarrow> bool" where
  "lies_under ar name j \<longleftrightarrow>
     (\<exists>a rest sz. entry_at ar j = Some (a, Some (name @ CHR ''/'' # rest), sz))"

lemma scan_entries_finds:
  assumes "cpio_ok ar n" and "i \<le> n"
  shows "scan_entries ar name i = Some (\<exists>j\<ge>i. lies_under ar name j)"
  using assms(2)
proof (induction "n - i" arbitrary: i)
  case 0
  then have "entry_at ar j = None" if "i \<le> j" for j using assms(1) that by (simp add: cpio_ok_def)
  then show ?case by (simp add: scan_entries.simps lies_under_def)
next
  case (Suc d)
  have split: "(\<exists>j\<ge>i. lies_under ar name j) \<longleftrightarrow> lies_under ar name i \<or> (\<exists>j\<ge>i + 1. lies_under ar name j)"
  proof -
    have "i \<le> j \<longleftrightarrow> j = i \<or> i + 1 \<le> j" for j by auto
    then show ?thesis by auto
  qed
  have IH: "scan_entries ar name (i + 1) = Some (\<exists>j\<ge>i + 1. lies_under ar name j)"
    using Suc.hyps(2) by (intro Suc.hyps(1)) simp_all
  have "entry_at ar i \<noteq> None" using assms(1) Suc.hyps(2) by (auto simp: cpio_ok_def)
  then obtain a entry sz where e: "entry_at ar i = Some (a, entry, sz)" by (metis option.exhaust prod_cases3)
  show ?case
  proof (cases entry)
    case None
    then have "\<not> lies_under ar name i" using e by (simp add: lies_under_def)
    then show ?thesis
      using e None IH split by (subst scan_entries.simps) simp
  next
    case (Some en)
    have "lies_under ar name i \<longleftrightarrow>
        strncmp_eq en name (length name) \<and> char_at en (length name) = CHR ''/''"
      using e Some unfolding under_directory by (simp add: lies_under_def)
    then show ?thesis
      using e Some IH split by (subst scan_entries.simps) auto
  qed
qed

lemma is_archive_directory_iff:
  assumes "cpio_ok ar n"
  shows "is_archive_directory ar (Some name) = Some (name = [] \<or> (\<exists>j. lies_under ar name j))"
  using scan_entries_finds [OF assms, of 0 name] by (simp add: is_archive_directory_def)

section \<open>Path lemmas\<close>

lemma skip_slashes_append: "set sl \<subseteq> {CHR ''/''} \<Longrightarrow> skip_slashes (sl @ p) = skip_slashes p"
  by (induction sl) auto

lemma skip_dots_append: "skip_dot_slashes (concat (replicate k ''./'') @ p) = skip_dot_slashes p"
  by (induction k) auto

lemma skip_slashes_id: "p = [] \<or> hd p \<noteq> CHR ''/'' \<Longrightarrow> skip_slashes p = p"
  by (cases p) auto

lemma skip_dots_id: "take 2 p \<noteq> ''./'' \<Longrightarrow> skip_dot_slashes p = p"
  by (cases p rule: skip_dot_slashes.cases) auto

section \<open>Opening a file\<close>

definition fdlib_ok :: "'f fdlib \<Rightarrow> bool" where
  "fdlib_ok lib \<longleftrightarrow>
     (\<forall>f fd f'. allocate_fd lib f = (fd, f') \<and> fd \<noteq> - EMFILE_number \<longrightarrow>
        0 \<le> fd \<and> valid_fd lib fd \<and> get_fd_struct lib f' fd \<noteq> None) \<and>
     (\<forall>f fd v. valid_fd lib fd \<longrightarrow> get_fd_struct lib (put_fd_struct lib fd v f) fd = Some v)"

lemma layout_offsets:
  assumes "layout_ok ly" and "unat d + unat (sizeof_cpio ly) < 2 ^ 64"
  shows "unat (d + off_start ly) = unat d + unat (off_start ly)"
    and "unat (d + off_size ly) = unat d + unat (off_size ly)"
    and "unat (d + off_current ly) = unat d + unat (off_current ly)"
  using assms unfolding layout_ok_def by (auto intro!: unat_add_no_wrap)

text \<open>The object the three stores build, read back through its fields.\<close>

definition fill_file :: "cpio_layout \<Rightarrow> mem \<Rightarrow> addr \<Rightarrow> addr \<Rightarrow> u64 \<Rightarrow> mem" where
  "fill_file ly m d file sz =
     store32 (store32 (store64 m (d + off_start ly) file) (d + off_size ly) (ucast sz)) (d + off_current ly) 0"

definition cpio_current :: "cpio_layout \<Rightarrow> mem \<Rightarrow> addr \<Rightarrow> u32" where
  "cpio_current ly m d = load32 m (d + off_current ly)"

lemma store32_outside:
  assumes "unat a + 4 \<le> 2 ^ 64" and "\<not> (unat a \<le> unat x \<and> unat x < unat a + 4)"
  shows "store32 m a v x = m x"
  using assms in_range_nat [of a 4 x] by (auto simp: store32_def stores_def)

lemma fill_file_fields:
  assumes ly: "layout_ok ly" and d: "unat d + unat (sizeof_cpio ly) < 2 ^ 64"
  shows "cpio_start ly (fill_file ly m d file sz) d = file"
    and "cpio_size ly (fill_file ly m d file sz) d = ucast sz"
    and "cpio_current ly (fill_file ly m d file sz) d = 0"
proof -
  show "cpio_current ly (fill_file ly m d file sz) d = 0"
    by (simp add: cpio_current_def fill_file_def mem_simps)
  note o = layout_offsets [OF ly d]
  have L: "unat (off_start ly) + 8 \<le> unat (sizeof_cpio ly)" "unat (off_size ly) + 4 \<le> unat (sizeof_cpio ly)"
    "unat (off_current ly) + 4 \<le> unat (sizeof_cpio ly)"
    and D: "unat (off_start ly) + 8 \<le> unat (off_size ly) \<or> unat (off_size ly) + 4 \<le> unat (off_start ly)"
     "unat (off_start ly) + 8 \<le> unat (off_current ly) \<or> unat (off_current ly) + 4 \<le> unat (off_start ly)"
     "unat (off_size ly) + 4 \<le> unat (off_current ly) \<or> unat (off_current ly) + 4 \<le> unat (off_size ly)"
    using ly by (auto simp: layout_ok_def)
  have out: "store32 m' (d + off_current ly) v x = m' x"
    if "\<not> (unat d + unat (off_current ly) \<le> unat x \<and> unat x < unat d + unat (off_current ly) + 4)" for m' v x
    by (rule store32_outside) (use o L d that in auto)
  have out2: "store32 m' (d + off_size ly) v x = m' x"
    if "\<not> (unat d + unat (off_size ly) \<le> unat x \<and> unat x < unat d + unat (off_size ly) + 4)" for m' v x
    by (rule store32_outside) (use o L d that in auto)
  show "cpio_size ly (fill_file ly m d file sz) d = ucast sz"
  proof -
    have "cpio_size ly (fill_file ly m d file sz) d =
        load32 (store32 (store64 m (d + off_start ly) file) (d + off_size ly) (ucast sz)) (d + off_size ly)"
      unfolding cpio_size_def fill_file_def
      by (rule load32_cong) (use o L D d in \<open>auto intro!: out\<close>)
    then show ?thesis by (simp add: mem_simps)
  qed
  show "cpio_start ly (fill_file ly m d file sz) d = file"
  proof -
    have "cpio_start ly (fill_file ly m d file sz) d =
        load64 (store64 m (d + off_start ly) file) (d + off_start ly)"
      unfolding cpio_start_def fill_file_def
    proof (rule load64_cong)
      show "unat (d + off_start ly) + 8 \<le> 2 ^ 64" using o L d by linarith
      fix x :: addr
      assume x: "unat (d + off_start ly) \<le> unat x" "unat x < unat (d + off_start ly) + 8"
      show "store32 (store32 (store64 m (d + off_start ly) file) (d + off_size ly) (ucast sz))
          (d + off_current ly) 0 x = store64 m (d + off_start ly) file x"
        using x o L D by (subst out, linarith, subst out2, linarith) simp
    qed
    then show ?thesis by (simp add: mem_simps)
  qed
qed

lemma fill_file_outside:
  assumes ly: "layout_ok ly" and d: "unat d + unat (sizeof_cpio ly) < 2 ^ 64"
    and x: "\<not> (unat d \<le> unat x \<and> unat x < unat d + unat (sizeof_cpio ly))"
  shows "fill_file ly m d file sz x = m x"
proof -
  note o = layout_offsets [OF ly d]
  have L: "unat (off_start ly) + 8 \<le> unat (sizeof_cpio ly)" "unat (off_size ly) + 4 \<le> unat (sizeof_cpio ly)"
    "unat (off_current ly) + 4 \<le> unat (sizeof_cpio ly)" using ly by (auto simp: layout_ok_def)
  have 1: "store32 m' (d + off_current ly) v x = m' x" for m' v
    by (rule store32_outside) (use o L d x in auto)
  have 2: "store32 m' (d + off_size ly) v x = m' x" for m' v
    by (rule store32_outside) (use o L d x in auto)
  have 3: "store64 m' (d + off_start ly) v x = m' x" for m' v
    by (rule store_outside(1)) (use o L d x in auto)
  show ?thesis unfolding fill_file_def 1 2 3 by simp
qed

definition opened ::
    "addr \<Rightarrow> cpio_layout \<Rightarrow> 'f fdlib \<Rightarrow> (addr \<Rightarrow> nat option) \<Rightarrow> heap \<Rightarrow> addr \<Rightarrow> u64 \<Rightarrow> int \<Rightarrow> 'f \<Rightarrow> heap \<Rightarrow> bool" where
  "opened A ly lib L s file sz fd f' s' \<longleftrightarrow> 0 \<le> fd \<and> valid_fd lib fd \<and>
     (\<exists>d k. L d = None \<and> unat (sizeof_cpio ly) \<le> k \<and> heap_rep A s' (L(d \<mapsto> k)) \<and> keeps A L s s' \<and>
        get_fd_struct lib f' fd \<noteq> None \<and> cpio_file_for_fd lib f' fd = Some d \<and>
        cpio_start ly (hmem s') d = file \<and> cpio_size ly (hmem s') d = ucast sz \<and>
        cpio_current ly (hmem s') d = 0)"

lemma open_cpio_found:
  assumes "flags AND O_ACCMODE = O_RDONLY" and "find_file ar (Some path) = Some (file, sz)"
    and "allocate_fd lib f = (fd, f1)"
  shows "open_cpio A ly lib ar (Some path) flags (f, s) =
    (if fd = - EMFILE_number then Some (Inl EMFILE, (f1, s))
     else case get_fd_struct lib f1 fd of
       None \<Rightarrow> None
     | Some fds \<Rightarrow>
         let f2 = put_fd_struct lib fd (fds\<lparr>filetype := FILE_TYPE_CPIO\<rparr>) f1 in
         case malloc A (sizeof_cpio ly) s of
           None \<Rightarrow> None
         | Some (Inl e, s1) \<Rightarrow>
             Some (Inl ENOMEM, (add_free_fd lib fd
               (put_fd_struct lib fd (fds\<lparr>filetype := FILE_TYPE_CPIO, fd_data := 0\<rparr>) f2), s1))
         | Some (Inr d, s1) \<Rightarrow>
             Some (Inr fd, (put_fd_struct lib fd (fds\<lparr>filetype := FILE_TYPE_CPIO, fd_data := d\<rparr>) f2,
               s1\<lparr>hmem := fill_file ly (hmem s1) d file sz\<rparr>)))"
  using assms unfolding open_cpio_def fill_file_def Let_def by simp

lemma open_cpio_number:
  assumes "open_cpio A ly lib ar path flags (f, s) = Some (Inr fd, st)"
  shows "fd = fst (allocate_fd lib f)"
  using assms unfolding open_cpio_def
  by (auto simp: Let_def split: prod.splits option.splits if_splits sum.splits)

lemma open_cpio_missing:
  "flags AND O_ACCMODE = O_RDONLY \<Longrightarrow> find_file ar (Some path) = None \<Longrightarrow>
     open_cpio A ly lib ar (Some path) flags st = Some (Inl ENOENT, st)"
  by (cases st) (simp add: open_cpio_def)

text \<open>The object filled in a new block, and the entry of the descriptor made to point to it.\<close>

lemma filled_opened:
  assumes ly: "layout_ok ly" and n: "heap_rep A s1 (L(d \<mapsto> n))" "L d = None" "keeps A L s s1"
    and le: "unat (sizeof_cpio ly) \<le> n"
    and fd: "0 \<le> fd" "valid_fd lib fd"
    and get: "get_fd_struct lib f' fd = Some (fds\<lparr>filetype := FILE_TYPE_CPIO, fd_data := d\<rparr>)"
  shows "opened A ly lib L s file sz fd f' (s1\<lparr>hmem := fill_file ly (hmem s1) d file sz\<rparr>)"
proof -
  have lp: "(L(d \<mapsto> n)) d = Some n" by simp
  note lb = live_bounds [where L = "L(d \<mapsto> n)", OF n(1) lp]
  have lim: "unat d + unat (sizeof_cpio ly) < 2 ^ 64" using lb(4) le by linarith
  have out: "fill_file ly (hmem s1) d file sz x = hmem s1 x" if "\<not> (unat d \<le> unat x \<and> unat x < unat d + n)" for x
    by (rule fill_file_outside [OF ly lim]) (use that le in linarith)
  note F = fill_new [OF n out]
  show ?thesis
    unfolding opened_def cpio_file_for_fd_def
    by (intro conjI exI [of _ d] exI [of _ n])
      (use fd n(2) le F fill_file_fields [OF ly lim] lb(6) get in simp_all)
qed

lemma open_cpio_rep:
  assumes rep: "heap_rep A s L" and ly: "layout_ok ly" and lib: "fdlib_ok lib"
    and fl: "flags AND O_ACCMODE = O_RDONLY" and ff: "find_file ar (Some path) = Some (file, sz)"
  shows "\<exists>r f' s'. open_cpio A ly lib ar (Some path) flags (f, s) = Some (r, (f', s')) \<and>
    (case r of Inl e \<Rightarrow> (e = EMFILE \<or> e = ENOMEM) \<and> s' = s
     | Inr fd \<Rightarrow> opened A ly lib L s file sz fd f' s')"
proof -
  obtain fd f1 where al: "allocate_fd lib f = (fd, f1)" by fastforce
  note eq = open_cpio_found [OF fl ff al, of A ly s]
  have m: "measurable (sizeof_cpio ly)" using ly by (simp add: measurable_def layout_ok_def)
  obtain r s1 where a: "malloc A (sizeof_cpio ly) s = Some (r, s1)"
    and post: "case r of Inl e \<Rightarrow> e = ENOMEM \<and> s1 = s
               | Inr p \<Rightarrow> alloc_post A L (fit_size (sizeof_cpio ly)) 16 s p s1"
    using malloc_rep [OF rep m] by blast
  show ?thesis
  proof (cases "fd = - EMFILE_number")
    case True
    then show ?thesis unfolding eq by simp
  next
    case False
    then obtain fds where fd: "0 \<le> fd" "valid_fd lib fd" "get_fd_struct lib f1 fd = Some fds"
      using lib al unfolding fdlib_ok_def by blast
    have put: "get_fd_struct lib (put_fd_struct lib fd v g) fd = Some v" for v g
      using lib fd(2) unfolding fdlib_ok_def by blast
    show ?thesis
    proof (cases r)
      case (Inl e)
      with post a False fd show ?thesis unfolding eq Let_def by simp
    next
      case (Inr d)
      with post obtain n where n: "heap_rep A s1 (L(d \<mapsto> n))" "L d = None" "keeps A L s s1"
        "unat (fit_size (sizeof_cpio ly)) \<le> n" by (auto elim: alloc_postD)
      have le: "unat (sizeof_cpio ly) \<le> n" using n(4) fit_size_le [of "sizeof_cpio ly"] by linarith
      note filled_opened [OF ly n(1-3) le fd(1,2) put]
      then show ?thesis unfolding eq Let_def using a Inr False fd(3) by simp
    qed
  qed
qed

lemma open_path_archive:
  assumes "flags AND O_ACCMODE = O_RDONLY" and "normalize_path (Some path) = Some path'"
  shows "open_path (ruby_sys_openat A ly lib ar) (Some path) flags st =
    open_cpio A ly lib ar (Some path') O_RDONLY st"
  using assms by (simp add: open_path_def ruby_sys_openat_def)

lemma open_path_rep:
  assumes "heap_rep A s L" and "layout_ok ly" and "fdlib_ok lib" and "flags AND O_ACCMODE = O_RDONLY"
    and "find_file ar (normalize_path (Some path)) = Some (file, sz)"
  shows "\<exists>r f' s'. open_path (ruby_sys_openat A ly lib ar) (Some path) flags (f, s) = Some (r, (f', s')) \<and>
    (case r of Inl e \<Rightarrow> (e = EMFILE \<or> e = ENOMEM) \<and> s' = s
     | Inr fd \<Rightarrow> fd = fst (allocate_fd lib f) \<and> opened A ly lib L s file sz fd f' s')"
proof -
  obtain path' where np: "normalize_path (Some path) = Some path'" by (simp add: normalize_path_def)
  have ro: "O_RDONLY AND O_ACCMODE = O_RDONLY" by (simp add: O_RDONLY_def)
  from open_cpio_rep [OF assms(1-3) ro assms(5) [unfolded np], of f]
    open_cpio_number [of A ly lib ar "Some path'" O_RDONLY f s]
  show ?thesis unfolding open_path_archive [OF assms(4) np] by (fastforce split: sum.splits)
qed

text \<open>With a descriptor and room for the object, opening a file of the archive succeeds.\<close>

lemma open_path_room:
  assumes "heap_rep A s L" and "layout_ok ly" and "fdlib_ok lib" and "flags AND O_ACCMODE = O_RDONLY"
    and "find_file ar (normalize_path (Some path)) = Some (file, sz)"
    and "fst (allocate_fd lib f) \<noteq> - EMFILE_number"
    and "unat (ruby_alloc_offset s) + 4160 \<le> 67108864"
  shows "\<exists>fd f' s'. open_path (ruby_sys_openat A ly lib ar) (Some path) flags (f, s) = Some (Inr fd, (f', s')) \<and>
    unat (ruby_alloc_offset s') \<le> unat (ruby_alloc_offset s) + 4160"
proof -
  obtain path' where np: "normalize_path (Some path) = Some path'" by (simp add: normalize_path_def)
  have ro: "O_RDONLY AND O_ACCMODE = O_RDONLY" by (simp add: O_RDONLY_def)
  obtain fd f1 where al: "allocate_fd lib f = (fd, f1)" by fastforce
  obtain fds where fds: "get_fd_struct lib f1 fd = Some fds"
    using assms(3,6) al unfolding fdlib_ok_def by fastforce
  have sz: "unat (sizeof_cpio ly) \<le> 4096" using assms(2) by (simp add: layout_ok_def)
  then obtain p s1 where "malloc A (sizeof_cpio ly) s = Some (Inr p, s1)"
    "unat (ruby_alloc_offset s1) \<le> unat (ruby_alloc_offset s) + unat (sizeof_cpio ly) + 64"
    using malloc_room [OF assms(1), of "sizeof_cpio ly"] assms(7) by auto
  then show ?thesis
    unfolding open_path_archive [OF assms(4) np] open_cpio_found [OF ro assms(5) [unfolded np] al]
    using assms(6) al fds sz by (auto simp: Let_def)
qed

text \<open>What lies outside the arena is as it was after any step inside it.\<close>

lemma outside_bytes:
  assumes "keeps A L s s'" and "unat A + 67108864 < 2 ^ 64" and "i < n"
    and "unat start + n \<le> unat A \<or> unat A + 67108864 \<le> unat start \<and> unat start + n < 2 ^ 64"
  shows "hmem s' (start + of_nat i) = hmem s (start + of_nat i)"
proof (rule keeps_outside [OF assms(1)])
  have "unat (start + of_nat i) = unat start + i"
    by (rule unat_offset [where n = n]) (use assms in auto)
  then show "unat (start + of_nat i) < unat A \<or> unat A + 67108864 \<le> unat (start + of_nat i)"
    using assms(3,4) by linarith
qed

text \<open>Mapping what has just been opened.\<close>

lemma opened_mmap:
  assumes o: "opened A ly lib L s file sz fd f' s'" and ly: "layout_ok ly" and sz: "unat sz < 2 ^ 32"
    and ext: "unat file + unat sz \<le> unat A \<or> unat A + 67108864 \<le> unat file \<and> unat file + unat sz < 2 ^ 64"
    and arena: "unat A + 67108864 < 2 ^ 64" and len: "len \<noteq> 0" and fl: "mflags AND MAP_ANONYMOUS = 0"
  shows "\<exists>r2 s2. mmap A ly lib f' len mflags fd 0 s' = Some (r2, s2) \<and>
    (case r2 of Inl e \<Rightarrow> e = ENOMEM
     | Inr p \<Rightarrow> 4096 dvd unat p \<and> (\<forall>i < (unat len + 4095) div 4096 * 4096.
         hmem s2 (p + of_nat i) = (if i < unat len \<and> i < unat sz then hmem s (file + of_nat i) else 0)))"
proof -
  from o obtain d k where d: "0 \<le> fd" "unat (sizeof_cpio ly) \<le> k" "heap_rep A s' (L(d \<mapsto> k))"
    "keeps A L s s'" "cpio_file_for_fd lib f' fd = Some d" "cpio_start ly (hmem s') d = file"
    "cpio_size ly (hmem s') d = ucast sz" by (auto simp: opened_def)
  have sz': "unat (ucast sz :: u32) = unat sz" using sz by (simp add: unsigned_ucast_eq take_bit_nat_eq_self_iff)
  have fok: "file_ok A ly s' (L(d \<mapsto> k)) d"
    unfolding file_ok_def d(6,7) Let_def sz' using ly ext d(2) by auto
  have off: "sint (0 :: u64) \<ge> 0" "(0 :: u64) \<le> ucast (cpio_size ly (hmem s') d)" by simp_all
  obtain r2 s2 where run: "mmap A ly lib f' len mflags fd 0 s' = Some (r2, s2)"
    and post: "case r2 of Inl e \<Rightarrow> e = ENOMEM \<and> s2 = s' | Inr p \<Rightarrow> (L(d \<mapsto> k)) p = None \<and>
       4096 dvd unat p \<and> keeps A (L(d \<mapsto> k)) s' s2 \<and>
       (\<exists>n\<ge>unat (page_round len). heap_rep A s2 (L(d \<mapsto> k, p \<mapsto> n))) \<and>
       (\<forall>i < unat (page_round len). hmem s2 (p + of_nat i) =
          (if i < unat len \<and> unat (0 :: u64) + i < unat (cpio_size ly (hmem s') d)
           then hmem s' (cpio_start ly (hmem s') d + 0 + of_nat i) else 0))"
    using mmap_file_rep [where L = "L(d \<mapsto> k)", OF d(3) len fl d(1,5) fok off] by blast
  show ?thesis
  proof (cases r2)
    case (Inl e)
    then show ?thesis using run post by simp
  next
    case (Inr p)
    have pr: "unat (page_round len) = (unat len + 4095) div 4096 * 4096"
      by (rule mmap_page_round) (use run Inr in simp)
    from run post Inr show ?thesis unfolding pr d(6,7) sz' by (simp add: outside_bytes [OF d(4) arena _ ext])
  qed
qed

section \<open>Properties of the file surface\<close>

text \<open>
  A file of the archive that is opened and then mapped reads as the archive holds it.
  After \<open>open\<close> through the installed system call the descriptor is served by the mapping
  call: for any length, byte \<open>i\<close> of the mapping is byte \<open>i\<close> of the file up to its size and
  zero after it, to the end of the last page. Both calls fail only for want of a descriptor
  or of memory.
\<close>

lemma open_then_mmap:
  assumes "heap_rep A s L" and "layout_ok ly" and "fdlib_ok lib" and "flags AND O_ACCMODE = O_RDONLY"
    and "find_file ar (normalize_path (Some path)) = Some (file, sz)" and "unat sz < 2 ^ 32"
    and "unat file + unat sz \<le> unat A \<or> unat A + 67108864 \<le> unat file \<and> unat file + unat sz < 2 ^ 64"
    and "len \<noteq> 0" and "mflags AND MAP_ANONYMOUS = 0"
  shows "\<exists>r f' s'. open_path (ruby_sys_openat A ly lib ar) (Some path) flags (f, s) = Some (r, (f', s')) \<and>
    (case r of Inl e \<Rightarrow> e = EMFILE \<or> e = ENOMEM
     | Inr fd \<Rightarrow> \<exists>r2 s2. mmap A ly lib f' len mflags fd 0 s' = Some (r2, s2) \<and>
         (case r2 of Inl e \<Rightarrow> e = ENOMEM
          | Inr p \<Rightarrow> 4096 dvd unat p \<and> (\<forall>i < (unat len + 4095) div 4096 * 4096.
              hmem s2 (p + of_nat i) =
                (if i < unat len \<and> i < unat sz then hmem s (file + of_nat i) else 0))))"
proof -
  obtain r f' s' where run: "open_path (ruby_sys_openat A ly lib ar) (Some path) flags (f, s) = Some (r, (f', s'))"
    and post: "case r of Inl e \<Rightarrow> (e = EMFILE \<or> e = ENOMEM) \<and> s' = s
               | Inr fd \<Rightarrow> fd = fst (allocate_fd lib f) \<and> opened A ly lib L s file sz fd f' s'"
    using open_path_rep [OF assms(1-5)] by blast
  have arena: "unat A + 67108864 < 2 ^ 64" using heap_rep_arena [OF assms(1)] by (simp add: arena_at_def)
  show ?thesis
  proof (cases r)
    case (Inl e)
    with run post show ?thesis by simp
  next
    case (Inr fd)
    with post have "opened A ly lib L s file sz fd f' s'" by auto
    from opened_mmap [OF this assms(2,6,7) arena assms(8,9)] run Inr show ?thesis by auto
  qed
qed

text \<open>An archive of two files, one of them in a directory.\<close>

definition demo_cpio :: cpio where
  "demo_cpio = \<lparr>
     entry_at = (\<lambda>i. if i = 0 then Some (0x1000, Some ''lib/a.rb'', 5)
                     else if i = 1 then Some (0x1005, Some ''run.rb'', 3) else None),
     file_named = (\<lambda>n. if n = ''lib/a.rb'' then Some (0x1000, 5)
                       else if n = ''run.rb'' then Some (0x1005, 3) else None)\<rparr>"

lemma demo_cpio_ok: "cpio_ok demo_cpio 2"
  unfolding cpio_ok_def demo_cpio_def
  by (auto split: if_splits intro: exI [of _ 0] exI [of _ 1])

lemma demo_lib_ok: "fdlib_ok demo_lib"
  by (auto simp: fdlib_ok_def demo_lib_def EMFILE_number_def split: list.splits if_splits)

lemma demo_path: "find_file demo_cpio (normalize_path (Some ''/lib/a.rb'')) = Some (0x1000, 5)"
  by (simp add: find_file_def normalize_path_def demo_cpio_def)

text \<open>
  C21: \<open>stat\<close> on a path returns for every archive: a regular file with the size of the
  entry when the normalised path names one, otherwise a directory when it is empty or
  some entry lies under it, otherwise \<open>ENOENT\<close>. The scan over the entries ends.
\<close>

theorem stat_classifies:
  assumes "cpio_ok ar n" and "normalize_path (Some path) = Some name"
  shows "stat ar (Some path) False = Some
    (case file_named ar name of
       Some (_, sz) \<Rightarrow> Inr (fill_regular sz)
     | None \<Rightarrow> if name = [] \<or> (\<exists>i a rest sz. entry_at ar i = Some (a, Some (name @ CHR ''/'' # rest), sz))
              then Inr fill_directory else Inl ENOENT)"
  using is_archive_directory_iff [OF assms(1), of name]
  by (auto simp: stat_def find_file_def assms(2) lies_under_def split: option.splits prod.splits bool.splits)

theorem stat_classifies_witness:
  "stat demo_cpio (Some ''/lib'') False = Some (Inr fill_directory) \<and>
   stat demo_cpio (Some ''./run.rb'') False = Some (Inr (fill_regular 3)) \<and>
   stat demo_cpio (Some ''li'') False = Some (Inl ENOENT)"
proof (intro conjI)
  note S = stat_classifies [OF demo_cpio_ok]
  have "entry_at demo_cpio 0 = Some (0x1000, Some (''lib'' @ CHR ''/'' # ''a.rb''), 5)"
    by (simp add: demo_cpio_def)
  then show "stat demo_cpio (Some ''/lib'') False = Some (Inr fill_directory)"
    by (subst S [of _ "''lib''"]) (auto simp: normalize_path_def demo_cpio_def)
  show "stat demo_cpio (Some ''./run.rb'') False = Some (Inr (fill_regular 3))"
    by (subst S [of _ "''run.rb''"]) (simp_all add: normalize_path_def demo_cpio_def)
  show "stat demo_cpio (Some ''li'') False = Some (Inl ENOENT)"
    by (subst S [of _ "''li''"]) (auto simp: normalize_path_def demo_cpio_def)
qed

lemma normalize_absolute:
  assumes "name = [] \<or> hd name \<noteq> CHR ''/''" and "take 2 name \<noteq> ''./''"
  shows "normalize_path (Some (CHR ''/'' # name)) = Some name" and "normalize_path (Some name) = Some name"
  using skip_slashes_id [OF assms(1)] skip_dots_id [OF assms(2)] by (simp_all add: normalize_path_def)

text \<open>
  Every directory on the way to a file of the archive exists. When the archive holds
  an entry \<open>dir/rest\<close> and no file called \<open>dir\<close>, \<open>stat\<close> of \<open>dir\<close>, with or without a
  leading slash, reports a directory, and opening it fails with \<open>ENOENT\<close>; the root is a
  directory as \<open>/\<close>. This is what a walk that checks every prefix of a path relies on.
\<close>

lemma stat_prefix_directories:
  assumes "cpio_ok ar n" and "entry_at ar i = Some (a, Some (dir @ CHR ''/'' # rest), sz)"
    and "file_named ar dir = None" and "dir = [] \<or> hd dir \<noteq> CHR ''/''" and "take 2 dir \<noteq> ''./''"
  shows "stat ar (Some (CHR ''/'' # dir)) False = Some (Inr fill_directory) \<and>
    stat ar (Some dir) False = Some (Inr fill_directory) \<and>
    (file_named ar [] = None \<longrightarrow> stat ar (Some ''/'') False = Some (Inr fill_directory)) \<and>
    open_path (ruby_sys_openat A ly lib ar) (Some dir) O_RDONLY st = Some (Inl ENOENT, st)"
proof -
  have isdir: "is_archive_directory ar (Some dir) = Some True"
    unfolding is_archive_directory_iff [OF assms(1)] lies_under_def using assms(2) by blast
  note np = normalize_absolute [OF assms(4,5)]
  have none: "find_file ar (Some dir) = None" "find_file ar (Some (CHR ''/'' # dir)) = None"
    using assms(3) by (simp_all add: find_file_def np)
  have ro: "O_RDONLY AND O_ACCMODE = O_RDONLY" by (simp add: O_RDONLY_def)
  have root: "normalize_path (Some ''/'') = Some []" by (simp add: normalize_path_def)
  have "open_path (ruby_sys_openat A ly lib ar) (Some dir) O_RDONLY st = Some (Inl ENOENT, st)"
    by (simp add: open_path_def ro np(2) ruby_sys_openat_def open_cpio_missing [OF ro none(1)])
  moreover have "stat ar (Some (CHR ''/'' # dir)) False = Some (Inr fill_directory)"
    "stat ar (Some dir) False = Some (Inr fill_directory)"
    by (simp_all add: stat_def none np isdir)
  moreover have "stat ar (Some ''/'') False = Some (Inr fill_directory)" if "file_named ar [] = None"
    using that by (simp add: stat_def find_file_def root is_archive_directory_def)
  ultimately show ?thesis by blast
qed

lemma fstat_opened:
  assumes "opened A ly lib L s file sz fd f' s'" and "2 < fd"
  shows "fstat ly lib fd False (f', s') = Inr (fill_regular (sz mod 2 ^ 32))"
proof -
  obtain d where d: "valid_fd lib fd" "cpio_file_for_fd lib f' fd = Some d" "cpio_size ly (hmem s') d = ucast sz"
    using assms(1) by (auto simp: opened_def)
  then obtain fds where fds: "get_fd_struct lib f' fd = Some fds" "filetype fds = FILE_TYPE_CPIO"
    "fd_data fds = d" "d \<noteq> 0"
    by (auto simp: cpio_file_for_fd_def split: if_splits option.splits)
  have "ucast (ucast sz :: u32) = sz mod 2 ^ 32"
    unfolding word_unat_eq_iff by (simp add: unsigned_ucast_eq unsigned_take_bit_eq unat_mod take_bit_eq_mod)
  with d fds assms(2) show ?thesis by (simp add: fstat_def)
qed

lemma fill_regular_mod: "fill_regular sz = fill_regular (sz mod 2 ^ 32) \<longleftrightarrow> unat sz < 2 ^ 32"
proof -
  have "st_size (fill_regular n) = n" for n by (simp add: fill_regular_def)
  then have "fill_regular sz = fill_regular (sz mod 2 ^ 32) \<longleftrightarrow> sz = sz mod 2 ^ 32" by metis
  also have "\<dots> \<longleftrightarrow> unat sz = unat sz mod 2 ^ 32" by (simp add: word_unat_eq_iff unat_mod)
  also have "\<dots> \<longleftrightarrow> unat sz < 2 ^ 32" by (metis mod_less mod_less_divisor zero_less_numeral zero_less_power)
  finally show ?thesis .
qed

text \<open>
  C22: the status of a descriptor that \<open>open\<close> returned, whatever the path, is that of the
  entry the path names once it is normalised twice: a regular file of the entry's size
  modulo \<open>2^32\<close>. It agrees with \<open>stat\<close> of the path normalised once exactly when the file is
  smaller than 4 GiB, and with \<open>stat\<close> of the path itself as soon as, besides that, the
  second normalisation changes nothing. The three standard descriptors are character
  devices whatever the table holds.
\<close>

theorem fstat_agrees_with_stat:
  assumes "heap_rep A s L" and "layout_ok ly" and "fdlib_ok lib"
    and "open_path (ruby_sys_openat A ly lib ar) (Some path) flags (f, s) = Some (Inr fd, st)" and "2 < fd"
  shows "\<exists>name file sz. normalize_path (normalize_path (Some path)) = Some name \<and>
    file_named ar name = Some (file, sz) \<and>
    fstat ly lib fd False st = Inr (fill_regular (sz mod 2 ^ 32)) \<and>
    (stat ar (normalize_path (Some path)) False = Some (fstat ly lib fd False st) \<longleftrightarrow> unat sz < 2 ^ 32) \<and>
    (normalize_path (Some path) = Some name \<longrightarrow>
       (stat ar (Some path) False = Some (fstat ly lib fd False st) \<longleftrightarrow> unat sz < 2 ^ 32)) \<and>
    (\<forall>k. 0 \<le> k \<and> k \<le> 2 \<longrightarrow>
       (\<exists>r. fstat ly lib k False st = Inr r \<and> st_mode r = 0x2180 \<and> st_size r = 0))"
proof -
  have ro: "O_RDONLY AND O_ACCMODE = O_RDONLY" by (simp add: O_RDONLY_def)
  obtain p1 where p1: "normalize_path (Some path) = Some p1" by (simp add: normalize_path_def)
  obtain name where name: "normalize_path (Some p1) = Some name" by (simp add: normalize_path_def)
  have run: "open_cpio A ly lib ar (Some p1) O_RDONLY (f, s) = Some (Inr fd, st)"
    using assms(4) by (simp add: open_path_def p1 ruby_sys_openat_def split: if_splits)
  then obtain a sz where ff: "find_file ar (Some p1) = Some (a, sz)"
    using open_cpio_missing [OF ro, of ar p1 A ly lib "(f, s)"] by (cases "find_file ar (Some p1)") auto
  obtain f' s' where st: "st = (f', s')" by fastforce
  have "opened A ly lib L s a sz fd f' s'"
    using open_cpio_rep [OF assms(1-3) ro ff, of f] run st by auto
  note fst = fstat_opened [OF this assms(5), folded st]
  have named: "file_named ar name = Some (a, sz)" using ff name by (simp add: find_file_def)
  have "stat ar (Some p1) False = Some (Inr (fill_regular sz))"
    "p1 = name \<Longrightarrow> stat ar (Some path) False = Some (Inr (fill_regular sz))"
    using p1 named ff by (simp_all add: stat_def find_file_def)
  then show ?thesis
    using fst named name p1 fill_regular_mod [of sz]
    by (intro exI [of _ name] exI [of _ a] exI [of _ sz])
      (auto simp: fstat_def S_IFCHR_def S_IRUSR_def S_IWUSR_def zeroed_stat_def)
qed

lemma demo_open_run:
  "\<exists>st. open_path (ruby_sys_openat demo_arena demo_layout demo_lib demo_cpio) (Some ''/lib/a.rb'') O_RDONLY
      (demo_fds, initial_heap (\<lambda>_. 0)) = Some (Inr 3, st)"
  by (simp add: open_path_def ruby_sys_openat_def O_RDONLY_def open_cpio_def normalize_path_def find_file_def
      demo_cpio_def demo_lib_def demo_fds_def EMFILE_number_def malloc_def arena_alloc_def
      reuse_free_block_def reuse_loop.simps initial_heap_def demo_layout_def DEFAULT_ALIGNMENT_def
      is_power_of_two_def align_up_def HEADER_SIZE_def RUBY_ALLOC_ARENA_SIZE_def demo_arena_def
      header_payload_def Let_def)

theorem fstat_agrees_with_stat_witness:
  "\<exists>st. open_path (ruby_sys_openat demo_arena demo_layout demo_lib demo_cpio) (Some ''/lib/a.rb'') O_RDONLY
      (demo_fds, initial_heap (\<lambda>_. 0)) = Some (Inr 3, st) \<and>
    fstat demo_layout demo_lib 3 False st = Inr (fill_regular 5) \<and>
    stat demo_cpio (Some ''/lib/a.rb'') False = Some (fstat demo_layout demo_lib 3 False st)"
proof -
  obtain st where run: "open_path (ruby_sys_openat demo_arena demo_layout demo_lib demo_cpio)
      (Some ''/lib/a.rb'') O_RDONLY (demo_fds, initial_heap (\<lambda>_. 0)) = Some (Inr 3, st)"
    using demo_open_run by blast
  have n: "normalize_path (Some ''/lib/a.rb'') = Some ''lib/a.rb''"
    "normalize_path (Some ''lib/a.rb'') = Some ''lib/a.rb''"
    "file_named demo_cpio ''lib/a.rb'' = Some (0x1000, 5)"
    by (simp_all add: normalize_path_def demo_cpio_def)
  from fstat_agrees_with_stat [OF initial_rep [OF demo_arena_at] demo_layout_ok demo_lib_ok run] n
  have "fstat demo_layout demo_lib 3 False st = Inr (fill_regular 5)"
    "stat demo_cpio (Some ''/lib/a.rb'') False = Some (fstat demo_layout demo_lib 3 False st)" by auto
  with run show ?thesis by blast
qed

text \<open>
  The refusals of \<open>open\<close> leave descriptors and heap as they were: a null path is
  \<open>EFAULT\<close>, any access mode but read-only is \<open>EROFS\<close>, a path with no entry is \<open>ENOENT\<close>;
  and when memory runs out after a descriptor was taken, that descriptor is given back.
\<close>

lemma open_refusals:
  "open_path sys None flags st = Some (Inl EFAULT, st) \<and>
   (flags AND O_ACCMODE \<noteq> O_RDONLY \<longrightarrow>
      open_path sys (Some path) flags st = Some (Inl EROFS, st) \<and>
      open_cpio A ly lib ar (Some path) flags (f, s) = Some (Inl EROFS, (f, s))) \<and>
   (flags AND O_ACCMODE = O_RDONLY \<and> find_file ar (Some path) = None \<longrightarrow>
      open_cpio A ly lib ar (Some path) flags (f, s) = Some (Inl ENOENT, (f, s))) \<and>
   (flags AND O_ACCMODE = O_RDONLY \<and> find_file ar (Some path) = Some (file, sz) \<and>
      malloc A (sizeof_cpio ly) s = Some (Inl e, s1) \<and> allocate_fd lib f = (fd, f1) \<and>
      fd \<noteq> - EMFILE_number \<and> get_fd_struct lib f1 fd = Some fds \<longrightarrow>
      open_cpio A ly lib ar (Some path) flags (f, s) =
        Some (Inl ENOMEM, (add_free_fd lib fd
          (put_fd_struct lib fd (fds\<lparr>filetype := FILE_TYPE_CPIO, fd_data := 0\<rparr>)
             (put_fd_struct lib fd (fds\<lparr>filetype := FILE_TYPE_CPIO\<rparr>) f1)), s1)))"
proof (intro conjI impI)
  show "open_path sys None flags st = Some (Inl EFAULT, st)" by (simp add: open_path_def)
  show "open_path sys (Some path) flags st = Some (Inl EROFS, st)"
    "open_cpio A ly lib ar (Some path) flags (f, s) = Some (Inl EROFS, (f, s))"
    if "flags AND O_ACCMODE \<noteq> O_RDONLY"
    using that by (simp_all add: open_path_def open_cpio_def)
  show "open_cpio A ly lib ar (Some path) flags (f, s) = Some (Inl ENOENT, (f, s))"
    if "flags AND O_ACCMODE = O_RDONLY \<and> find_file ar (Some path) = None"
    using that open_cpio_missing by blast
  assume h: "flags AND O_ACCMODE = O_RDONLY \<and> find_file ar (Some path) = Some (file, sz) \<and>
      malloc A (sizeof_cpio ly) s = Some (Inl e, s1) \<and> allocate_fd lib f = (fd, f1) \<and>
      fd \<noteq> - EMFILE_number \<and> get_fd_struct lib f1 fd = Some fds"
  then show "open_cpio A ly lib ar (Some path) flags (f, s) =
      Some (Inl ENOMEM, (add_free_fd lib fd
        (put_fd_struct lib fd (fds\<lparr>filetype := FILE_TYPE_CPIO, fd_data := 0\<rparr>)
           (put_fd_struct lib fd (fds\<lparr>filetype := FILE_TYPE_CPIO\<rparr>) f1)), s1))"
    by (elim conjE) (simp add: open_cpio_found Let_def)
qed

text \<open>
  C37: \<open>open\<close> and \<open>stat\<close> can disagree about the same path. The wrapper normalises before
  the system call and the system call normalises again, while \<open>stat\<close> normalises once, and
  one pass strips slashes only before it strips \<open>./\<close>: with the path \<open>.//name\<close>, \<open>open\<close>
  behaves as for \<open>name\<close> and \<open>stat\<close> looks for \<open>/name\<close>.
\<close>

theorem open_normalizes_twice:
  assumes "cpio_ok ar n" and "name = [] \<or> hd name \<noteq> CHR ''/''" and "take 2 name \<noteq> ''./''"
    and "file_named ar (CHR ''/'' # name) = None" and "\<forall>j. \<not> lies_under ar (CHR ''/'' # name) j"
  shows "open_path (ruby_sys_openat A ly lib ar) (Some (''.//'' @ name)) O_RDONLY st =
      open_path (ruby_sys_openat A ly lib ar) (Some name) O_RDONLY st \<and>
    stat ar (Some (''.//'' @ name)) False = Some (Inl ENOENT)"
proof -
  note np = normalize_absolute [OF assms(2,3)]
  have sl: "skip_dot_slashes (CHR ''/'' # name) = CHR ''/'' # name"
    by (rule skip_dots_id) (cases name, auto)
  have twice: "normalize_path (Some (''.//'' @ name)) = Some (CHR ''/'' # name)"
    by (simp add: normalize_path_def sl)
  have same: "find_file ar (Some (CHR ''/'' # name)) = find_file ar (Some name)"
    by (simp add: find_file_def np)
  have "open_cpio A ly lib ar (Some (CHR ''/'' # name)) O_RDONLY st =
      open_cpio A ly lib ar (Some name) O_RDONLY st"
    unfolding open_cpio_def same by simp
  moreover have "stat ar (Some (''.//'' @ name)) False = Some (Inl ENOENT)"
    using assms(4,5) is_archive_directory_iff [OF assms(1), of "CHR ''/'' # name"] twice
    by (simp add: stat_def find_file_def)
  ultimately show ?thesis using twice np(2) by (simp add: open_path_def O_RDONLY_def ruby_sys_openat_def)
qed

theorem open_normalizes_twice_witness:
  "stat demo_cpio (Some ''.//run.rb'') False = Some (Inl ENOENT) \<and>
   stat demo_cpio (Some ''run.rb'') False = Some (Inr (fill_regular 3))"
proof -
  have h: "''run.rb'' = [] \<or> hd ''run.rb'' \<noteq> CHR ''/''" "take 2 ''run.rb'' \<noteq> ''./''"
    "file_named demo_cpio (CHR ''/'' # ''run.rb'') = None" "\<forall>j. \<not> lies_under demo_cpio (CHR ''/'' # ''run.rb'') j"
    by (simp_all add: demo_cpio_def lies_under_def)
  from open_normalizes_twice [OF demo_cpio_ok h]
  have "stat demo_cpio (Some (''.//'' @ ''run.rb'')) False = Some (Inl ENOENT)" by (rule conjunct2)
  then have "stat demo_cpio (Some ''.//run.rb'') False = Some (Inl ENOENT)" by simp
  moreover have "stat demo_cpio (Some ''run.rb'') False = Some (Inr (fill_regular 3))"
    by (simp add: stat_def find_file_def normalize_path_def demo_cpio_def)
  ultimately show ?thesis by blast
qed

end
