(* ===== verification/Fake_Fd.thy ===== *)
theory Fake_Fd
  imports CMem
begin

text \<open>
  The descriptors that are not kernel objects, from \<^verbatim>\<open>stub/ruby_syscall_poll.c\<close>:
  \<open>eventfd\<close> as a counter and \<open>epoll\<close> as a list of watches, with \<open>read\<close>, \<open>write\<close>,
  \<open>close\<close> and \<open>fcntl\<close> on them.

  A pointer into one of the two static tables is the index of the entry. Calls on any
  other descriptor go to the real system call, which is the parameter \<open>os\<close>: it works on
  the world \<open>os_world\<close> behind the tables, its answer is returned as it is, and the tables do
  not change.
\<close>

section \<open>Tables searched from the front\<close>

fun first_index :: "('a \<Rightarrow> bool) \<Rightarrow> 'a list \<Rightarrow> nat option" where
  "first_index P [] = None"
| "first_index P (x # xs) = (if P x then Some 0 else map_option Suc (first_index P xs))"

lemma first_index_None: "first_index P xs = None \<longleftrightarrow> (\<forall>x\<in>set xs. \<not> P x)"
  by (induction xs) auto

lemma first_index_Some:
  "first_index P xs = Some i \<longleftrightarrow> i < length xs \<and> P (xs ! i) \<and> (\<forall>j<i. \<not> P (xs ! j))"
proof (induction xs arbitrary: i)
  case Nil
  then show ?case by simp
next
  case (Cons x xs)
  show ?case using Cons.IH by (cases i) (auto simp: nth_Cons' less_Suc_eq_0_disj)
qed

section \<open>State\<close>

definition FAKE_EVENTFD_BASE :: int where "FAKE_EVENTFD_BASE = 1000"
definition FAKE_EVENTFD_COUNT :: nat where "FAKE_EVENTFD_COUNT = 4"
definition FAKE_EPOLL_BASE :: int where "FAKE_EPOLL_BASE = 1100"
definition FAKE_EPOLL_COUNT :: nat where "FAKE_EPOLL_COUNT = 2"
definition FAKE_EPOLL_WATCH_COUNT :: nat where "FAKE_EPOLL_WATCH_COUNT = 8"

record fake_eventfd =
  ev_used :: bool
  ev_fd :: int
  ev_flags :: u32
  ev_counter :: u64

record epoll_event =
  ee_events :: u32
  ee_data :: u64

record fake_epoll_watch =
  w_used :: bool
  w_fd :: int
  w_event :: epoll_event

record fake_epoll =
  ep_used :: bool
  ep_fd :: int
  ep_flags :: u32
  watches :: "fake_epoll_watch list"

text \<open>The two tables, and the world in which the real system calls work.\<close>

record 'w fake_fds =
  fake_eventfds :: "fake_eventfd list"
  fake_epolls :: "fake_epoll list"
  os_world :: 'w

definition zero_watch :: fake_epoll_watch where
  "zero_watch = \<lparr>w_used = False, w_fd = 0, w_event = \<lparr>ee_events = 0, ee_data = 0\<rparr>\<rparr>"

definition zero_watches :: "fake_epoll_watch list" where
  "zero_watches = replicate FAKE_EPOLL_WATCH_COUNT zero_watch"

definition initial_fds :: "'w \<Rightarrow> 'w fake_fds" where
  "initial_fds w = \<lparr>
     fake_eventfds = replicate FAKE_EVENTFD_COUNT \<lparr>ev_used = False, ev_fd = 0, ev_flags = 0, ev_counter = 0\<rparr>,
     fake_epolls = replicate FAKE_EPOLL_COUNT
       \<lparr>ep_used = False, ep_fd = 0, ep_flags = 0, watches = zero_watches\<rparr>, os_world = w\<rparr>"

definition fake_eventfd_from_fd :: "'w fake_fds \<Rightarrow> int \<Rightarrow> nat option" where
  "fake_eventfd_from_fd st fd = first_index (\<lambda>e. ev_used e \<and> ev_fd e = fd) (fake_eventfds st)"

definition fake_epoll_from_fd :: "'w fake_fds \<Rightarrow> int \<Rightarrow> nat option" where
  "fake_epoll_from_fd st fd = first_index (\<lambda>e. ep_used e \<and> ep_fd e = fd) (fake_epolls st)"

definition put_event :: "nat \<Rightarrow> fake_eventfd \<Rightarrow> 'w fake_fds \<Rightarrow> 'w fake_fds" where
  "put_event i e st = st\<lparr>fake_eventfds := (fake_eventfds st)[i := e]\<rparr>"

definition put_epoll :: "nat \<Rightarrow> fake_epoll \<Rightarrow> 'w fake_fds \<Rightarrow> 'w fake_fds" where
  "put_epoll i e st = st\<lparr>fake_epolls := (fake_epolls st)[i := e]\<rparr>"

section \<open>Creating descriptors\<close>

definition eventfd :: "u32 \<Rightarrow> u32 \<Rightarrow> 'w fake_fds \<Rightarrow> int result \<times> 'w fake_fds" where
  "eventfd initval flags st =
     (case first_index (\<lambda>e. \<not> ev_used e) (fake_eventfds st) of
        None \<Rightarrow> (Inl EMFILE, st)
      | Some i \<Rightarrow>
          (Inr (FAKE_EVENTFD_BASE + int i),
           put_event i \<lparr>ev_used = True, ev_fd = FAKE_EVENTFD_BASE + int i, ev_flags = flags,
             ev_counter = ucast initval\<rparr> st))"

definition epoll_create1 :: "u32 \<Rightarrow> 'w fake_fds \<Rightarrow> int result \<times> 'w fake_fds" where
  "epoll_create1 flags st =
     (case first_index (\<lambda>e. \<not> ep_used e) (fake_epolls st) of
        None \<Rightarrow> (Inl EMFILE, st)
      | Some i \<Rightarrow>
          (Inr (FAKE_EPOLL_BASE + int i),
           put_epoll i \<lparr>ep_used = True, ep_fd = FAKE_EPOLL_BASE + int i, ep_flags = flags,
             watches = zero_watches\<rparr> st))"

definition epoll_create :: "int \<Rightarrow> 'w fake_fds \<Rightarrow> int result \<times> 'w fake_fds" where
  "epoll_create sz st = (if sz \<le> 0 then (Inl EINVAL, st) else epoll_create1 0 st)"

section \<open>The real system calls, as a parameter\<close>

text \<open>
  Each works on a world \<open>'w\<close>. What a read stores in its buffers is its result; the flag
  before a length says whether the buffer is null.
\<close>

type_synonym iov = "bool \<times> u64"

record 'w os_calls =
  os_read :: "int \<Rightarrow> bool \<Rightarrow> u64 \<Rightarrow> 'w \<Rightarrow> byte list result \<times> 'w"
  os_readv :: "int \<Rightarrow> iov list \<Rightarrow> 'w \<Rightarrow> byte list result \<times> 'w"
  os_write :: "int \<Rightarrow> byte list option \<Rightarrow> u64 \<Rightarrow> 'w \<Rightarrow> u64 result \<times> 'w"
  os_close :: "int \<Rightarrow> 'w \<Rightarrow> int result \<times> 'w"
  os_epoll_ctl :: "int \<Rightarrow> int \<Rightarrow> int \<Rightarrow> epoll_event option \<Rightarrow> 'w \<Rightarrow> int result \<times> 'w"
  os_epoll_wait :: "int \<Rightarrow> bool \<Rightarrow> int \<Rightarrow> int \<Rightarrow> 'w \<Rightarrow> epoll_event list result \<times> 'w"

definition syscall :: "('w \<Rightarrow> 'r \<times> 'w) \<Rightarrow> 'w fake_fds \<Rightarrow> 'r \<times> 'w fake_fds" where
  "syscall call st = (let (r, w) = call (os_world st) in (r, st\<lparr>os_world := w\<rparr>))"

section \<open>epoll\<close>

definition EPOLLIN :: u32 where "EPOLLIN = 1"

datatype epoll_op = EPOLL_CTL_ADD | EPOLL_CTL_DEL | EPOLL_CTL_MOD | EPOLL_CTL_OTHER int

definition epoll_op_of :: "int \<Rightarrow> epoll_op" where
  "epoll_op_of n = (if n = 1 then EPOLL_CTL_ADD else if n = 2 then EPOLL_CTL_DEL
     else if n = 3 then EPOLL_CTL_MOD else EPOLL_CTL_OTHER n)"

text \<open>One \<open>switch\<close> of \<open>epoll_ctl\<close>, on the watches of the instance.\<close>

definition ctl_watches ::
    "epoll_op \<Rightarrow> int \<Rightarrow> epoll_event option \<Rightarrow> fake_epoll_watch list \<Rightarrow> int result \<times> fake_epoll_watch list" where
  "ctl_watches op fd event ws =
     (let found = first_index (\<lambda>w. w_used w \<and> w_fd w = fd) ws in
      case op of
        EPOLL_CTL_ADD \<Rightarrow>
          (case event of
             None \<Rightarrow> (Inl EINVAL, ws)
           | Some ev \<Rightarrow>
               if found \<noteq> None then (Inl EEXIST, ws)
               else case first_index (\<lambda>w. \<not> w_used w) ws of
                 Some i \<Rightarrow> (Inr 0, ws[i := \<lparr>w_used = True, w_fd = fd, w_event = ev\<rparr>])
               | None \<Rightarrow> (Inl ENOSPC, ws))
      | EPOLL_CTL_MOD \<Rightarrow>
          (case event of
             None \<Rightarrow> (Inl EINVAL, ws)
           | Some ev \<Rightarrow>
               (case found of
                  Some i \<Rightarrow> (Inr 0, ws[i := (ws ! i)\<lparr>w_event := ev\<rparr>])
                | None \<Rightarrow> (Inl ENOENT, ws)))
      | EPOLL_CTL_DEL \<Rightarrow>
          (case found of
             Some i \<Rightarrow> (Inr 0, ws[i := (ws ! i)\<lparr>w_used := False\<rparr>])
           | None \<Rightarrow> (Inl ENOENT, ws))
      | EPOLL_CTL_OTHER n \<Rightarrow> (Inl EINVAL, ws))"

definition epoll_ctl ::
    "'w os_calls \<Rightarrow> int \<Rightarrow> int \<Rightarrow> int \<Rightarrow> epoll_event option \<Rightarrow> 'w fake_fds \<Rightarrow> int result \<times> 'w fake_fds" where
  "epoll_ctl os epfd op fd event st =
     (case fake_epoll_from_fd st epfd of
        None \<Rightarrow> syscall (os_epoll_ctl os epfd op fd event) st
      | Some k \<Rightarrow>
          let e = fake_epolls st ! k;
              (r, ws) = ctl_watches (epoll_op_of op) fd event (watches e)
          in (r, put_epoll k (e\<lparr>watches := ws\<rparr>) st))"

text \<open>The loop of \<open>epoll_wait\<close>: the events stored so far count against \<open>maxevents\<close>.\<close>

fun epoll_scan :: "'w fake_fds \<Rightarrow> nat \<Rightarrow> nat \<Rightarrow> fake_epoll_watch list \<Rightarrow> epoll_event list" where
  "epoll_scan st ready maxevents [] = []"
| "epoll_scan st ready maxevents (w # ws) =
     (if \<not> ready < maxevents then []
      else if \<not> w_used w then epoll_scan st ready maxevents ws
      else case fake_eventfd_from_fd st (w_fd w) of
        None \<Rightarrow> epoll_scan st ready maxevents ws
      | Some i \<Rightarrow>
          if ev_counter (fake_eventfds st ! i) > 0 \<and> ee_events (w_event w) AND EPOLLIN \<noteq> 0
          then (w_event w)\<lparr>ee_events := EPOLLIN\<rparr> # epoll_scan st (ready + 1) maxevents ws
          else epoll_scan st ready maxevents ws)"

definition epoll_wait ::
    "'w os_calls \<Rightarrow> int \<Rightarrow> bool \<Rightarrow> int \<Rightarrow> int \<Rightarrow> 'w fake_fds \<Rightarrow>
       epoll_event list result \<times> 'w fake_fds" where
  "epoll_wait os epfd events_null maxevents timeout st =
     (case fake_epoll_from_fd st epfd of
        None \<Rightarrow> syscall (os_epoll_wait os epfd events_null maxevents timeout) st
      | Some k \<Rightarrow>
          if events_null \<or> maxevents \<le> 0 then (Inl EINVAL, st)
          else (Inr (epoll_scan st 0 (nat maxevents) (watches (fake_epolls st ! k))), st))"

definition epoll_pwait where
  "epoll_pwait os epfd events_null maxevents timeout (sigmask :: u64) st =
     epoll_wait os epfd events_null maxevents timeout st"

section \<open>Reading and writing\<close>

definition EFD_SEMAPHORE :: u32 where "EFD_SEMAPHORE = 1"

text \<open>The bytes stored in the buffer are the result; \<open>buf_null\<close> is a null buffer.\<close>

definition read_fd ::
    "'w os_calls \<Rightarrow> int \<Rightarrow> bool \<Rightarrow> u64 \<Rightarrow> 'w fake_fds \<Rightarrow> byte list result \<times> 'w fake_fds" where
  "read_fd os fd buf_null count st =
     (case fake_eventfd_from_fd st fd of
        None \<Rightarrow> syscall (os_read os fd buf_null count) st
      | Some i \<Rightarrow>
          let e = fake_eventfds st ! i in
          if buf_null \<or> count < 8 then (Inl EINVAL, st)
          else if ev_counter e = 0 then (Inl EAGAIN, st)
          else if ev_flags e AND EFD_SEMAPHORE \<noteq> 0
          then (Inr (le_bytes 8 (1 :: u64)), put_event i (e\<lparr>ev_counter := ev_counter e - 1\<rparr>) st)
          else (Inr (le_bytes 8 (ev_counter e)), put_event i (e\<lparr>ev_counter := 0\<rparr>) st))"

text \<open>\<open>buf\<close> holds the bytes at the buffer, at least \<open>count\<close> of them, or is null.\<close>

definition write_fd ::
    "'w os_calls \<Rightarrow> int \<Rightarrow> byte list option \<Rightarrow> u64 \<Rightarrow> 'w fake_fds \<Rightarrow> u64 result \<times> 'w fake_fds" where
  "write_fd os fd buf count st =
     (case fake_eventfd_from_fd st fd of
        None \<Rightarrow> syscall (os_write os fd buf count) st
      | Some i \<Rightarrow>
          (case buf of
             None \<Rightarrow> (Inl EINVAL, st)
           | Some bs \<Rightarrow>
               if count < 8 then (Inl EINVAL, st)
               else let e = fake_eventfds st ! i; value = le_word (take 8 bs)
                    in (Inr 8, put_event i (e\<lparr>ev_counter := ev_counter e + value\<rparr>) st)))"

text \<open>\<open>eventfd_read\<close> returns the value it stored, \<open>eventfd_write\<close> whether it succeeded.\<close>

definition eventfd_read :: "'w os_calls \<Rightarrow> int \<Rightarrow> 'w fake_fds \<Rightarrow> u64 option \<times> 'w fake_fds" where
  "eventfd_read os fd st =
     (let (r, st1) = read_fd os fd False 8 st
      in (case r of Inl _ \<Rightarrow> None | Inr bs \<Rightarrow> if length bs = 8 then Some (le_word bs) else None, st1))"

definition eventfd_write :: "'w os_calls \<Rightarrow> int \<Rightarrow> u64 \<Rightarrow> 'w fake_fds \<Rightarrow> bool \<times> 'w fake_fds" where
  "eventfd_write os fd value st =
     (let (r, st1) = write_fd os fd (Some (le_bytes 8 value)) 8 st
      in (case r of Inl _ \<Rightarrow> False | Inr n \<Rightarrow> n = 8, st1))"

section \<open>Closing and flags\<close>

definition close_fd :: "'w os_calls \<Rightarrow> int \<Rightarrow> 'w fake_fds \<Rightarrow> int result \<times> 'w fake_fds" where
  "close_fd os fd st =
     (case fake_eventfd_from_fd st fd of
        Some i \<Rightarrow> (Inr 0, put_event i \<lparr>ev_used = False, ev_fd = - 1, ev_flags = 0, ev_counter = 0\<rparr> st)
      | None \<Rightarrow>
          (case fake_epoll_from_fd st fd of
             Some k \<Rightarrow> (Inr 0, put_epoll k \<lparr>ep_used = False, ep_fd = - 1, ep_flags = 0,
                                  watches = zero_watches\<rparr> st)
           | None \<Rightarrow> syscall (os_close os fd) st))"

definition O_CLOEXEC :: u32 where "O_CLOEXEC = 0x80000"
definition FD_CLOEXEC :: u64 where "FD_CLOEXEC = 1"
definition O_WRONLY :: u32 where "O_WRONLY = 1"

datatype fcntl_cmd = F_DUPFD | F_GETFD | F_SETFD | F_GETFL | F_SETFL | F_DUPFD_CLOEXEC | F_OTHER int

definition fcntl_cmd_of :: "int \<Rightarrow> fcntl_cmd" where
  "fcntl_cmd_of n = (if n = 0 then F_DUPFD else if n = 1 then F_GETFD else if n = 2 then F_SETFD
     else if n = 3 then F_GETFL else if n = 4 then F_SETFL else if n = 1030 then F_DUPFD_CLOEXEC
     else F_OTHER n)"

text \<open>The \<open>switch\<close> on a fake descriptor, with the flags word it points to.\<close>

definition fcntl_flags :: "fcntl_cmd \<Rightarrow> u64 \<Rightarrow> u32 \<Rightarrow> u32 result \<times> u32" where
  "fcntl_flags cmd arg flags =
     (case cmd of
        F_GETFL \<Rightarrow> (Inr flags, flags)
      | F_SETFL \<Rightarrow> (Inr 0, ucast arg)
      | F_GETFD \<Rightarrow> (Inr (if flags AND O_CLOEXEC \<noteq> 0 then 1 else 0), flags)
      | F_SETFD \<Rightarrow> (Inr 0, if arg AND FD_CLOEXEC \<noteq> 0 then flags OR O_CLOEXEC else flags AND NOT O_CLOEXEC)
      | F_DUPFD \<Rightarrow> (Inl EMFILE, flags)
      | F_DUPFD_CLOEXEC \<Rightarrow> (Inl EMFILE, flags)
      | F_OTHER _ \<Rightarrow> (Inl EINVAL, flags))"

definition fcntl :: "int \<Rightarrow> int \<Rightarrow> u64 \<Rightarrow> 'w fake_fds \<Rightarrow> u32 result \<times> 'w fake_fds" where
  "fcntl fd cmd vararg st =
     (let c = fcntl_cmd_of cmd;
          arg = (if c = F_SETFL \<or> c = F_SETFD \<or> c = F_DUPFD \<or> c = F_DUPFD_CLOEXEC then vararg else 0)
      in case fake_eventfd_from_fd st fd of
           Some i \<Rightarrow>
             let e = fake_eventfds st ! i; (r, fl) = fcntl_flags c arg (ev_flags e)
             in (r, put_event i (e\<lparr>ev_flags := fl\<rparr>) st)
         | None \<Rightarrow>
             (case fake_epoll_from_fd st fd of
                Some k \<Rightarrow>
                  let e = fake_epolls st ! k; (r, fl) = fcntl_flags c arg (ep_flags e)
                  in (r, put_epoll k (e\<lparr>ep_flags := fl\<rparr>) st)
              | None \<Rightarrow>
                  (case c of
                     F_GETFL \<Rightarrow> (Inr (if fd = 1 \<or> fd = 2 then O_WRONLY else 0), st)
                   | F_SETFL \<Rightarrow> (Inr 0, st)
                   | F_SETFD \<Rightarrow> (Inr 0, st)
                   | F_GETFD \<Rightarrow> (Inr 0, st)
                   | F_DUPFD \<Rightarrow> (Inl EMFILE, st)
                   | F_DUPFD_CLOEXEC \<Rightarrow> (Inl EMFILE, st)
                   | F_OTHER _ \<Rightarrow> (Inl EINVAL, st))))"

section \<open>A table of numbered slots\<close>

text \<open>
  What the two tables have in common, as their users see it: the used entry at index \<open>i\<close>
  has the number \<open>base + i\<close>, so a number finds the entry it was given out for.
\<close>

locale slot_table =
  fixes ok :: "'s \<Rightarrow> bool" and slots :: "'s \<Rightarrow> 'e list" and put :: "nat \<Rightarrow> 'e \<Rightarrow> 's \<Rightarrow> 's"
    and used :: "'e \<Rightarrow> bool" and number :: "'e \<Rightarrow> int" and base :: int and count :: nat
  assumes slots_count: "ok s \<Longrightarrow> length (slots s) = count"
    and slots_numbered: "ok s \<Longrightarrow> i < count \<Longrightarrow> used (slots s ! i) \<Longrightarrow> number (slots s ! i) = base + int i"
    and slots_put: "slots (put i e s) = (slots s)[i := e]"
begin

lemma lookup_iff:
  assumes "ok s"
  shows "first_index (\<lambda>e. used e \<and> number e = fd) (slots s) = Some i \<longleftrightarrow>
    i < count \<and> used (slots s ! i) \<and> fd = base + int i"
  using slots_count [OF assms] slots_numbered [OF assms] unfolding first_index_Some by auto

lemma lookup_None_iff:
  assumes "ok s"
  shows "first_index (\<lambda>e. used e \<and> number e = fd) (slots s) = None \<longleftrightarrow>
    (\<forall>i<count. fd = base + int i \<longrightarrow> \<not> used (slots s ! i))"
proof -
  have "(\<exists>i. first_index (\<lambda>e. used e \<and> number e = fd) (slots s) = Some i) \<longleftrightarrow>
      (\<exists>i<count. used (slots s ! i) \<and> fd = base + int i)"
    unfolding lookup_iff [OF assms] by blast
  then show ?thesis by (cases "first_index (\<lambda>e. used e \<and> number e = fd) (slots s)") auto
qed

text \<open>Writing entry \<open>i\<close> changes what its own number finds and nothing else.\<close>

lemma lookup_put:
  assumes "ok s" and "ok (put i e s)" and "i < count"
  shows "first_index (\<lambda>e. used e \<and> number e = fd) (slots (put i e s)) =
    (if fd = base + int i then (if used e then Some i else None)
     else first_index (\<lambda>e. used e \<and> number e = fd) (slots s))"
proof (cases "first_index (\<lambda>e. used e \<and> number e = fd) (slots (put i e s))")
  case None
  then have N: "\<forall>j<count. fd = base + int j \<longrightarrow> \<not> used ((slots s)[i := e] ! j)"
    unfolding lookup_None_iff [OF assms(2)] by (simp add: slots_put)
  have "first_index (\<lambda>e. used e \<and> number e = fd) (slots s) = None" if "fd \<noteq> base + int i"
    unfolding lookup_None_iff [OF assms(1)] using N that by (metis nth_list_update_neq)
  moreover have "\<not> used e" if "fd = base + int i"
    using N assms(3) that slots_count [OF assms(1)] by auto
  ultimately show ?thesis using None by simp
next
  case (Some j)
  then have j: "j < count" "used ((slots s)[i := e] ! j)" "fd = base + int j"
    unfolding lookup_iff [OF assms(2)] by (simp_all add: slots_put)
  show ?thesis
  proof (cases "i = j")
    case True
    then show ?thesis using Some j slots_count [OF assms(1)] by simp
  next
    case False
    then have "first_index (\<lambda>e. used e \<and> number e = fd) (slots s) = Some j"
      unfolding lookup_iff [OF assms(1)] using j by simp
    then show ?thesis using Some j False by simp
  qed
qed

lemma fresh_unused:
  assumes "ok s" and "first_index (\<lambda>e. \<not> used e) (slots s) = Some k"
  shows "k < count" and "first_index (\<lambda>e. used e \<and> number e = base + int k) (slots s) = None"
  using assms(2) slots_count [OF assms(1)] unfolding lookup_None_iff [OF assms(1)] first_index_Some by auto

end

section \<open>The invariant of the two tables\<close>

definition watches_ok :: "fake_epoll_watch list \<Rightarrow> bool" where
  "watches_ok ws \<longleftrightarrow> length ws = FAKE_EPOLL_WATCH_COUNT \<and>
     (\<forall>i<length ws. \<forall>j<length ws. i \<noteq> j \<and> w_used (ws ! i) \<and> w_used (ws ! j) \<longrightarrow> w_fd (ws ! i) \<noteq> w_fd (ws ! j))"

definition fds_ok :: "'w fake_fds \<Rightarrow> bool" where
  "fds_ok st \<longleftrightarrow> length (fake_eventfds st) = FAKE_EVENTFD_COUNT \<and>
     length (fake_epolls st) = FAKE_EPOLL_COUNT \<and>
     (\<forall>i<FAKE_EVENTFD_COUNT. ev_used (fake_eventfds st ! i) \<longrightarrow>
        ev_fd (fake_eventfds st ! i) = FAKE_EVENTFD_BASE + int i) \<and>
     (\<forall>i<FAKE_EPOLL_COUNT. ep_used (fake_epolls st ! i) \<longrightarrow>
        ep_fd (fake_epolls st ! i) = FAKE_EPOLL_BASE + int i) \<and>
     (\<forall>i<FAKE_EPOLL_COUNT. watches_ok (watches (fake_epolls st ! i)))"

interpretation ev: slot_table fds_ok fake_eventfds put_event ev_used ev_fd FAKE_EVENTFD_BASE FAKE_EVENTFD_COUNT
  by unfold_locales (auto simp: fds_ok_def put_event_def)

interpretation ep: slot_table fds_ok fake_epolls put_epoll ep_used ep_fd FAKE_EPOLL_BASE FAKE_EPOLL_COUNT
  by unfold_locales (auto simp: fds_ok_def put_epoll_def)

lemma watch_lookup:
  assumes "watches_ok ws"
  shows "first_index (\<lambda>w. w_used w \<and> w_fd w = fd) ws = Some i \<longleftrightarrow>
    i < length ws \<and> w_used (ws ! i) \<and> w_fd (ws ! i) = fd"
  using assms unfolding first_index_Some watches_ok_def by (metis order_less_trans less_irrefl)

lemma watches_ok_zero: "watches_ok zero_watches"
  by (auto simp: watches_ok_def zero_watches_def zero_watch_def)

lemma initial_fds_ok: "fds_ok (initial_fds w)"
  by (simp add: fds_ok_def initial_fds_def watches_ok_zero)

text \<open>What happens in the world behind the tables does not touch them.\<close>

lemma real_update [simp]:
  "fds_ok (st\<lparr>os_world := w\<rparr>) \<longleftrightarrow> fds_ok st"
  "fake_eventfd_from_fd (st\<lparr>os_world := w\<rparr>) fd = fake_eventfd_from_fd st fd"
  "fake_epoll_from_fd (st\<lparr>os_world := w\<rparr>) fd = fake_epoll_from_fd st fd"
  "os_world (put_event i e st) = os_world st" "os_world (put_epoll i x st) = os_world st"
  by (simp_all add: fds_ok_def fake_eventfd_from_fd_def fake_epoll_from_fd_def put_event_def put_epoll_def)

lemma syscall_ok [simp]: "fds_ok (snd (syscall call st)) \<longleftrightarrow> fds_ok st"
  by (simp add: syscall_def case_prod_beta)

lemma put_event_ok:
  assumes "fds_ok st" and "i < FAKE_EVENTFD_COUNT" and "ev_used e \<Longrightarrow> ev_fd e = FAKE_EVENTFD_BASE + int i"
  shows "fds_ok (put_event i e st)"
  using assms by (auto simp: fds_ok_def put_event_def nth_list_update)

lemma put_epoll_ok:
  assumes "fds_ok st" and "i < FAKE_EPOLL_COUNT" and "ep_used e \<Longrightarrow> ep_fd e = FAKE_EPOLL_BASE + int i"
    and "watches_ok (watches e)"
  shows "fds_ok (put_epoll i e st)"
  using assms by (auto simp: fds_ok_def put_epoll_def nth_list_update)

lemma found_event:
  assumes "fds_ok st"
  shows "fake_eventfd_from_fd st fd = Some i \<longleftrightarrow>
    i < FAKE_EVENTFD_COUNT \<and> ev_used (fake_eventfds st ! i) \<and> fd = FAKE_EVENTFD_BASE + int i"
  unfolding fake_eventfd_from_fd_def by (rule ev.lookup_iff [OF assms])

lemma found_epoll:
  assumes "fds_ok st"
  shows "fake_epoll_from_fd st fd = Some i \<longleftrightarrow>
    i < FAKE_EPOLL_COUNT \<and> ep_used (fake_epolls st ! i) \<and> fd = FAKE_EPOLL_BASE + int i"
  unfolding fake_epoll_from_fd_def by (rule ep.lookup_iff [OF assms])

lemma numbers_disjoint: "i < FAKE_EVENTFD_COUNT \<Longrightarrow> FAKE_EVENTFD_BASE + int i \<noteq> FAKE_EPOLL_BASE + int k"
  by (simp add: FAKE_EVENTFD_COUNT_def FAKE_EVENTFD_BASE_def FAKE_EPOLL_BASE_def)

section \<open>epoll_ctl as an update of a finite map\<close>

definition watch_map :: "fake_epoll_watch list \<Rightarrow> int \<Rightarrow> epoll_event option" where
  "watch_map ws fd = map_option (\<lambda>i. w_event (ws ! i)) (first_index (\<lambda>w. w_used w \<and> w_fd w = fd) ws)"

definition ctl_spec ::
    "epoll_op \<Rightarrow> int \<Rightarrow> epoll_event option \<Rightarrow> (int \<Rightarrow> epoll_event option) \<Rightarrow>
       int result \<times> (int \<Rightarrow> epoll_event option)" where
  "ctl_spec op fd event m =
     (case (op, event) of
        (EPOLL_CTL_ADD, Some ev) \<Rightarrow>
          if fd \<in> dom m then (Inl EEXIST, m)
          else if card (dom m) < FAKE_EPOLL_WATCH_COUNT then (Inr 0, m(fd \<mapsto> ev)) else (Inl ENOSPC, m)
      | (EPOLL_CTL_MOD, Some ev) \<Rightarrow> if fd \<in> dom m then (Inr 0, m(fd \<mapsto> ev)) else (Inl ENOENT, m)
      | (EPOLL_CTL_DEL, _) \<Rightarrow> if fd \<in> dom m then (Inr 0, m(fd := None)) else (Inl ENOENT, m)
      | _ \<Rightarrow> (Inl EINVAL, m))"

lemma watch_map_Some:
  assumes "watches_ok ws"
  shows "watch_map ws fd = Some ev \<longleftrightarrow>
    (\<exists>i<length ws. w_used (ws ! i) \<and> w_fd (ws ! i) = fd \<and> w_event (ws ! i) = ev)"
  using watch_lookup [OF assms] by (auto simp: watch_map_def)

lemma watch_map_dom:
  assumes "watches_ok ws"
  shows "dom (watch_map ws) = (\<lambda>i. w_fd (ws ! i)) ` {i. i < length ws \<and> w_used (ws ! i)}"
  using watch_map_Some [OF assms] by (auto simp: dom_def)

lemma watch_full:
  assumes "watches_ok ws"
  shows "first_index (\<lambda>w. \<not> w_used w) ws = None \<longleftrightarrow> \<not> card (dom (watch_map ws)) < FAKE_EPOLL_WATCH_COUNT"
proof -
  define U where "U = {i. i < length ws \<and> w_used (ws ! i)}"
  have sub: "U \<subseteq> {..<length ws}" by (auto simp: U_def)
  have "inj_on (\<lambda>i. w_fd (ws ! i)) U"
    using assms unfolding watches_ok_def inj_on_def U_def by blast
  then have "card (dom (watch_map ws)) = card U"
    unfolding watch_map_dom [OF assms] U_def by (rule card_image)
  moreover have "length ws = FAKE_EPOLL_WATCH_COUNT" using assms by (simp add: watches_ok_def)
  moreover have "card U < length ws \<longleftrightarrow> U \<noteq> {..<length ws}"
  proof -
    have "U \<noteq> {..<length ws} \<Longrightarrow> card U < card {..<length ws}"
      using sub by (intro psubset_card_mono) auto
    then show ?thesis by (metis card_lessThan less_irrefl)
  qed
  moreover have "first_index (\<lambda>w. \<not> w_used w) ws = None \<longleftrightarrow> U = {..<length ws}"
    unfolding first_index_None U_def all_set_conv_all_nth by auto
  ultimately show ?thesis by simp
qed

text \<open>Writing one watch, when no other used watch has its descriptor.\<close>

lemma watch_update:
  assumes "watches_ok ws" and "i < length ws" and "w_used w"
    and "\<And>j. j < length ws \<Longrightarrow> j \<noteq> i \<Longrightarrow> w_used (ws ! j) \<Longrightarrow> w_fd (ws ! j) \<noteq> w_fd w"
    and "\<not> w_used (ws ! i) \<or> w_fd (ws ! i) = w_fd w"
  shows "watches_ok (ws[i := w])" and "watch_map (ws[i := w]) = (watch_map ws)(w_fd w \<mapsto> w_event w)"
proof -
  have "w_fd w \<noteq> w_fd (ws ! j)" if "j < length ws" "j \<noteq> i" "w_used (ws ! j)" for j
    using assms(4) [OF that] by simp
  then show ok: "watches_ok (ws[i := w])"
    using assms(1,2,4) unfolding watches_ok_def by (simp add: nth_list_update)
  show "watch_map (ws[i := w]) = (watch_map ws)(w_fd w \<mapsto> w_event w)"
  proof
    fix fd
    have "watch_map (ws[i := w]) fd = Some ev \<longleftrightarrow> ((watch_map ws)(w_fd w \<mapsto> w_event w)) fd = Some ev" for ev
    proof (cases "fd = w_fd w")
      case True
      then show ?thesis using assms(2-4) unfolding watch_map_Some [OF ok]
        by (auto simp: nth_list_update)
    next
      case False
      then show ?thesis
        using assms(2,3,5) unfolding watch_map_Some [OF ok] fun_upd_other [OF False] watch_map_Some [OF assms(1)]
        by (auto simp: nth_list_update)
    qed
    then show "watch_map (ws[i := w]) fd = ((watch_map ws)(w_fd w \<mapsto> w_event w)) fd"
      by (metis not_None_eq)
  qed
qed

lemma watch_drop:
  assumes "watches_ok ws" and "i < length ws" and "w_used (ws ! i)"
  shows "watches_ok (ws[i := (ws ! i)\<lparr>w_used := False\<rparr>])"
    and "watch_map (ws[i := (ws ! i)\<lparr>w_used := False\<rparr>]) = (watch_map ws)(w_fd (ws ! i) := None)"
proof -
  let ?ws = "ws[i := (ws ! i)\<lparr>w_used := False\<rparr>]"
  show ok: "watches_ok ?ws" using assms unfolding watches_ok_def by (auto simp: nth_list_update)
  show "watch_map ?ws = (watch_map ws)(w_fd (ws ! i) := None)"
  proof
    fix fd
    have "watch_map ?ws fd = Some ev \<longleftrightarrow> ((watch_map ws)(w_fd (ws ! i) := None)) fd = Some ev" for ev
    proof (cases "fd = w_fd (ws ! i)")
      case True
      then show ?thesis using assms unfolding watch_map_Some [OF ok] watches_ok_def
        by (auto simp: nth_list_update)
    next
      case False
      then show ?thesis
        using assms(2) unfolding watch_map_Some [OF ok] fun_upd_other [OF False] watch_map_Some [OF assms(1)]
        by (auto simp: nth_list_update)
    qed
    then show "watch_map ?ws fd = ((watch_map ws)(w_fd (ws ! i) := None)) fd"
      by (metis not_None_eq)
  qed
qed

text \<open>Changing the event of the watch found, and filling the first free one.\<close>

lemma watch_modified:
  assumes ok: "watches_ok ws" and found: "first_index (\<lambda>w. w_used w \<and> w_fd w = fd) ws = Some i"
  shows "watches_ok (ws[i := (ws ! i)\<lparr>w_event := ev\<rparr>])"
    and "watch_map (ws[i := (ws ! i)\<lparr>w_event := ev\<rparr>]) = (watch_map ws)(fd \<mapsto> ev)"
proof -
  let ?w = "(ws ! i)\<lparr>w_event := ev\<rparr>"
  have old: "i < length ws \<and> w_used (ws ! i) \<and> w_fd (ws ! i) = fd" using found watch_lookup [OF ok] by simp
  then have i: "i < length ws" "w_used ?w" "w_fd ?w = fd" "w_event ?w = ev" by simp_all
  have "w_fd (ws ! j) \<noteq> w_fd ?w" if "j < length ws" "j \<noteq> i" "w_used (ws ! j)" for j
    using that i old ok unfolding watches_ok_def by auto
  from watch_update [OF ok i(1,2) this] i show "watches_ok (ws[i := ?w])"
    "watch_map (ws[i := ?w]) = (watch_map ws)(fd \<mapsto> ev)" by simp_all
qed

lemma watch_added:
  assumes ok: "watches_ok ws" and free: "first_index (\<lambda>w. \<not> w_used w) ws = Some i"
    and new: "first_index (\<lambda>w. w_used w \<and> w_fd w = fd) ws = None"
  shows "watches_ok (ws[i := \<lparr>w_used = True, w_fd = fd, w_event = ev\<rparr>])"
    and "watch_map (ws[i := \<lparr>w_used = True, w_fd = fd, w_event = ev\<rparr>]) = (watch_map ws)(fd \<mapsto> ev)"
proof -
  let ?w = "\<lparr>w_used = True, w_fd = fd, w_event = ev\<rparr>"
  have i: "i < length ws" "w_used ?w" "\<not> w_used (ws ! i)" using free unfolding first_index_Some by auto
  have "w_fd (ws ! j) \<noteq> w_fd ?w" if "j < length ws" "j \<noteq> i" "w_used (ws ! j)" for j
    using new that unfolding first_index_None by auto
  from watch_update [OF ok i(1,2) this] i(3) show "watches_ok (ws[i := ?w])"
    "watch_map (ws[i := ?w]) = (watch_map ws)(fd \<mapsto> ev)" by simp_all
qed

lemma ctl_watches_refines:
  assumes "watches_ok ws"
  shows "watches_ok (snd (ctl_watches op fd event ws)) \<and>
    (fst (ctl_watches op fd event ws), watch_map (snd (ctl_watches op fd event ws)))
      = ctl_spec op fd event (watch_map ws)"
proof -
  let ?found = "first_index (\<lambda>w. w_used w \<and> w_fd w = fd) ws"
  have dom: "fd \<in> dom (watch_map ws) \<longleftrightarrow> ?found \<noteq> None" by (auto simp: watch_map_def dom_def)
  show ?thesis
  proof (cases op)
    case EPOLL_CTL_ADD
    then show ?thesis using assms dom watch_full [OF assms] watch_added [OF assms]
      by (cases event; cases ?found; cases "first_index (\<lambda>w. \<not> w_used w) ws")
        (simp_all add: ctl_watches_def ctl_spec_def)
  next
    case EPOLL_CTL_MOD
    then show ?thesis using assms dom watch_modified [OF assms]
      by (cases event; cases ?found) (simp_all add: ctl_watches_def ctl_spec_def)
  next
    case EPOLL_CTL_DEL
    have "i < length ws \<and> w_used (ws ! i) \<and> w_fd (ws ! i) = fd" if "?found = Some i" for i
      using that watch_lookup [OF assms] by simp
    then show ?thesis using EPOLL_CTL_DEL assms dom watch_drop [OF assms]
      by (cases event; cases ?found) (auto simp: ctl_watches_def ctl_spec_def)
  next
    case (EPOLL_CTL_OTHER n)
    then show ?thesis using assms by (cases event) (simp_all add: ctl_watches_def ctl_spec_def)
  qed
qed

section \<open>Every operation keeps the tables in order\<close>

lemma eventfd_ok: "fds_ok st \<Longrightarrow> fds_ok (snd (eventfd v fl st))"
  using ev.fresh_unused(1) by (auto simp: eventfd_def intro!: put_event_ok split: option.splits)

lemma epoll_create1_ok: "fds_ok st \<Longrightarrow> fds_ok (snd (epoll_create1 fl st))"
  using ep.fresh_unused(1)
  by (auto simp: epoll_create1_def intro!: put_epoll_ok watches_ok_zero split: option.splits)

lemma epoll_ctl_ok:
  assumes "fds_ok st"
  shows "fds_ok (snd (epoll_ctl os epfd op fd event st))"
proof (cases "fake_epoll_from_fd st epfd")
  case None
  with assms show ?thesis by (simp add: epoll_ctl_def)
next
  case (Some k)
  then have k: "k < FAKE_EPOLL_COUNT" "watches_ok (watches (fake_epolls st ! k))"
    "ep_used (fake_epolls st ! k) \<longrightarrow> ep_fd (fake_epolls st ! k) = FAKE_EPOLL_BASE + int k"
    using assms found_epoll [OF assms] by (auto simp: fds_ok_def)
  show ?thesis
    using Some k assms conjunct1 [OF ctl_watches_refines [OF k(2), of "epoll_op_of op" fd event]]
    by (auto simp: epoll_ctl_def Let_def case_prod_beta intro!: put_epoll_ok)
qed

lemma found_eventD:
  assumes "fds_ok st" and "fake_eventfd_from_fd st fd = Some i"
  shows "i < FAKE_EVENTFD_COUNT" and "ev_fd (fake_eventfds st ! i) = FAKE_EVENTFD_BASE + int i"
  using assms found_event [OF assms(1), of fd i] by (simp_all add: fds_ok_def)

lemma found_epollD:
  assumes "fds_ok st" and "fake_epoll_from_fd st fd = Some i"
  shows "i < FAKE_EPOLL_COUNT" and "ep_fd (fake_epolls st ! i) = FAKE_EPOLL_BASE + int i"
    and "watches_ok (watches (fake_epolls st ! i))"
  using assms found_epoll [OF assms(1), of fd i] by (simp_all add: fds_ok_def)

text \<open>A number below the fake ones is not one of them.\<close>

lemma not_fake:
  assumes "fds_ok w" and "fd < 1000"
  shows "fake_eventfd_from_fd w fd = None" and "fake_epoll_from_fd w fd = None"
proof -
  have "\<nexists>i. fake_eventfd_from_fd w fd = Some i" "\<nexists>i. fake_epoll_from_fd w fd = Some i"
    using found_event [OF assms(1)] found_epoll [OF assms(1)] assms(2)
    by (auto simp: FAKE_EVENTFD_BASE_def FAKE_EPOLL_BASE_def)
  then show "fake_eventfd_from_fd w fd = None" "fake_epoll_from_fd w fd = None" by auto
qed

lemma epoll_wait_ok: "fds_ok st \<Longrightarrow> fds_ok (snd (epoll_wait os epfd null maxevents timeout st))"
  by (simp add: epoll_wait_def split: option.splits)

lemma read_fd_ok: "fds_ok st \<Longrightarrow> fds_ok (snd (read_fd os fd b n st))"
  using found_eventD [of st fd]
  by (cases "fake_eventfd_from_fd st fd") (simp_all add: read_fd_def Let_def put_event_ok)

lemma write_fd_ok: "fds_ok st \<Longrightarrow> fds_ok (snd (write_fd os fd b n st))"
  using found_eventD [of st fd]
  by (cases "fake_eventfd_from_fd st fd"; cases b) (simp_all add: write_fd_def Let_def put_event_ok)

lemma close_fd_ok: "fds_ok st \<Longrightarrow> fds_ok (snd (close_fd os fd st))"
  using found_eventD [of st fd] found_epollD [of st fd]
  by (cases "fake_eventfd_from_fd st fd"; cases "fake_epoll_from_fd st fd")
    (auto simp: close_fd_def intro!: put_event_ok put_epoll_ok watches_ok_zero)

lemma fcntl_ok:
  assumes "fds_ok st"
  shows "fds_ok (snd (fcntl fd cmd arg st))"
proof (cases "fake_eventfd_from_fd st fd")
  case (Some i)
  note i = found_eventD [OF assms Some]
  have "fds_ok (put_event i ((fake_eventfds st ! i)\<lparr>ev_flags := fl\<rparr>) st)" for fl
    by (rule put_event_ok [OF assms i(1)]) (simp add: i(2))
  with Some show ?thesis by (simp add: fcntl_def Let_def case_prod_beta)
next
  case None
  show ?thesis
  proof (cases "fake_epoll_from_fd st fd")
    case (Some k)
    note k = found_epollD [OF assms Some]
    have "fds_ok (put_epoll k ((fake_epolls st ! k)\<lparr>ep_flags := fl\<rparr>) st)" for fl
      by (rule put_epoll_ok [OF assms k(1)]) (simp_all add: k(2,3))
    with None Some show ?thesis by (simp add: fcntl_def Let_def case_prod_beta)
  next
    case none: None
    then show ?thesis using None assms
      by (cases "fcntl_cmd_of cmd") (simp_all add: fcntl_def Let_def)
  qed
qed

lemmas fd_ops_ok = eventfd_ok epoll_create1_ok epoll_ctl_ok epoll_wait_ok read_fd_ok write_fd_ok close_fd_ok fcntl_ok

text \<open>
  The states a program reaches by any sequence of these calls, whatever else happens to
  the world behind them.
\<close>

inductive fd_reach :: "'w os_calls \<Rightarrow> 'w fake_fds \<Rightarrow> bool" for os :: "'w os_calls" where
  reach_initial: "fd_reach os (initial_fds w)"
| reach_world: "fd_reach os st \<Longrightarrow> fd_reach os (st\<lparr>os_world := w\<rparr>)"
| reach_eventfd: "fd_reach os st \<Longrightarrow> fd_reach os (snd (eventfd v fl st))"
| reach_epoll_create1: "fd_reach os st \<Longrightarrow> fd_reach os (snd (epoll_create1 fl st))"
| reach_epoll_create: "fd_reach os st \<Longrightarrow> fd_reach os (snd (epoll_create sz st))"
| reach_epoll_ctl: "fd_reach os st \<Longrightarrow> fd_reach os (snd (epoll_ctl os epfd op fd event st))"
| reach_epoll_wait: "fd_reach os st \<Longrightarrow> fd_reach os (snd (epoll_wait os epfd null maxevents timeout st))"
| reach_read: "fd_reach os st \<Longrightarrow> fd_reach os (snd (read_fd os fd b n st))"
| reach_write: "fd_reach os st \<Longrightarrow> fd_reach os (snd (write_fd os fd buf n st))"
| reach_close: "fd_reach os st \<Longrightarrow> fd_reach os (snd (close_fd os fd st))"
| reach_fcntl: "fd_reach os st \<Longrightarrow> fd_reach os (snd (fcntl fd cmd arg st))"

lemma reach_ok: "fd_reach os st \<Longrightarrow> fds_ok st"
proof (induction rule: fd_reach.induct)
  case reach_initial
  show ?case by (rule initial_fds_ok)
next
  case (reach_epoll_create st sz)
  then show ?case by (simp add: epoll_create_def epoll_create1_ok)
qed (simp_all add: fd_ops_ok)

section \<open>Properties\<close>

text \<open>
  C14: in every state the calls reach, a fake descriptor number identifies at most one
  object: eventfds have the numbers 1000 to 1003, epoll instances 1100 and 1101, no number
  is both, an epoll instance watches no descriptor twice, and a descriptor just created
  was not in use before.
\<close>

theorem fake_fds_invariant:
  assumes "fd_reach os st"
  shows "(\<forall>fd i. fake_eventfd_from_fd st fd = Some i \<longrightarrow> fd = 1000 + int i \<and> i < 4 \<and> fake_epoll_from_fd st fd = None) \<and>
    (\<forall>fd i. fake_epoll_from_fd st fd = Some i \<longrightarrow> fd = 1100 + int i \<and> i < 2) \<and>
    (\<forall>k<2. watches_ok (watches (fake_epolls st ! k))) \<and>
    (\<forall>v fl fd st'. eventfd v fl st = (Inr fd, st') \<longrightarrow>
       fake_eventfd_from_fd st fd = None \<and> fake_eventfd_from_fd st' fd \<noteq> None) \<and>
    (\<forall>fl fd st'. epoll_create1 fl st = (Inr fd, st') \<longrightarrow>
       fake_epoll_from_fd st fd = None \<and> fake_epoll_from_fd st' fd \<noteq> None)"
proof -
  have ok: "fds_ok st" using assms by (rule reach_ok)
  have ev: "fake_eventfd_from_fd st fd = None \<and> fake_eventfd_from_fd st' fd \<noteq> None"
    if run: "eventfd v fl st = (Inr fd, st')" for v fl fd st'
  proof -
    obtain i where i: "first_index (\<lambda>e. \<not> ev_used e) (fake_eventfds st) = Some i"
      "fd = FAKE_EVENTFD_BASE + int i"
      using run by (auto simp: eventfd_def split: option.splits)
    have "fds_ok st'" using eventfd_ok [OF ok, of v fl] run by simp
    moreover have "i < FAKE_EVENTFD_COUNT" by (rule ev.fresh_unused(1) [OF ok i(1)])
    ultimately have "fake_eventfd_from_fd st' fd = Some i"
      using run i ok unfolding found_event [OF \<open>fds_ok st'\<close>]
      by (auto simp: eventfd_def put_event_def fds_ok_def)
    with ev.fresh_unused(2) [OF ok i(1)] i(2) show ?thesis by (simp add: fake_eventfd_from_fd_def)
  qed
  have ep: "fake_epoll_from_fd st fd = None \<and> fake_epoll_from_fd st' fd \<noteq> None"
    if run: "epoll_create1 fl st = (Inr fd, st')" for fl fd st'
  proof -
    obtain i where i: "first_index (\<lambda>e. \<not> ep_used e) (fake_epolls st) = Some i"
      "fd = FAKE_EPOLL_BASE + int i"
      using run by (auto simp: epoll_create1_def split: option.splits)
    have "fds_ok st'" using epoll_create1_ok [OF ok, of fl] run by simp
    moreover have "i < FAKE_EPOLL_COUNT" by (rule ep.fresh_unused(1) [OF ok i(1)])
    ultimately have "fake_epoll_from_fd st' fd = Some i"
      using run i ok unfolding found_epoll [OF \<open>fds_ok st'\<close>]
      by (auto simp: epoll_create1_def put_epoll_def fds_ok_def)
    with ep.fresh_unused(2) [OF ok i(1)] i(2) show ?thesis by (simp add: fake_epoll_from_fd_def)
  qed
  have no: "fake_epoll_from_fd st fd = None" if "fake_eventfd_from_fd st fd = Some i" for fd i
  proof (rule ccontr)
    assume "fake_epoll_from_fd st fd \<noteq> None"
    then obtain k where "fake_epoll_from_fd st fd = Some k" by blast
    then show False using that numbers_disjoint [of i k] unfolding found_event [OF ok] found_epoll [OF ok] by simp
  qed
  show ?thesis
    using ev ep no found_event [OF ok] found_epoll [OF ok] ok
    by (auto simp: FAKE_EVENTFD_BASE_def FAKE_EVENTFD_COUNT_def FAKE_EPOLL_BASE_def FAKE_EPOLL_COUNT_def fds_ok_def)
qed

text \<open>An operating system that knows no descriptor.\<close>

definition no_os :: "'w os_calls" where
  "no_os = \<lparr>os_read = \<lambda>_ _ _ w. (Inl EBADF, w), os_readv = \<lambda>_ _ w. (Inl EBADF, w),
     os_write = \<lambda>_ _ _ w. (Inl EBADF, w), os_close = \<lambda>_ w. (Inl EBADF, w),
     os_epoll_ctl = \<lambda>_ _ _ _ w. (Inl EBADF, w), os_epoll_wait = \<lambda>_ _ _ _ w. (Inl EBADF, w)\<rparr>"

text \<open>One eventfd with the counter 5 and one epoll instance.\<close>

definition demo_pair :: "unit fake_fds" where
  "demo_pair = snd (epoll_create1 0 (snd (eventfd 5 0 (initial_fds ()))))"

lemma demo_pair_reach: "fd_reach no_os demo_pair"
  unfolding demo_pair_def
  by (rule reach_epoll_create1, rule reach_eventfd, rule reach_initial)

lemmas table_defs = FAKE_EVENTFD_BASE_def FAKE_EVENTFD_COUNT_def FAKE_EPOLL_BASE_def FAKE_EPOLL_COUNT_def
  FAKE_EPOLL_WATCH_COUNT_def initial_fds_def zero_watches_def zero_watch_def put_event_def put_epoll_def

lemma replicate_small: "replicate 4 x = [x, x, x, x]" "replicate 2 y = [y, y]"
  by (simp_all add: eval_nat_numeral)

lemma demo_pair_simps:
  "fake_eventfd_from_fd demo_pair 1000 = Some 0" "fake_epoll_from_fd demo_pair 1100 = Some 0"
  "ev_counter (fake_eventfds demo_pair ! 0) = 5" "ev_flags (fake_eventfds demo_pair ! 0) = 0"
  "fake_epolls demo_pair ! 0 = \<lparr>ep_used = True, ep_fd = 1100, ep_flags = 0, watches = zero_watches\<rparr>"
  by (simp_all add: demo_pair_def eventfd_def epoll_create1_def fake_eventfd_from_fd_def
      fake_epoll_from_fd_def table_defs replicate_small)

text \<open>The same with the eventfd watched for input and output.\<close>

definition demo_watching :: "unit fake_fds" where
  "demo_watching = put_epoll 0 \<lparr>ep_used = True, ep_fd = 1100, ep_flags = 0, watches =
     \<lparr>w_used = True, w_fd = 1000, w_event = \<lparr>ee_events = 5, ee_data = 7\<rparr>\<rparr> # replicate 7 zero_watch\<rparr> demo_pair"

theorem fake_fds_invariant_witness:
  "fake_eventfd_from_fd demo_pair 1000 = Some 0 \<and> fake_epoll_from_fd demo_pair 1000 = None \<and>
   watches_ok (watches (fake_epolls demo_pair ! 0))"
  using fake_fds_invariant [OF demo_pair_reach] demo_pair_simps(1) by auto

text \<open>
  C17: \<open>epoll_ctl\<close> on an instance is an update of a finite map from descriptors to events
  with room for eight: \<open>ADD\<close> fails with \<open>EEXIST\<close> for a descriptor already watched and with
  \<open>ENOSPC\<close> only when eight are, \<open>MOD\<close> and \<open>DEL\<close> fail with \<open>ENOENT\<close> for one that is not,
  and otherwise exactly the one entry changes. Other instances and the eventfds are
  untouched.
\<close>

theorem epoll_ctl_refines_map:
  assumes "fd_reach os st" and "fake_epoll_from_fd st epfd = Some k"
    and "epoll_ctl os epfd op fd event st = (r, st')"
  shows "(r, watch_map (watches (fake_epolls st' ! k))) =
      ctl_spec (epoll_op_of op) fd event (watch_map (watches (fake_epolls st ! k))) \<and>
    fake_eventfds st' = fake_eventfds st \<and> (\<forall>j. j \<noteq> k \<longrightarrow> fake_epolls st' ! j = fake_epolls st ! j)"
proof -
  have ok: "fds_ok st" using assms(1) by (rule reach_ok)
  note k = found_epollD [OF ok assms(2)]
  have len: "k < length (fake_epolls st)" using ok k(1) by (simp add: fds_ok_def)
  show ?thesis
    using assms(3) len conjunct2 [OF ctl_watches_refines [OF k(3), of "epoll_op_of op" fd event]]
    by (auto simp: epoll_ctl_def assms(2) Let_def case_prod_beta put_epoll_def)
qed

theorem epoll_ctl_refines_map_witness:
  "fst (epoll_ctl no_os 1100 1 1000 (Some \<lparr>ee_events = 1, ee_data = 7\<rparr>) demo_pair) = Inr 0"
proof -
  obtain r st' where run: "epoll_ctl no_os 1100 1 1000 (Some \<lparr>ee_events = 1, ee_data = 7\<rparr>) demo_pair = (r, st')"
    by fastforce
  have "watch_map (watches (fake_epolls demo_pair ! 0)) = (\<lambda>_. None)"
    by (rule ext) (simp add: watch_map_def demo_pair_simps zero_watches_def zero_watch_def first_index_None)
  with epoll_ctl_refines_map [OF demo_pair_reach demo_pair_simps(2) run] run show ?thesis
    by (simp add: ctl_spec_def epoll_op_of_def FAKE_EPOLL_WATCH_COUNT_def)
qed

text \<open>One write, and a sequence of writes, to a live eventfd.\<close>

lemma eventfd_write_step:
  fixes v :: u64 and os :: "'w os_calls"
  assumes "fds_ok st" and "fake_eventfd_from_fd st fd = Some i"
  defines "st1 \<equiv> snd (eventfd_write os fd v st)"
  shows "fds_ok st1" and "fake_eventfd_from_fd st1 fd = Some i"
    and "fake_eventfds st1 ! i =
      (fake_eventfds st ! i)\<lparr>ev_counter := ev_counter (fake_eventfds st ! i) + v\<rparr>"
proof -
  let ?e = "(fake_eventfds st ! i)\<lparr>ev_counter := ev_counter (fake_eventfds st ! i) + v\<rparr>"
  note i = found_eventD [OF assms(1,2)]
  have eq: "st1 = put_event i ?e st"
    by (simp add: st1_def eventfd_write_def write_fd_def assms(2) Let_def case_prod_beta le_word_64)
  show ok: "fds_ok st1" unfolding eq by (rule put_event_ok [OF assms(1) i(1)]) (simp add: i(2))
  show "fake_eventfd_from_fd st1 fd = Some i"
    using assms(2) found_event [OF assms(1), of fd i]
      ev.lookup_put [OF assms(1) ok [unfolded eq] i(1), of fd] unfolding eq fake_eventfd_from_fd_def by auto
  show "fake_eventfds st1 ! i = ?e"
    using i(1) assms(1) by (simp add: eq put_event_def fds_ok_def)
qed

lemma eventfd_writes:
  assumes "fds_ok st" and "fake_eventfd_from_fd st fd = Some i"
  shows "fds_ok (fold (\<lambda>v s. snd (eventfd_write os fd v s)) vs st)"
    and "fake_eventfd_from_fd (fold (\<lambda>v s. snd (eventfd_write os fd v s)) vs st) fd = Some i"
    and "fake_eventfds (fold (\<lambda>v s. snd (eventfd_write os fd v s)) vs st) ! i =
      (fake_eventfds st ! i)\<lparr>ev_counter := ev_counter (fake_eventfds st ! i) + sum_list vs\<rparr>"
  using assms
proof (induction vs arbitrary: st)
  case Nil
  { case 1 then show ?case by simp }
  { case 2 then show ?case by simp }
  { case 3 then show ?case by simp }
next
  case (Cons v vs)
  { case 1 then show ?case using Cons.IH(1) eventfd_write_step [OF 1] by simp }
  { case 2 then show ?case using Cons.IH(2) eventfd_write_step [OF 2] by simp }
  { case 3 then show ?case using Cons.IH(3) eventfd_write_step [OF 3] by (simp add: add.assoc) }
qed

lemma epoll_scan_filter:
  "epoll_scan st ready maxevents ws = take (maxevents - ready)
     (map (\<lambda>w. (w_event w)\<lparr>ee_events := EPOLLIN\<rparr>)
       (filter (\<lambda>w. w_used w \<and> ee_events (w_event w) AND EPOLLIN \<noteq> 0 \<and>
          (\<exists>i. fake_eventfd_from_fd st (w_fd w) = Some i \<and> ev_counter (fake_eventfds st ! i) \<noteq> 0)) ws))"
proof (induction ws arbitrary: ready)
  case Nil
  then show ?case by simp
next
  case (Cons w ws)
  show ?case
  proof (cases "ready < maxevents")
    case True
    then have "maxevents - ready = Suc (maxevents - Suc ready)" by simp
    then show ?thesis using True Cons.IH [of ready] Cons.IH [of "ready + 1"]
      by (cases "fake_eventfd_from_fd st (w_fd w)") (auto simp: word_gt_0)
  qed simp
qed

text \<open>
  C28: an eventfd adds up: after any writes of values \<open>vs\<close>, a read of a descriptor that is
  not a semaphore returns the counter before plus their sum and leaves zero, and a
  semaphore returns 1 and leaves one less; the sum is taken modulo \<open>2^64\<close>, so a total that
  wraps to zero reads as \<open>EAGAIN\<close>, as if nothing had been written.
\<close>

theorem eventfd_accumulates:
  fixes vs :: "u64 list"
  assumes "fd_reach os st" and "fake_eventfd_from_fd st fd = Some i"
    and "st1 = fold (\<lambda>v s. snd (eventfd_write os fd v s)) vs st"
    and "tot = ev_counter (fake_eventfds st ! i) + sum_list vs"
    and "eventfd_read os fd st1 = (v, st2)"
  shows "ev_counter (fake_eventfds st1 ! i) = tot \<and>
    (if tot = 0 then v = None \<and> st2 = st1
     else if ev_flags (fake_eventfds st ! i) AND EFD_SEMAPHORE = 0
     then v = Some tot \<and> ev_counter (fake_eventfds st2 ! i) = 0
     else v = Some 1 \<and> ev_counter (fake_eventfds st2 ! i) = tot - 1)"
proof -
  have ok: "fds_ok st" using assms(1) by (rule reach_ok)
  note W = eventfd_writes [OF ok assms(2), of os vs, folded assms(3)]
  have len: "i < length (fake_eventfds st1)"
    using found_eventD(1) [OF W(1,2)] W(1) by (simp add: fds_ok_def)
  show ?thesis
    using assms(5) W(2,3) len
    by (auto simp: eventfd_read_def read_fd_def Let_def assms(4) put_event_def le_word_64 split: if_splits)
qed

theorem eventfd_accumulates_witness:
  "fst (eventfd_read no_os 1000 (fold (\<lambda>v s. snd (eventfd_write no_os 1000 v s)) [7, 30] demo_pair)) = Some 42"
proof -
  let ?st1 = "fold (\<lambda>v s. snd (eventfd_write no_os 1000 v s)) [7, 30] demo_pair"
  obtain v st2 where run: "eventfd_read no_os 1000 ?st1 = (v, st2)" by fastforce
  from eventfd_accumulates [OF demo_pair_reach demo_pair_simps(1) refl refl run] run
  show ?thesis by (simp add: demo_pair_simps)
qed

text \<open>
  C30: \<open>epoll_wait\<close> reports, in the order of the watch slots and up to \<open>maxevents\<close> of
  them, exactly the used watches that ask for input on an eventfd whose counter is not
  zero, each with the data it was registered with and the single flag \<open>EPOLLIN\<close>; the
  timeout has no influence and a missing buffer or a bad \<open>maxevents\<close> is \<open>EINVAL\<close>.
\<close>

theorem epoll_wait_reports_ready:
  assumes "fake_epoll_from_fd st epfd = Some k"
  shows "epoll_wait os epfd events_null maxevents timeout st =
    (if events_null \<or> maxevents \<le> 0 then (Inl EINVAL, st)
     else (Inr (take (nat maxevents)
       (map (\<lambda>w. (w_event w)\<lparr>ee_events := EPOLLIN\<rparr>)
         (filter (\<lambda>w. w_used w \<and> ee_events (w_event w) AND EPOLLIN \<noteq> 0 \<and>
            (\<exists>i. fake_eventfd_from_fd st (w_fd w) = Some i \<and> ev_counter (fake_eventfds st ! i) \<noteq> 0))
           (watches (fake_epolls st ! k))))), st))"
  using assms epoll_scan_filter [of st 0 "nat maxevents"] by (simp add: epoll_wait_def)

theorem epoll_wait_reports_ready_witness:
  "epoll_wait no_os 1100 False 1 (-1) demo_watching = (Inr [\<lparr>ee_events = 1, ee_data = 7\<rparr>], demo_watching)"
proof -
  have found: "fake_epoll_from_fd demo_watching 1100 = Some 0" "fake_eventfd_from_fd demo_watching 1000 = Some 0"
    "ev_counter (fake_eventfds demo_watching ! 0) = 5"
    using demo_pair_simps
    by (simp_all add: demo_watching_def fake_epoll_from_fd_def fake_eventfd_from_fd_def put_epoll_def
        first_index_Some)
  have ws: "watches (fake_epolls demo_watching ! 0) =
      \<lparr>w_used = True, w_fd = 1000, w_event = \<lparr>ee_events = 5, ee_data = 7\<rparr>\<rparr> # replicate 7 zero_watch"
    using demo_pair_simps(2)
    by (auto simp: demo_watching_def put_epoll_def fake_epoll_from_fd_def first_index_Some)
  show ?thesis unfolding epoll_wait_reports_ready [OF found(1)] ws
    by (simp add: found(2,3) zero_watch_def EPOLLIN_def)
qed

end
