(* ===== verification/Archive_Fd.thy ===== *)
theory Archive_Fd
  imports Cpio_Fs Fake_Fd
begin

text \<open>
  Descriptors of archive files under \<open>read\<close> and \<open>close\<close>. The component's own \<open>read\<close> and
  \<open>close\<close> (\<^verbatim>\<open>stub/ruby_syscall_poll.c\<close>) pass every descriptor that is not a fake one on to
  libsel4muslcsys, which serves it from the object that \<open>open\<close> (\<^verbatim>\<open>ruby_syscall_fs.c\<close>)
  allocated on the heap of \<^verbatim>\<open>ruby_alloc.c\<close>. The state is one record: the tables of fake
  descriptors, and behind them the library's descriptor table and the heap.

  The handlers of the library are the parameter \<open>os\<close>; \<open>reads_archive\<close> and
  \<open>closes_archive\<close> say what they do. \<open>file_at\<close> is the abstraction of an object: the contents
  of its file and the position.
\<close>

section \<open>Outside the arena\<close>

definition outside_arena :: "addr \<Rightarrow> addr \<Rightarrow> nat \<Rightarrow> bool" where
  "outside_arena A a n \<longleftrightarrow>
     unat a + n \<le> unat A \<or> unat A + 67108864 \<le> unat a \<and> unat a + n < 2 ^ 64"

lemma outside_arenaD:
  assumes "outside_arena A a n" and "arena_at A" and "i < n"
  shows "unat (a + of_nat i) = unat a + i"
    and "unat (a + of_nat i) < unat A \<or> unat A + 67108864 \<le> unat (a + of_nat i)"
proof -
  show u: "unat (a + of_nat i) = unat a + i"
    by (rule unat_offset [where n = n]) (use assms in \<open>auto simp: outside_arena_def arena_at_def\<close>)
  show "unat (a + of_nat i) < unat A \<or> unat A + 67108864 \<le> unat (a + of_nat i)"
    unfolding u using assms(1,3) by (auto simp: outside_arena_def)
qed

lemma loads_outside:
  assumes "outside_arena A a n" and "arena_at A"
    and "\<And>x. unat x < unat A \<or> unat A + 67108864 \<le> unat x \<Longrightarrow> m' x = m x"
  shows "loads n m' a = loads n m a"
  by (rule loads_cong) (use outside_arenaD(2) [OF assms(1,2)] assms(3) in blast)

section \<open>The object of an open file\<close>

definition file_at :: "addr \<Rightarrow> cpio_layout \<Rightarrow> mem \<Rightarrow> addr \<Rightarrow> byte list \<Rightarrow> nat \<Rightarrow> bool" where
  "file_at A ly m d content pos \<longleftrightarrow>
     unat (cpio_size ly m d) = length content \<and> unat (cpio_current ly m d) = pos \<and> pos \<le> length content \<and>
     outside_arena A (cpio_start ly m d) (length content) \<and>
     loads (length content) m (cpio_start ly m d) = content"

lemma current_cong:
  assumes "layout_ok ly" and "unat d + 4096 < 2 ^ 64"
    and "\<And>x. unat d \<le> unat x \<Longrightarrow> unat x < unat d + unat (sizeof_cpio ly) \<Longrightarrow> m x = m' x"
  shows "cpio_current ly m d = cpio_current ly m' d"
proof -
  have o: "unat (d + off_current ly) = unat d + unat (off_current ly)"
    using assms(1,2) unfolding layout_ok_def by (intro unat_add_no_wrap; linarith)
  show ?thesis unfolding cpio_current_def
    by (rule load32_cong) (use assms o in \<open>auto simp: layout_ok_def\<close>)
qed

text \<open>An object is what its own bytes and the archive say.\<close>

lemma file_at_cong:
  assumes "file_at A ly m d content pos" and "layout_ok ly" and "unat d + 4096 < 2 ^ 64" and "arena_at A"
    and obj: "\<And>x. unat d \<le> unat x \<Longrightarrow> unat x < unat d + unat (sizeof_cpio ly) \<Longrightarrow> m' x = m x"
    and out: "\<And>x. unat x < unat A \<or> unat A + 67108864 \<le> unat x \<Longrightarrow> m' x = m x"
  shows "file_at A ly m' d content pos"
proof -
  note c = cpio_fields_cong [OF assms(2,3) obj] current_cong [OF assms(2,3) obj]
  have "outside_arena A (cpio_start ly m d) (length content)" using assms(1) by (simp add: file_at_def)
  from loads_outside [OF this assms(4) out] assms(1) c show ?thesis by (simp add: file_at_def)
qed

lemma file_at_keeps:
  assumes "file_at A ly (hmem s) d content pos" and "layout_ok ly" and "heap_rep A s L" and "L d = Some k"
    and "unat (sizeof_cpio ly) \<le> k" and "keeps A L' s s'" and "L' d = Some k"
  shows "file_at A ly (hmem s') d content pos"
proof (rule file_at_cong [OF assms(1,2) _ heap_rep_arena [OF assms(3)]])
  show "unat d + 4096 < 2 ^ 64" using live_bounds(4) [OF assms(3,4)] by linarith
  show "hmem s' x = hmem s x" if "unat d \<le> unat x" "unat x < unat d + unat (sizeof_cpio ly)" for x
    by (rule keepsD(2) [OF assms(6,7)]) (use that assms(5) in linarith)+
qed (rule keeps_outside [OF assms(6)])

text \<open>Storing the position changes nothing else of the object.\<close>

lemma current_store:
  assumes ly: "layout_ok ly" and d: "unat d + unat (sizeof_cpio ly) < 2 ^ 64"
  shows "cpio_current ly (store32 m (d + off_current ly) v) d = v"
    and "cpio_start ly (store32 m (d + off_current ly) v) d = cpio_start ly m d"
    and "cpio_size ly (store32 m (d + off_current ly) v) d = cpio_size ly m d"
    and "\<not> (unat d \<le> unat x \<and> unat x < unat d + unat (sizeof_cpio ly)) \<Longrightarrow>
      store32 m (d + off_current ly) v x = m x"
proof -
  note o = layout_offsets [OF ly d]
  have L: "unat (off_start ly) + 8 \<le> unat (sizeof_cpio ly)" "unat (off_size ly) + 4 \<le> unat (sizeof_cpio ly)"
    "unat (off_current ly) + 4 \<le> unat (sizeof_cpio ly)"
    and D: "unat (off_start ly) + 8 \<le> unat (off_current ly) \<or> unat (off_current ly) + 4 \<le> unat (off_start ly)"
     "unat (off_size ly) + 4 \<le> unat (off_current ly) \<or> unat (off_current ly) + 4 \<le> unat (off_size ly)"
    using ly by (auto simp: layout_ok_def)
  have out: "store32 m (d + off_current ly) v x = m x"
    if "\<not> (unat d + unat (off_current ly) \<le> unat x \<and> unat x < unat d + unat (off_current ly) + 4)" for x
    by (rule store32_outside) (use o L d that in auto)
  show "cpio_current ly (store32 m (d + off_current ly) v) d = v"
    by (simp add: cpio_current_def mem_simps)
  show "cpio_start ly (store32 m (d + off_current ly) v) d = cpio_start ly m d"
    unfolding cpio_start_def by (rule load64_cong) (use o L D d in \<open>auto intro!: out\<close>)
  show "cpio_size ly (store32 m (d + off_current ly) v) d = cpio_size ly m d"
    unfolding cpio_size_def by (rule load32_cong) (use o L D d in \<open>auto intro!: out\<close>)
  show "\<not> (unat d \<le> unat x \<and> unat x < unat d + unat (sizeof_cpio ly)) \<Longrightarrow>
      store32 m (d + off_current ly) v x = m x"
    by (rule out) (use L in auto)
qed

section \<open>The library's handlers\<close>

text \<open>
  \<open>read\<close> on a descriptor of the archive hands out what is left of the file, at most the
  number of bytes asked for, and moves the position on; \<open>close\<close> frees the object and
  gives the number back.
\<close>

definition read_archive :: "cpio_layout \<Rightarrow> addr \<Rightarrow> u64 \<Rightarrow> mem \<Rightarrow> byte list \<times> mem" where
  "read_archive ly d n m =
     (let left = ucast (cpio_size ly m d) - ucast (cpio_current ly m d) :: u64;
          k = (if n < left then n else left)
      in (loads (unat k) m (cpio_start ly m d + ucast (cpio_current ly m d)),
          store32 m (d + off_current ly) (cpio_current ly m d + ucast k)))"

definition reads_archive :: "cpio_layout \<Rightarrow> 'f fdlib \<Rightarrow> ('f \<times> heap) os_calls \<Rightarrow> bool" where
  "reads_archive ly lib os \<longleftrightarrow> (\<forall>f s fd n d. cpio_file_for_fd lib f fd = Some d \<longrightarrow>
     os_read os fd False n (f, s) =
       (Inr (fst (read_archive ly d n (hmem s))), (f, s\<lparr>hmem := snd (read_archive ly d n (hmem s))\<rparr>)))"

definition closes_archive :: "'f fdlib \<Rightarrow> ('f \<times> heap) os_calls \<Rightarrow> bool" where
  "closes_archive lib os \<longleftrightarrow> (\<forall>f s fd d. cpio_file_for_fd lib f fd = Some d \<longrightarrow>
     os_close os fd (f, s) = (Inr 0, (add_free_fd lib fd f, free d s)))"

lemma take_drop_loads:
  assumes "pos \<le> n" and "k \<le> n - pos"
  shows "loads k m (a + of_nat pos) = take k (drop pos (loads n m a))"
proof (intro nth_equalityI)
  fix i
  assume "i < length (loads k m (a + of_nat pos))"
  then have "i < k" "pos + i < n" using assms by simp_all
  then show "loads k m (a + of_nat pos) ! i = take k (drop pos (loads n m a)) ! i"
    using assms(1) by (simp add: loads_def add.assoc)
qed (use assms in simp)

lemma read_archive_file:
  fixes n :: u64
  assumes F: "file_at A ly m d content pos" and ly: "layout_ok ly" and ar: "arena_at A"
    and d: "unat A \<le> unat d" "unat d + unat (sizeof_cpio ly) \<le> unat A + 67108864"
  defines "bs \<equiv> take (unat n) (drop pos content)"
  shows "fst (read_archive ly d n m) = bs"
    and "file_at A ly (snd (read_archive ly d n m)) d content (pos + length bs)"
    and "\<not> (unat d \<le> unat x \<and> unat x < unat d + unat (sizeof_cpio ly)) \<Longrightarrow>
      snd (read_archive ly d n m) x = m x"
proof -
  have sz: "unat (cpio_size ly m d) = length content" "unat (cpio_current ly m d) = pos" "pos \<le> length content"
    and out: "outside_arena A (cpio_start ly m d) (length content)"
    and c: "loads (length content) m (cpio_start ly m d) = content"
    using F by (simp_all add: file_at_def)
  have "unat (cpio_size ly m d) < 2 ^ LENGTH(32)" by (rule unsigned_less)
  then have len32: "length content < 2 ^ 32" using sz(1) by simp
  define left :: u64 where "left = ucast (cpio_size ly m d) - ucast (cpio_current ly m d)"
  have left: "unat left = length content - pos"
    unfolding left_def using sz by (simp add: unat_sub word_le_nat_alt)
  define k where "k = (if n < left then n else left)"
  have k: "unat k = length bs"
    by (auto simp: k_def word_less_nat_alt left bs_def min_def)
  have cur: "ucast (cpio_current ly m d) = (of_nat pos :: u64)"
    using sz(2,3) len32 by (simp add: word_unat_eq_iff unat_of_nat)
  have lk: "length bs \<le> length content - pos" by (simp add: bs_def)
  have tk: "take (length bs) (drop pos content) = bs" by (auto simp: bs_def min_def)
  from lk have l32: "pos + length bs < 4294967296" using sz(3) len32 by simp
  have ra: "read_archive ly d n m = (loads (unat k) m (cpio_start ly m d + of_nat pos),
      store32 m (d + off_current ly) (cpio_current ly m d + ucast k))"
    by (simp add: read_archive_def Let_def k_def left_def flip: cur)
  have lim: "unat d + unat (sizeof_cpio ly) < 2 ^ 64" using d ar by (simp add: arena_at_def)
  let ?m = "store32 m (d + off_current ly) (cpio_current ly m d + ucast k)"
  note S = current_store [OF ly lim, where m = m and v = "cpio_current ly m d + ucast k"]
  have "?m x = m x" if "unat x < unat A \<or> unat A + 67108864 \<le> unat x" for x
    by (rule S(4)) (use that d in linarith)
  then have "loads (length content) ?m (cpio_start ly m d) = content"
    using loads_outside [OF out ar, of ?m m] c by simp
  moreover have "unat (cpio_current ly m d + ucast k) = pos + length bs"
    using sz k l32 by (simp add: unat_plus_if' unsigned_ucast_eq take_bit_nat_eq_self)
  ultimately show "file_at A ly (snd (read_archive ly d n m)) d content (pos + length bs)"
    unfolding ra using S(1-3) sz out lk by (simp add: file_at_def)
  show "fst (read_archive ly d n m) = bs"
    unfolding ra using take_drop_loads [OF sz(3) lk, of m "cpio_start ly m d"] k c tk by simp
  show "\<not> (unat d \<le> unat x \<and> unat x < unat d + unat (sizeof_cpio ly)) \<Longrightarrow>
      snd (read_archive ly d n m) x = m x"
    unfolding ra using S(4) by simp
qed

section \<open>read and close of the component\<close>

text \<open>The heap of the component, changed behind the tables of fake descriptors.\<close>

abbreviation comp_heap :: "('f \<times> heap) fake_fds \<Rightarrow> heap" where
  "comp_heap w \<equiv> snd (os_world w)"

definition on_heap :: "(heap \<Rightarrow> heap) \<Rightarrow> ('f \<times> heap) fake_fds \<Rightarrow> ('f \<times> heap) fake_fds" where
  "on_heap g w = w\<lparr>os_world := (fst (os_world w), g (comp_heap w))\<rparr>"

definition store_bytes :: "addr \<Rightarrow> byte list \<Rightarrow> ('f \<times> heap) fake_fds \<Rightarrow> ('f \<times> heap) fake_fds" where
  "store_bytes p bs = on_heap (\<lambda>s. s\<lparr>hmem := stores (hmem s) p bs\<rparr>)"

lemma on_heap_simps [simp]:
  "os_world (on_heap g w) = (fst (os_world w), g (comp_heap w))"
  "fds_ok (on_heap g w) = fds_ok w"
  "fake_eventfd_from_fd (on_heap g w) fd = fake_eventfd_from_fd w fd"
  "fake_epoll_from_fd (on_heap g w) fd = fake_epoll_from_fd w fd"
  by (simp_all add: on_heap_def)

text \<open>\<open>read\<close> into the \<open>n\<close> bytes at \<open>p\<close>: what it hands out is stored there.\<close>

definition read_into ::
    "('f \<times> heap) os_calls \<Rightarrow> int \<Rightarrow> addr \<Rightarrow> u64 \<Rightarrow> ('f \<times> heap) fake_fds \<Rightarrow>
       u64 result \<times> ('f \<times> heap) fake_fds" where
  "read_into os fd p n w =
     (case read_fd os fd (p = 0) n w of
        (Inl e, w1) \<Rightarrow> (Inl e, w1)
      | (Inr bs, w1) \<Rightarrow> (Inr (of_nat (length bs)), store_bytes p bs w1))"

lemma stores_apply:
  assumes "unat p + length bs \<le> 2 ^ 64"
  shows "stores m p bs x =
    (if unat p \<le> unat x \<and> unat x < unat p + length bs then bs ! (unat x - unat p) else m x)"
proof (cases "unat p \<le> unat x \<and> unat x < unat p + length bs")
  case True
  then have "unat (x - p) = unat x - unat p" by (simp add: unat_sub word_le_nat_alt)
  then show ?thesis using True in_range_nat [OF assms, of x] by (simp add: stores_def)
next
  case False
  then show ?thesis using in_range_nat [OF assms, of x] by (auto simp: stores_def)
qed

text \<open>Two blocks written at once: everything else that is live stays.\<close>

lemma write_two_rep:
  assumes rep: "heap_rep A s L" and L: "L d = Some k" "L q = Some c"
    and out: "\<And>x. \<not> (unat d \<le> unat x \<and> unat x < unat d + k) \<Longrightarrow>
      \<not> (unat q \<le> unat x \<and> unat x < unat q + c) \<Longrightarrow> m x = hmem s x"
  shows "heap_rep A (s\<lparr>hmem := m\<rparr>) L" and "keeps A (L(d := None, q := None)) s (s\<lparr>hmem := m\<rparr>)"
proof -
  define m1 where "m1 = (\<lambda>x. if unat q \<le> unat x \<and> unat x < unat q + c then m x else hmem s x)"
  have i: "m1 x = hmem s x" if "\<not> (unat q \<le> unat x \<and> unat x < unat q + c)" for x
    using that by (auto simp: m1_def)
  note rep1 = write_rep(1,2) [OF rep L(2) i]
  have o: "m x = hmem (s\<lparr>hmem := m1\<rparr>) x" if "\<not> (unat d \<le> unat x \<and> unat x < unat d + k)" for x
    using out [OF that] by (simp add: m1_def)
  note W = write_rep(1,2) [OF rep1(1) L(1) o]
  show "heap_rep A (s\<lparr>hmem := m\<rparr>) L" using W(1) by simp
  have "L(d := None, q := None) \<subseteq>\<^sub>m L(q := None)" "L(d := None, q := None) \<subseteq>\<^sub>m L(d := None)"
    by (auto simp: map_le_def)
  then show "keeps A (L(d := None, q := None)) s (s\<lparr>hmem := m\<rparr>)"
    using keeps_trans [OF keeps_mono [OF rep1(2)] keeps_mono [OF W(2)]] by simp
qed

text \<open>
  A read of an archive file into part of another live block: it gives the next bytes of the
  file and changes the object, the bytes it stores, and nothing else.
\<close>

lemma read_into_file:
  fixes n :: u64
  assumes lw: "os_world w = (f, s)" and rd: "reads_archive ly lib os" and ly: "layout_ok ly"
    and fd: "fake_eventfd_from_fd w fd = None" "cpio_file_for_fd lib f fd = Some d"
    and rep: "heap_rep A s L" and L: "L d = Some k" "L q = Some c" "d \<noteq> q" and k: "unat (sizeof_cpio ly) \<le> k"
    and F: "file_at A ly (hmem s) d content pos"
    and p: "unat q \<le> unat p" "unat p + unat n \<le> unat q + c"
  defines "bs \<equiv> take (unat n) (drop pos content)"
  shows "\<exists>s'. read_into os fd p n w = (Inr (of_nat (length bs)), w\<lparr>os_world := (f, s')\<rparr>) \<and>
    heap_rep A s' L \<and> keeps A (L(d := None, q := None)) s s' \<and>
    file_at A ly (hmem s') d content (pos + length bs) \<and>
    (\<forall>x. unat q \<le> unat x \<and> unat x < unat q + c \<longrightarrow>
       hmem s' x = (if unat p \<le> unat x \<and> unat x < unat p + length bs then bs ! (unat x - unat p) else hmem s x))"
proof -
  note ar = heap_rep_arena [OF rep]
  note bd = live_bounds [OF rep L(1)] and bq = live_bounds [OF rep L(2)] and dis = live_disjoint [OF rep L]
  define m1 where "m1 = snd (read_archive ly d n (hmem s))"
  have din: "unat A \<le> unat d" "unat d + unat (sizeof_cpio ly) \<le> unat A + 67108864" using bd(1,3) k by linarith+
  note R = read_archive_file [OF F ly ar din, where n = n, folded bs_def m1_def]
  have lb: "length bs \<le> unat n" by (simp add: bs_def)
  then have lim: "unat p + length bs \<le> 2 ^ 64" using p(2) bq(4) by linarith
  let ?m = "stores m1 p bs" and ?w = "w\<lparr>os_world := (f, s\<lparr>hmem := stores m1 p bs\<rparr>)\<rparr>"
  have "p \<noteq> 0" using p(1) bq(6) by (auto simp: unat_eq_zero)
  then have run: "read_into os fd p n w = (Inr (of_nat (length bs)), ?w)"
    using rd fd R(1) lw
    by (simp add: read_into_def read_fd_def syscall_def reads_archive_def store_bytes_def on_heap_def m1_def)
  note S = stores_apply [OF lim, of m1]
  have out: "?m x = m1 x" if "\<not> (unat q \<le> unat x \<and> unat x < unat q + c)" for x
    using that p lb by (auto simp: S)
  have m1: "m1 x = hmem s x" if "\<not> (unat d \<le> unat x \<and> unat x < unat d + k)" for x
    by (rule R(3)) (use that k in linarith)
  have "?m x = hmem s x" if "\<not> (unat d \<le> unat x \<and> unat x < unat d + k)"
      "\<not> (unat q \<le> unat x \<and> unat x < unat q + c)" for x
    using out m1 that by simp
  note W = write_two_rep [OF rep L(1,2) this]
  have "file_at A ly ?m d content (pos + length bs)"
  proof (rule file_at_cong [OF R(2) ly _ ar])
    show "unat d + 4096 < 2 ^ 64" using bd(4) by linarith
    show "?m x = m1 x" if "unat d \<le> unat x" "unat x < unat d + unat (sizeof_cpio ly)" for x
      by (rule out) (use that dis k in linarith)
    show "?m x = m1 x" if "unat x < unat A \<or> unat A + 67108864 \<le> unat x" for x
      by (rule out) (use that bq(1,3) in linarith)
  qed
  moreover have "?m x = (if unat p \<le> unat x \<and> unat x < unat p + length bs then bs ! (unat x - unat p) else hmem s x)"
    if "unat q \<le> unat x" "unat x < unat q + c" for x
    unfolding S using m1 [of x] that dis by auto
  ultimately show ?thesis using run W by (intro exI [of _ "s\<lparr>hmem := ?m\<rparr>"]) simp
qed

lemma close_file:
  assumes "os_world w = (f, s)" and "closes_archive lib os" and "cpio_file_for_fd lib f fd = Some d"
    and "fake_eventfd_from_fd w fd = None" and "fake_epoll_from_fd w fd = None"
  shows "close_fd os fd w = (Inr 0, w\<lparr>os_world := (add_free_fd lib fd f, free d s)\<rparr>)"
  using assms by (simp add: close_fd_def syscall_def closes_archive_def)

text \<open>What \<open>open\<close> made, as an object.\<close>

lemma opened_file:
  assumes "opened A ly lib L s start sz fd f' s'" and "arena_at A" and "unat sz < 2 ^ 32"
    and "outside_arena A start (unat sz)"
  shows "\<exists>d k. L d = None \<and> unat (sizeof_cpio ly) \<le> k \<and> heap_rep A s' (L(d \<mapsto> k)) \<and> keeps A L s s' \<and>
    cpio_file_for_fd lib f' fd = Some d \<and> cpio_size ly (hmem s') d = ucast sz \<and>
    file_at A ly (hmem s') d (loads (unat sz) (hmem s) start) 0"
proof -
  obtain d k where d: "L d = None" "unat (sizeof_cpio ly) \<le> k" "heap_rep A s' (L(d \<mapsto> k))" "keeps A L s s'"
    "cpio_file_for_fd lib f' fd = Some d" "cpio_start ly (hmem s') d = start"
    "cpio_size ly (hmem s') d = ucast sz" "cpio_current ly (hmem s') d = 0"
    using assms(1) by (auto simp: opened_def)
  have "unat (ucast sz :: u32) = unat sz"
    using assms(3) by (simp add: unsigned_ucast_eq take_bit_nat_eq_self_iff)
  moreover have "loads (unat sz) (hmem s') start = loads (unat sz) (hmem s) start"
    by (rule loads_outside [OF assms(4,2) keeps_outside [OF d(4)]])
  ultimately have "file_at A ly (hmem s') d (loads (unat sz) (hmem s) start) 0"
    using d(6-8) assms(4) by (simp add: file_at_def)
  with d show ?thesis by blast
qed

end
