(* ===== verification/Ruby_System.thy ===== *)
theory Ruby_System
  imports Ruby_Run Archive_Fd
begin

text \<open>
  The main program over the component's own calls: \<open>read_script\<close> reaches \<open>open\<close> and
  \<open>fstat\<close> of \<^verbatim>\<open>ruby_syscall_fs.c\<close>, \<open>malloc\<close> and \<open>free\<close> of \<^verbatim>\<open>ruby_alloc.c\<close>, and \<open>read\<close> and
  \<open>close\<close> of \<^verbatim>\<open>stub/ruby_syscall_poll.c\<close>, over one memory. The state is that of
  \<^verbatim>\<open>Archive_Fd\<close>: the tables of fake descriptors, and behind them the descriptor table of
  libsel4muslcsys and the heap.
\<close>

section \<open>The calls\<close>

definition component_calls ::
    "addr \<Rightarrow> cpio_layout \<Rightarrow> 'f fdlib \<Rightarrow> cpio \<Rightarrow> ('f \<times> heap) os_calls \<Rightarrow>
       ('f \<times> heap) fake_fds script_calls" where
  "component_calls A ly lib ar os = \<lparr>
     sc_mem = (\<lambda>w. hmem (comp_heap w)),
     sc_poke = (\<lambda>a b. on_heap (\<lambda>s. s\<lparr>hmem := (hmem s)(a := b)\<rparr>)),
     sc_open = (\<lambda>path w. map_option (\<lambda>(r, v). (r, w\<lparr>os_world := v\<rparr>))
        (open_path (ruby_sys_openat A ly lib ar) (Some path) O_RDONLY (os_world w))),
     sc_fstat = (\<lambda>fd w. (case fstat ly lib fd False (os_world w) of
        Inl e \<Rightarrow> Inl e | Inr b \<Rightarrow> Inr (st_size b), w)),
     sc_malloc = (\<lambda>n w. case malloc A n (comp_heap w) of
        None \<Rightarrow> None
      | Some (Inl e, s1) \<Rightarrow> Some (0, on_heap (\<lambda>_. s1) w)
      | Some (Inr p, s1) \<Rightarrow> Some (p, on_heap (\<lambda>_. s1) w)),
     sc_read = read_into os,
     sc_close = (\<lambda>fd w. snd (close_fd os fd w)),
     sc_free = (\<lambda>a. on_heap (free a))\<rparr>"

lemma component_call_simps:
  "sc_mem (component_calls A ly lib ar os) w = hmem (comp_heap w)"
  "sc_poke (component_calls A ly lib ar os) a b w = on_heap (\<lambda>s. s\<lparr>hmem := (hmem s)(a := b)\<rparr>) w"
  "sc_read (component_calls A ly lib ar os) = read_into os"
  "sc_close (component_calls A ly lib ar os) fd w = snd (close_fd os fd w)"
  "sc_free (component_calls A ly lib ar os) a w = on_heap (free a) w"
  by (simp_all add: component_calls_def)

section \<open>Reading the archive\<close>

text \<open>
  The state between two reads, against the state \<open>w0\<close> before the file was opened: the
  object \<open>d\<close> of the descriptor and the buffer are the two new live blocks, the object is at
  position \<open>n\<close> of the file, the buffer holds the bytes before it, and everything live in
  \<open>w0\<close> and all fake descriptors are as they were there.
\<close>

definition reading where
  "reading A ly lib os L w0 g d k c fd buffer content n w \<longleftrightarrow>
     (let (f, s) = os_world w in f = g \<and>
      reads_archive ly lib os \<and> closes_archive lib os \<and> layout_ok ly \<and> fds_ok w0 \<and> fd < 1000 \<and>
      L d = None \<and> L buffer = None \<and> d \<noteq> buffer \<and> unat (sizeof_cpio ly) \<le> k \<and> length content + 1 \<le> c \<and>
      length content < 2 ^ 32 \<and> w = w0\<lparr>os_world := os_world w\<rparr> \<and>
      heap_rep A s (L(d \<mapsto> k, buffer \<mapsto> c)) \<and> keeps A L (comp_heap w0) s \<and>
      cpio_file_for_fd lib f fd = Some d \<and> file_at A ly (hmem s) d content n \<and>
      (\<forall>i<n. hmem s (buffer + of_nat i) = content ! i))"

lemma readingD:
  assumes "reading A ly lib os L w0 g d k c fd buffer content n w" and "os_world w = (f, s)"
  shows "reads_archive ly lib os" and "closes_archive lib os" and "layout_ok ly"
    and "fds_ok w0" and "fd < 1000" and "L d = None" and "L buffer = None" and "d \<noteq> buffer"
    and "unat (sizeof_cpio ly) \<le> k" and "length content + 1 \<le> c" and "length content < 2 ^ 32"
    and "w = w0\<lparr>os_world := (f, s)\<rparr>" and "heap_rep A s (L(d \<mapsto> k, buffer \<mapsto> c))"
    and "keeps A L (comp_heap w0) s" and "cpio_file_for_fd lib f fd = Some d"
    and "file_at A ly (hmem s) d content n" and "n \<le> length content"
    and "i < n \<Longrightarrow> hmem s (buffer + of_nat i) = content ! i"
    and "fake_eventfd_from_fd w fd = None" and "fake_epoll_from_fd w fd = None" and "f = g"
proof -
  show w: "w = w0\<lparr>os_world := (f, s)\<rparr>" and ok: "fds_ok w0" "fd < 1000" and F: "file_at A ly (hmem s) d content n"
    using assms by (simp_all add: reading_def)
  show "fake_eventfd_from_fd w fd = None" "fake_epoll_from_fd w fd = None"
    using not_fake [OF ok] by (subst w, simp)+
  show "n \<le> length content" using F by (simp add: file_at_def)
qed (use assms in \<open>auto simp: reading_def\<close>)

text \<open>One read, into the next free bytes of the buffer.\<close>

lemma reading_step:
  assumes R: "reading A ly lib os L w0 g d k c fd buffer content n w" and n: "n < length content"
  shows "\<exists>j w'. read_into os fd (buffer + of_nat n) (of_nat (length content - n)) w = (Inr j, w') \<and>
    0 < unat j \<and> unat j \<le> length content - n \<and>
    reading A ly lib os L w0 g d k c fd buffer content (n + unat j) w'"
proof -
  obtain f s where w: "os_world w = (f, s)" by fastforce
  let ?L = "L(d \<mapsto> k, buffer \<mapsto> c)" and ?len = "length content"
  note D = readingD [OF R w]
  have laws: "reads_archive ly lib os" "closes_archive lib os" "layout_ok ly"
    and fds: "fds_ok w0" "fd < 1000" and new: "L d = None" "L buffer = None" "d \<noteq> buffer"
    and sz: "unat (sizeof_cpio ly) \<le> k" "?len + 1 \<le> c" and len32: "?len < 2 ^ 32"
    and ww: "w = w0\<lparr>os_world := (f, s)\<rparr>" and rep: "heap_rep A s ?L" and kp: "keeps A L (comp_heap w0) s"
    and cf: "cpio_file_for_fd lib f fd = Some d" and F: "file_at A ly (hmem s) d content n"
    and got: "\<And>i. i < n \<Longrightarrow> hmem s (buffer + of_nat i) = content ! i"
    and ne: "fake_eventfd_from_fd w fd = None" and tb: "f = g" by (fact D)+
  have ld: "?L d = Some k" "?L buffer = Some c" using new by simp_all
  note bb = live_bounds [OF rep ld(2)]
  define j :: u64 where "j = of_nat (?len - n)"
  have uj: "unat j = ?len - n" using len32 by (simp add: j_def unat_of_nat)
  have ub: "unat (buffer + of_nat i) = unat buffer + i" if "i \<le> ?len" for i
    by (rule unat_offset [where n = ?len]) (use bb sz that in auto)
  have p: "unat buffer \<le> unat (buffer + of_nat n)" "unat (buffer + of_nat n) + unat j \<le> unat buffer + c"
    using ub [of n] n uj sz(2) by simp_all
  have tk: "take (unat j) (drop n content) = drop n content" using uj by simp
  obtain s' where s': "read_into os fd (buffer + of_nat n) j w =
        (Inr (of_nat (length (drop n content))), w\<lparr>os_world := (f, s')\<rparr>)"
    "heap_rep A s' ?L" "keeps A (?L(d := None, buffer := None)) s s'"
    "file_at A ly (hmem s') d content (n + length (drop n content))"
    and at: "\<And>x. unat buffer \<le> unat x \<Longrightarrow> unat x < unat buffer + c \<Longrightarrow> hmem s' x =
       (if unat (buffer + of_nat n) \<le> unat x \<and> unat x < unat (buffer + of_nat n) + length (drop n content)
        then drop n content ! (unat x - unat (buffer + of_nat n)) else hmem s x)"
    using read_into_file [OF w laws(1,3) ne cf rep ld new(3) sz(1) F p, unfolded tk] by blast
  have undo: "?L(d := None, buffer := None) = L" using new by auto
  have buf: "hmem s' (buffer + of_nat i) = content ! i" if "i < ?len" for i
    using at [of "buffer + of_nat i"] ub [of i] ub [of n] that n sz(2) got [of i] by (auto simp: nth_append)
  have j: "of_nat (length (drop n content)) = j" by (simp add: j_def)
  have "w\<lparr>os_world := (f, s')\<rparr> = w0\<lparr>os_world := (f, s')\<rparr>" by (subst ww) simp
  then have "reading A ly lib os L w0 g d k c fd buffer content (n + unat j) (w\<lparr>os_world := (f, s')\<rparr>)"
    unfolding reading_def using laws fds new sz len32 s'(2,4) keeps_trans [OF kp s'(3) [unfolded undo]] cf buf uj n tb
    by simp
  then show ?thesis using s'(1) uj n unfolding j j_def [symmetric] by auto
qed

text \<open>Closing the descriptor frees the object and leaves the buffer.\<close>

lemma reading_close:
  assumes R: "reading A ly lib os L w0 g d k c fd buffer content n w"
  defines "w' \<equiv> snd (close_fd os fd w)"
  shows "heap_rep A (comp_heap w') (L(buffer \<mapsto> c))" and "keeps A L (comp_heap w0) (comp_heap w')"
    and "w' = w0\<lparr>os_world := os_world w'\<rparr>"
    and "i < n \<Longrightarrow> hmem (comp_heap w') (buffer + of_nat i) = content ! i"
    and "n \<le> length content \<and> unat buffer + length content + 1 < 2 ^ 64"
    and "fst (os_world w') = add_free_fd lib fd g"
proof -
  obtain f s where w: "os_world w = (f, s)" by fastforce
  note D = readingD [OF R w]
  have laws: "closes_archive lib os"
    and new: "L d = None" "L buffer = None" "d \<noteq> buffer" and sz: "length content + 1 \<le> c" "n \<le> length content"
    and ww: "w = w0\<lparr>os_world := (f, s)\<rparr>" and rep: "heap_rep A s (L(d \<mapsto> k, buffer \<mapsto> c))"
    and kp: "keeps A L (comp_heap w0) s" and cf: "cpio_file_for_fd lib f fd = Some d"
    and got: "\<And>i. i < n \<Longrightarrow> hmem s (buffer + of_nat i) = content ! i"
    and nf: "fake_eventfd_from_fd w fd = None" "fake_epoll_from_fd w fd = None" and tb: "f = g" by (fact D)+
  let ?L = "L(d \<mapsto> k, buffer \<mapsto> c)"
  have eq: "w' = w0\<lparr>os_world := (add_free_fd lib fd f, free d s)\<rparr>"
    unfolding w'_def close_file [OF w laws cf nf] by (subst ww) simp
  then show "w' = w0\<lparr>os_world := os_world w'\<rparr>" and "fst (os_world w') = add_free_fd lib fd g"
    by (simp_all add: tb)
  have heap: "comp_heap w' = free d s" by (simp add: eq)
  have ld: "?L d = Some k" "?L buffer = Some c" using new by simp_all
  have upd: "?L(d := None) = L(buffer \<mapsto> c)" using new by auto
  note F = free_rep [where L = ?L, OF rep ld(1), unfolded upd] and bb = live_bounds [OF rep ld(2)]
  show "heap_rep A (comp_heap w') (L(buffer \<mapsto> c))" unfolding heap by (rule F(1))
  have "L \<subseteq>\<^sub>m L(buffer \<mapsto> c)" using new by (auto simp: map_le_def)
  then show "keeps A L (comp_heap w0) (comp_heap w')"
    unfolding heap by (rule keeps_trans [OF kp keeps_mono [OF F(2)]])
  have lb: "(L(buffer \<mapsto> c)) buffer = Some c" by simp
  show "hmem (comp_heap w') (buffer + of_nat i) = content ! i" if i: "i < n"
  proof -
    have "unat (buffer + of_nat i) = unat buffer + i"
      by (rule unat_offset [where n = "length content"]) (use bb sz i in auto)
    then have "hmem (free d s) (buffer + of_nat i) = hmem s (buffer + of_nat i)"
      by (intro keepsD(2) [OF F(2) lb]) (use sz i in auto)
    then show ?thesis unfolding heap using got [OF i] by simp
  qed
  show "n \<le> length content \<and> unat buffer + length content + 1 < 2 ^ 64" using sz bb by auto
qed

interpretation archive: script_file "component_calls A ly lib ar os" fd buffer content
    "reading A ly lib os L w0 g d k c fd buffer content"
  for A ly lib ar os fd buffer content L w0 g d k c
proof unfold_locales
  fix n w
  assume R: "reading A ly lib os L w0 g d k c fd buffer content n w"
  show "n \<le> length content \<and> unat buffer + length content + 1 < 2 ^ 64"
    by (rule reading_close(5) [OF R])
  show "sc_mem (component_calls A ly lib ar os) (sc_close (component_calls A ly lib ar os) fd w)
      (buffer + of_nat i) = content ! i" if "i < n" for i
    unfolding component_call_simps by (rule reading_close(4) [OF R that])
  show "\<exists>k' w'. sc_read (component_calls A ly lib ar os) fd (buffer + of_nat n)
      (of_nat (length content - n)) w = (Inr k', w') \<and>
      0 < unat k' \<and> unat k' \<le> length content - n \<and>
      reading A ly lib os L w0 g d k c fd buffer content (n + unat k') w'" if "n < length content"
    unfolding component_call_simps by (rule reading_step [OF R that])
qed (simp add: component_call_simps)

section \<open>From open to the first read\<close>

lemma opened_fstat:
  assumes "cpio_file_for_fd lib f fd = Some d" and "2 < fd" and "cpio_size ly (hmem s) d = ucast (sz :: u64)"
    and "unat sz < 2 ^ 32"
  shows "fstat ly lib fd False (f, s) = Inr (fill_regular sz)"
proof -
  have "ucast (ucast sz :: u32) = sz"
    using assms(4) by (intro word_unat_eq_iff [THEN iffD2])
      (simp add: unsigned_ucast_eq unsigned_take_bit_eq take_bit_nat_eq_self_iff)
  then show ?thesis using assms(1-3)
    by (auto simp: cpio_file_for_fd_def fstat_def split: if_splits option.splits)
qed

lemma small_size:
  assumes "unat (sz :: u64) < 2 ^ 32"
  shows "\<not> sint sz < 0" and "unat (sz + 1) = unat sz + 1" and "measurable (sz + 1)"
proof -
  have "\<not> bit sz 63"
  proof
    assume "bit sz 63"
    then have "bit (unat sz) 63" by (simp add: bit_unsigned_iff)
    then show False using assms by (simp add: bit_iff_odd)
  qed
  then show "\<not> sint sz < 0" by (simp add: sint_uint signed_take_bit_negative_iff bit_uint_iff)
  show u: "unat (sz + 1) = unat sz + 1" using assms by (subst unat_add_no_wrap) simp_all
  show "measurable (sz + 1)" unfolding measurable_def u using assms by simp
qed

lemma reading_starts:
  assumes o: "opened A ly lib L (comp_heap w) start sz fd f' s'" and ar: "arena_at A"
    and sz: "unat sz < 2 ^ 32" and ext: "outside_arena A start (unat sz)" and ly: "layout_ok ly"
    and os: "reads_archive ly lib os" "closes_archive lib os" and fds: "fds_ok w" "fd < 1000"
    and a: "\<And>L'. heap_rep A s' L' \<Longrightarrow> alloc_post A L' (fit_size (sz + 1)) 16 s' p s2"
  shows "\<exists>d k c. reading A ly lib os L w f' d k c fd p (loads (unat sz) (hmem (comp_heap w)) start) 0
    (w\<lparr>os_world := (f', s2)\<rparr>)"
proof -
  let ?bs = "loads (unat sz) (hmem (comp_heap w)) start"
  obtain d k where d: "L d = None" "unat (sizeof_cpio ly) \<le> k" "heap_rep A s' (L(d \<mapsto> k))"
    "keeps A L (comp_heap w) s'" "cpio_file_for_fd lib f' fd = Some d" "file_at A ly (hmem s') d ?bs 0"
    using opened_file [OF o ar sz ext] by blast
  obtain c where c: "(L(d \<mapsto> k)) p = None" "heap_rep A s2 (L(d \<mapsto> k, p \<mapsto> c))"
    "unat (fit_size (sz + 1)) \<le> c" "keeps A (L(d \<mapsto> k)) s' s2"
    using a [OF d(3)] by (auto elim: alloc_postD)
  have p: "p \<noteq> d" "L p = None" using c(1) by (auto split: if_splits)
  have len: "unat sz + 1 \<le> c" using c(3) fit_size_le [of "sz + 1"] small_size(2) [OF sz] by linarith
  have ld: "(L(d \<mapsto> k)) d = Some k" by simp
  have F: "file_at A ly (hmem s2) d ?bs 0" by (rule file_at_keeps [where L = "L(d \<mapsto> k)", OF d(6) ly d(3) ld d(2) c(4) ld])
  have "L \<subseteq>\<^sub>m L(d \<mapsto> k)" using d(1) by (auto simp: map_le_def)
  then have "keeps A L (comp_heap w) s2" by (rule keeps_trans [OF d(4) keeps_mono [OF c(4)]])
  then have "reading A ly lib os L w f' d k c fd p ?bs 0 (w\<lparr>os_world := (f', s2)\<rparr>)"
    unfolding reading_def using os ly fds d(1,2,5) p c(2) len sz F by simp
  then show ?thesis by blast
qed

section \<open>Reading a script of the archive\<close>

text \<open>
  What can keep \<open>read_script\<close> from reading a file of \<open>sz\<close> bytes: there is no descriptor, or
  the unused end of the arena has no room for the object of the descriptor, the buffer and
  their two headers.
\<close>

definition scarce :: "'f fdlib \<Rightarrow> u64 \<Rightarrow> ('f \<times> heap) fake_fds \<Rightarrow> bool" where
  "scarce lib sz w \<longleftrightarrow> fst (allocate_fd lib (fst (os_world w))) = - EMFILE_number \<or>
     67108864 < unat (ruby_alloc_offset (comp_heap w)) + unat sz + 4225"

text \<open>
  What \<open>read_script\<close> leaves: the state \<open>w'\<close> against the live allocations \<open>L\<close> and the fake
  descriptors of \<open>w\<close>, the descriptor table \<open>g\<close>, the pointer returned and the events.
\<close>

definition script_read ::
    "addr \<Rightarrow> (addr \<Rightarrow> nat option) \<Rightarrow> ('f \<times> heap) fake_fds \<Rightarrow> bool \<Rightarrow> byte list \<Rightarrow> 'f \<Rightarrow> addr \<Rightarrow> event list \<Rightarrow>
       ('f \<times> heap) fake_fds \<Rightarrow> bool" where
  "script_read A L w short content g p evs w' \<longleftrightarrow> w' = w\<lparr>os_world := os_world w'\<rparr> \<and> fst (os_world w') = g \<and>
     keeps A L (comp_heap w) (comp_heap w') \<and>
     (if p = 0
      then short \<and> heap_rep A (comp_heap w') L \<and>
        (evs = [Printed Failed_to_open] \<or> (\<exists>fd. evs = [Opened fd, Printed Failed_to_allocate, Closed fd]))
      else L p = None \<and> (\<exists>c>length content. heap_rep A (comp_heap w') (L(p \<mapsto> c))) \<and>
        c_string (hmem (comp_heap w')) p = Some (takeWhile (\<lambda>b. b \<noteq> 0) content) \<and>
        (\<exists>fd. evs = [Opened fd, Allocated p, Closed fd]))"

lemma script_finished:
  assumes R: "reading A ly lib os L w g d k c fd p content 0 w2"
    and op: "sc_open (component_calls A ly lib ar os) path w = Some (Inr fd, w1)"
    and st: "sc_fstat (component_calls A ly lib ar os) fd w1 = (Inr (of_nat (length content)), w1)"
    and ml: "sc_malloc (component_calls A ly lib ar os) (of_nat (length content) + 1) w1 = Some (p, w2)"
  shows "\<exists>evs w'. read_script (component_calls A ly lib ar os) path w = Some (p, evs, w') \<and>
    script_read A L w short content (add_free_fd lib fd g) p evs w' \<and> p \<noteq> 0"
proof -
  let ?sc = "component_calls A ly lib ar os" and ?n = "length content"
  obtain w3 where loop: "read_loop ?sc fd p (of_nat ?n + 1) 0 w2 = Some (Inr (of_nat ?n), w3)"
    and R3: "reading A ly lib os L w g d k c fd p content ?n w3"
    using archive.read_loop_all [OF R, where ar = ar] by auto
  note C = reading_close [OF R3] and str = archive.script_string [OF R3, where ar = ar]
  let ?w = "snd (close_fd os fd w3)" and ?a = "p + of_nat ?n :: addr"
  have lp: "(L(p \<mapsto> c)) p = Some c" by simp
  note lb = live_bounds [where L = "L(p \<mapsto> c)", OF C(1) lp]
  obtain f s where w3: "os_world w3 = (f, s)" by fastforce
  note D = readingD [OF R3 w3]
  have "unat ?a = unat p + ?n"
    by (rule unat_offset [where n = ?n]) (use lb D(10) in auto)
  define m where "m = (hmem (comp_heap ?w))(?a := 0)"
  have out: "m x = hmem (comp_heap ?w) x" if "\<not> (unat p \<le> unat x \<and> unat x < unat p + c)" for x
    using that D(10) \<open>unat ?a = unat p + ?n\<close> by (auto simp: m_def)
  note F = fill_new [OF C(1) D(7) C(2) out]
  let ?w' = "on_heap (\<lambda>s. s\<lparr>hmem := (hmem s)(?a := 0)\<rparr>) ?w"
  have heap: "comp_heap ?w' = (comp_heap ?w)\<lparr>hmem := m\<rparr>" by (simp add: m_def)
  have str': "c_string m p = Some (takeWhile (\<lambda>b. b \<noteq> 0) content)"
    using str by (simp add: component_call_simps m_def)
  have same: "?w' = w\<lparr>os_world := os_world ?w'\<rparr>" by (subst (1) on_heap_def, subst (1) C(3)) simp
  have "script_read A L w short content (add_free_fd lib fd g) p [Opened fd, Allocated p, Closed fd] ?w'"
    unfolding script_read_def heap using F D(7,10) C(6) lb(6) str' Suc_le_eq [of ?n c] same by auto
  moreover have "read_script ?sc path w = Some (p, [Opened fd, Allocated p, Closed fd], ?w')"
  proof -
    have "unat (of_nat ?n :: u64) < 2 ^ 32" using D(11) by (simp add: unat_of_nat)
    from small_size(1) [OF this] show ?thesis
      using op st ml loop lb(6) by (simp add: read_script_def component_call_simps)
  qed
  ultimately show ?thesis using lb(6) by blast
qed

lemma script_unallocated:
  assumes cl: "closes_archive lib os" and cf: "cpio_file_for_fd lib f1 fd = Some d"
    and fk: "fake_eventfd_from_fd w fd = None" "fake_epoll_from_fd w fd = None"
    and rep: "heap_rep A s1 (L(d \<mapsto> k))" and new: "L d = None" and kp: "keeps A L (comp_heap w) s1"
    and op: "sc_open (component_calls A ly lib ar os) path w = Some (Inr fd, w\<lparr>os_world := (f1, s1)\<rparr>)"
    and st: "sc_fstat (component_calls A ly lib ar os) fd (w\<lparr>os_world := (f1, s1)\<rparr>) =
      (Inr sz, w\<lparr>os_world := (f1, s1)\<rparr>)" "\<not> sint sz < 0"
    and ml: "sc_malloc (component_calls A ly lib ar os) (sz + 1) (w\<lparr>os_world := (f1, s1)\<rparr>) =
      Some (0, w\<lparr>os_world := (f1, s1)\<rparr>)" and short: short
  shows "\<exists>evs w'. read_script (component_calls A ly lib ar os) path w = Some (0, evs, w') \<and>
    script_read A L w short content (add_free_fd lib fd f1) 0 evs w'"
proof -
  let ?w1 = "w\<lparr>os_world := (f1, s1)\<rparr>"
  have ld: "(L(d \<mapsto> k)) d = Some k" by simp
  note F = free_rep [where L = "L(d \<mapsto> k)", OF rep ld, unfolded upd_undo [where L = L and p = d, OF new]]
  have "close_fd os fd ?w1 = (Inr 0, ?w1\<lparr>os_world := (add_free_fd lib fd f1, free d s1)\<rparr>)"
    by (rule close_file [OF _ cl cf]) (use fk in simp_all)
  then have "read_script (component_calls A ly lib ar os) path w =
      Some (0, [Opened fd, Printed Failed_to_allocate, Closed fd],
        w\<lparr>os_world := (add_free_fd lib fd f1, free d s1)\<rparr>)"
    using op st ml by (simp add: read_script_def component_call_simps)
  moreover have "script_read A L w short content (add_free_fd lib fd f1) 0 [Opened fd, Printed Failed_to_allocate, Closed fd]
      (w\<lparr>os_world := (add_free_fd lib fd f1, free d s1)\<rparr>)"
    using F(1) keeps_trans [OF kp F(2)] short by (simp add: script_read_def)
  ultimately show ?thesis by blast
qed

text \<open>
  From a successful \<open>open\<close> on: either the request for the buffer is met and the file is
  read, or it is not and the descriptor is closed again.
\<close>

lemma script_opened:
  assumes rep: "heap_rep A s L" and ly: "layout_ok ly" and os: "reads_archive ly lib os" "closes_archive lib os"
    and ok: "fds_ok w" and w: "os_world w = (f, s)" and sz: "unat sz < 2 ^ 32"
    and ext: "outside_arena A start (unat sz)" and fd: "2 < fd" "fd < 1000"
    and o: "opened A ly lib L s start sz fd f1 s1"
    and op: "sc_open (component_calls A ly lib ar os) path w = Some (Inr fd, w\<lparr>os_world := (f1, s1)\<rparr>)"
    and room: "\<not> short \<Longrightarrow> unat (ruby_alloc_offset s1) + unat (sz + 1) + 64 \<le> 67108864"
  shows "\<exists>p evs w'. read_script (component_calls A ly lib ar os) path w = Some (p, evs, w') \<and>
    script_read A L w short (loads (unat sz) (hmem s) start) (add_free_fd lib fd f1) p evs w'"
proof -
  let ?sc = "component_calls A ly lib ar os" and ?bs = "loads (unat sz) (hmem s) start"
  let ?w1 = "w\<lparr>os_world := (f1, s1)\<rparr>"
  have h: "comp_heap w = s" using w by simp
  note ar = heap_rep_arena [OF rep]
  obtain d k where d: "L d = None" "heap_rep A s1 (L(d \<mapsto> k))" "keeps A L s s1"
    "cpio_file_for_fd lib f1 fd = Some d" "cpio_size ly (hmem s1) d = ucast sz"
    using opened_file [OF o ar sz ext] by blast
  have st: "sc_fstat ?sc fd ?w1 = (Inr sz, ?w1)"
    using opened_fstat [where s = s1, OF d(4) fd(1) d(5) sz] by (simp add: component_calls_def fill_regular_def)
  obtain r where m: "malloc A (sz + 1) s1 = Some r"
    using malloc_rep [OF d(2) small_size(3) [OF sz]] by blast
  show ?thesis
  proof (cases "fst r")
    case (Inl e)
    have "short"
    proof (rule ccontr)
      assume "\<not> short"
      from malloc_room [OF d(2) room [OF this]] m Inl show False by auto
    qed
    moreover have "sc_malloc ?sc (sz + 1) ?w1 = Some (0, ?w1)"
      using m Inl malloc_rep [OF d(2) small_size(3) [OF sz]]
      by (cases r) (auto simp: component_calls_def on_heap_def)
    ultimately show ?thesis
      using script_unallocated [OF os(2) d(4) not_fake [OF ok fd(2)] d(2,1) _ op st small_size(1) [OF sz]] d(3) h
      by blast
  next
    case (Inr p)
    obtain s2 where r: "r = (Inr p, s2)" using Inr by (cases r) simp
    then have ml: "sc_malloc ?sc (sz + 1) ?w1 = Some (p, w\<lparr>os_world := (f1, s2)\<rparr>)"
      using m by (simp add: component_calls_def on_heap_def)
    have a: "alloc_post A L' (fit_size (sz + 1)) 16 s1 p s2" if "heap_rep A s1 L'" for L'
      using malloc_rep [OF that small_size(3) [OF sz]] m r by auto
    obtain d k c where R: "reading A ly lib os L w f1 d k c fd p ?bs 0 (w\<lparr>os_world := (f1, s2)\<rparr>)"
      using reading_starts [OF o [folded h] ar sz ext ly os ok fd(2) a] unfolding h by blast
    have l: "of_nat (length ?bs) = sz" by simp
    from script_finished [OF R op, unfolded l, OF st ml] show ?thesis by blast
  qed
qed

lemma read_script_rep:
  assumes rep: "heap_rep A (comp_heap w) L" and ly: "layout_ok ly" and lib: "fdlib_ok lib"
    and os: "reads_archive ly lib os" "closes_archive lib os" and ok: "fds_ok w"
    and ff: "find_file ar (normalize_path (Some path)) = Some (start, sz)" and sz: "unat sz < 2 ^ 32"
    and ext: "outside_arena A start (unat sz)"
    and num: "fst (allocate_fd lib (fst (os_world w))) < 0 \<or>
      2 < fst (allocate_fd lib (fst (os_world w))) \<and> fst (allocate_fd lib (fst (os_world w))) < 1000"
  shows "\<exists>p evs w' r f1 s1. read_script (component_calls A ly lib ar os) path w = Some (p, evs, w') \<and>
    open_path (ruby_sys_openat A ly lib ar) (Some path) O_RDONLY (os_world w) = Some (r, (f1, s1)) \<and>
    script_read A L w (scarce lib sz w) (loads (unat sz) (hmem (comp_heap w)) start)
      (case r of Inl e \<Rightarrow> f1 | Inr fd \<Rightarrow> add_free_fd lib fd f1) p evs w'"
proof -
  let ?sc = "component_calls A ly lib ar os"
  obtain f s where w: "os_world w = (f, s)" by fastforce
  have ro: "O_RDONLY AND O_ACCMODE = O_RDONLY" by (simp add: O_RDONLY_def)
  have rep': "heap_rep A s L" using rep w by simp
  obtain r f1 s1 where run: "open_path (ruby_sys_openat A ly lib ar) (Some path) O_RDONLY (f, s) = Some (r, (f1, s1))"
    and post: "case r of Inl e \<Rightarrow> (e = EMFILE \<or> e = ENOMEM) \<and> s1 = s
               | Inr fd \<Rightarrow> fd = fst (allocate_fd lib f) \<and> opened A ly lib L s start sz fd f1 s1"
    using open_path_rep [OF rep' ly lib ro ff] by blast
  have room: "\<not> scarce lib sz w \<Longrightarrow> is_ok r \<and>
      unat (ruby_alloc_offset s1) \<le> unat (ruby_alloc_offset s) + 4160"
    using open_path_room [OF rep' ly lib ro ff, of f] run w by (auto simp: scarce_def)
  have op: "sc_open ?sc path w = Some (r, w\<lparr>os_world := (f1, s1)\<rparr>)" using run w by (simp add: component_calls_def)
  show ?thesis
  proof (cases r)
    case (Inl e)
    with op have "read_script ?sc path w = Some (0, [Printed Failed_to_open], w\<lparr>os_world := (f1, s1)\<rparr>)"
      by (simp add: read_script_def)
    moreover have "script_read A L w (scarce lib sz w) (loads (unat sz) (hmem (comp_heap w)) start)
        f1 0 [Printed Failed_to_open] (w\<lparr>os_world := (f1, s1)\<rparr>)"
      using Inl post rep' room w by (auto simp: script_read_def)
    ultimately show ?thesis using run w Inl by (metis (no_types, lifting) sum.case(1))
  next
    case (Inr fd)
    have o: "opened A ly lib L s start sz fd f1 s1" using post unfolding Inr sum.case by blast
    have fd: "2 < fd" "fd < 1000" using post Inr num w by (auto simp: opened_def)
    have "unat (ruby_alloc_offset s1) + unat (sz + 1) + 64 \<le> 67108864" if "\<not> scarce lib sz w"
      using room [OF that] that w small_size(2) [OF sz] by (simp add: scarce_def)
    from script_opened [OF rep' ly os ok w sz ext fd o op [unfolded Inr] this] run w show ?thesis
      unfolding Inr by auto
  qed
qed

section \<open>Properties\<close>

text \<open>An archive whose file \<open>shell.rb\<close> has the text at \<open>0x1000\<close>, and handlers for its descriptors.\<close>

definition demo_shell :: cpio where
  "demo_shell = \<lparr>entry_at = (\<lambda>i. if i = 0 then Some (0x1000, Some ''shell.rb'', 5) else None),
     file_named = (\<lambda>n. if n = ''shell.rb'' then Some (0x1000, 5) else None)\<rparr>"

definition demo_os :: "((int list \<times> (int \<Rightarrow> muslcsys_fd)) \<times> heap) os_calls" where
  "demo_os = no_os\<lparr>
     os_read := (\<lambda>fd null n w. case cpio_file_for_fd demo_lib (fst w) fd of
        None \<Rightarrow> (Inl EBADF, w)
      | Some d \<Rightarrow> (case read_archive demo_layout d n (hmem (snd w)) of
          (bs, m) \<Rightarrow> (Inr bs, (fst w, (snd w)\<lparr>hmem := m\<rparr>)))),
     os_close := (\<lambda>fd w. case cpio_file_for_fd demo_lib (fst w) fd of
        None \<Rightarrow> (Inl EBADF, w) | Some d \<Rightarrow> (Inr 0, (add_free_fd demo_lib fd (fst w), free d (snd w))))\<rparr>"

lemma demo_handlers: "reads_archive demo_layout demo_lib demo_os" "closes_archive demo_lib demo_os"
  by (simp_all add: reads_archive_def closes_archive_def demo_os_def case_prod_beta)

lemma demo_shell_path: "find_file demo_shell (normalize_path (Some ''/shell.rb'')) = Some (0x1000, 5)"
  by (simp add: find_file_def normalize_path_def demo_shell_def)

text \<open>The component when it starts, with one block of a hundred bytes live.\<close>

definition demo_world :: "((int list \<times> (int \<Rightarrow> muslcsys_fd)) \<times> heap) fake_fds" where
  "demo_world = initial_fds (demo_fds, demo_heap_on demo_text)"

lemma demo_world_simps:
  "heap_rep demo_arena (comp_heap demo_world) [demo_arena + 32 \<mapsto> 100]" "fds_ok demo_world"
  using demo_rep_on [of demo_text] initial_fds_ok by (simp_all add: demo_world_def initial_fds_def)

lemma demo_outside:
  "unat (5 :: u64) < 2 ^ 32" "outside_arena demo_arena 0x1000 (unat (5 :: u64))"
  "fst (allocate_fd demo_lib (fst (os_world demo_world))) < 0 \<or>
     2 < fst (allocate_fd demo_lib (fst (os_world demo_world))) \<and>
     fst (allocate_fd demo_lib (fst (os_world demo_world))) < 1000"
  by (simp_all add: outside_arena_def demo_arena_def demo_lib_def demo_fds_def demo_world_def initial_fds_def)

lemma demo_plenty: "\<not> scarce demo_lib 5 demo_world"
  by (simp add: scarce_def demo_lib_def demo_fds_def demo_world_def initial_fds_def EMFILE_number_def
      demo_heap_on_def demo_heap_def)

text \<open>
  C6: reading a file of the archive into memory, through \<open>open\<close>, \<open>fstat\<close>, \<open>malloc\<close>, the
  read loop and \<open>close\<close>, each call passed on by the component's own wrappers. \<open>read_script\<close>
  always returns, and with a free descriptor and room at the end of the arena it succeeds:
  then the one new live allocation is the buffer, longer than the file, and the C string in
  it is the contents of the file up to its first NUL. Where it gives up, every live
  allocation is what it was before. In both cases no older allocation, no fake descriptor
  and nothing outside the arena has changed, and the descriptor is closed.
\<close>

theorem read_script_from_archive:
  assumes "heap_rep A (comp_heap w) L" and "layout_ok ly" and "fdlib_ok lib"
    and "reads_archive ly lib os" and "closes_archive lib os" and "fds_ok w"
    and "find_file ar (normalize_path (Some path)) = Some (start, sz)" and "unat sz < 2 ^ 32"
    and "outside_arena A start (unat sz)"
    and "fst (allocate_fd lib (fst (os_world w))) < 0 \<or>
      2 < fst (allocate_fd lib (fst (os_world w))) \<and> fst (allocate_fd lib (fst (os_world w))) < 1000"
  shows "\<exists>p evs w'. read_script (component_calls A ly lib ar os) path w = Some (p, evs, w') \<and>
    w' = w\<lparr>os_world := os_world w'\<rparr> \<and> keeps A L (comp_heap w) (comp_heap w') \<and>
    (if p = 0
     then scarce lib sz w \<and> heap_rep A (comp_heap w') L \<and>
       (evs = [Printed Failed_to_open] \<or> (\<exists>fd. evs = [Opened fd, Printed Failed_to_allocate, Closed fd]))
     else L p = None \<and> (\<exists>c>unat sz. heap_rep A (comp_heap w') (L(p \<mapsto> c))) \<and>
       c_string (hmem (comp_heap w')) p =
         Some (takeWhile (\<lambda>b. b \<noteq> 0) (loads (unat sz) (hmem (comp_heap w)) start)) \<and>
       (\<exists>fd. evs = [Opened fd, Allocated p, Closed fd]))"
  using read_script_rep [OF assms] unfolding script_read_def length_loads by blast

theorem read_script_from_archive_witness:
  "\<exists>p evs w'. read_script (component_calls demo_arena demo_layout demo_lib demo_shell demo_os)
      ''/shell.rb'' demo_world = Some (p, evs, w') \<and> p \<noteq> 0 \<and>
    keeps demo_arena [demo_arena + 32 \<mapsto> 100] (comp_heap demo_world) (comp_heap w')"
  using read_script_from_archive [OF demo_world_simps(1) demo_layout_ok demo_lib_ok demo_handlers
      demo_world_simps(2) demo_shell_path demo_outside] demo_plenty by (metis (no_types, lifting))

text \<open>
  The program evaluates the script of the archive. Whatever the interpreter does to the
  world with its first call, if the world it leaves has a well-formed heap and descriptor
  tables then the program returns 0, in the order stack, interpreter, encodings,
  extensions, builtins, script, finalisation. With a free descriptor and room in the arena
  the interpreter is given exactly the contents of \<open>shell.rb\<close> up to the first NUL, at a
  moment when the buffer is the only new allocation; the buffer is freed after it, and an
  exception is reported if and only if the evaluation says so.
\<close>

lemma component_evaluates_script:
  assumes "heap_rep A (comp_heap w) L" and "layout_ok ly" and "fdlib_ok lib"
    and "reads_archive ly lib os" and "closes_archive lib os" and "fds_ok w"
    and "file_named ar ''shell.rb'' = Some (start, sz)" and "unat sz < 2 ^ 32"
    and "outside_arena A start (unat sz)"
    and "fst (allocate_fd lib (fst (os_world w))) < 0 \<or>
      2 < fst (allocate_fd lib (fst (os_world w))) \<and> fst (allocate_fd lib (fst (os_world w))) < 1000"
    and "eval (ascii_bytes ''$stdout.sync = true'') w0 = (state0, w)"
  shows "\<exists>mid w'. run (component_calls A ly lib ar os) eval w0 = Some (0,
      [Init_stack, Traced ''CRuby initialize'', Ruby_init, Init_enc, Init_ext, Builtin_inits,
        Traced ''ruby_init done'', Evaluated (ascii_bytes ''$stdout.sync = true'')] @ mid @
      [Traced ''Finalize CRuby'', Ruby_finalize], w') \<and>
    (scarce lib sz w \<and>
       (mid = [Printed Failed_to_open] \<or> (\<exists>fd. mid = [Opened fd, Printed Failed_to_allocate, Closed fd])) \<or>
     (\<exists>fd p c state w1 w2 script.
        script = takeWhile (\<lambda>b. b \<noteq> 0) (loads (unat sz) (hmem (comp_heap w)) start) \<and>
        w1 = w\<lparr>os_world := os_world w1\<rparr> \<and> heap_rep A (comp_heap w1) (L(p \<mapsto> c)) \<and>
        eval script w1 = (state, w2) \<and> w' = on_heap (free p) w2 \<and>
        mid = [Opened fd, Allocated p, Closed fd, Evaluated script, Freed p] @
          (if state \<noteq> 0 then [Traced ''ruby exception from CPIO script'', Printed_errinfo] else [])))"
proof -
  let ?sc = "component_calls A ly lib ar os" and ?bs = "loads (unat sz) (hmem (comp_heap w)) start"
  have ff: "find_file ar (normalize_path (Some ''/shell.rb'')) = Some (start, sz)"
    using assms(7) by (simp add: find_file_def normalize_path_def)
  obtain p evs w1 g where run: "read_script ?sc ''/shell.rb'' w = Some (p, evs, w1)"
    and post: "script_read A L w (scarce lib sz w) ?bs g p evs w1"
    using read_script_rep [OF assms(1-6) ff assms(8-10)] by blast
  show ?thesis
  proof (cases "p = 0")
    case True
    note run_unread [where eval = eval, OF assms(11) run True]
    then show ?thesis using post True by (auto simp: script_read_def)
  next
    case False
    with post obtain fd c where P: "heap_rep A (comp_heap w1) (L(p \<mapsto> c))" "evs = [Opened fd, Allocated p, Closed fd]"
      "c_string (sc_mem ?sc w1) p = Some (takeWhile (\<lambda>b. b \<noteq> 0) ?bs)" "w1 = w\<lparr>os_world := os_world w1\<rparr>"
      by (auto simp: script_read_def component_call_simps)
    obtain state w2 where e: "eval (takeWhile (\<lambda>b. b \<noteq> 0) ?bs) w1 = (state, w2)" by (metis surj_pair)
    let ?mid = "[Opened fd, Allocated p, Closed fd, Evaluated (takeWhile (\<lambda>b. b \<noteq> 0) ?bs), Freed p] @
      (if state \<noteq> 0 then [Traced ''ruby exception from CPIO script'', Printed_errinfo] else [])"
    have "sc_free ?sc p w2 = on_heap (free p) w2" by (simp add: component_call_simps)
    with run_read [where eval = eval, OF assms(11) run False P(3) e]
    have R: "run ?sc eval w0 = Some (0,
      [Init_stack, Traced ''CRuby initialize'', Ruby_init, Init_enc, Init_ext, Builtin_inits,
        Traced ''ruby_init done'', Evaluated (ascii_bytes ''$stdout.sync = true'')] @ ?mid @
      [Traced ''Finalize CRuby'', Ruby_finalize], on_heap (free p) w2)"
      by (simp add: P(2))
    show ?thesis
      by (rule exI [of _ ?mid], rule exI [of _ "on_heap (free p) w2"], rule conjI [OF R], rule disjI2,
        rule exI [of _ fd], rule exI [of _ p], rule exI [of _ c], rule exI [of _ state],
        rule exI [of _ w1], rule exI [of _ w2], rule exI [of _ "takeWhile (\<lambda>b. b \<noteq> 0) ?bs"])
        (intro conjI refl P(1,4) e)
  qed
qed

end
