(* ===== verification/Heap_Machine.thy ===== *)
theory Heap_Machine
  imports Mmap
begin

text \<open>
  The allocator under a client that mixes all of its calls: a step relation whose states
  are the heap and the set of pointers the client holds. A step is one call of
  \<^verbatim>\<open>ruby_alloc.c\<close> or one byte written inside a held block, as far as
  \<open>malloc_usable_size\<close> says the block reaches. A call may also be refused. The client may
  free a pointer it does not hold: one whose header shows no block, or a block that is free
  already.
\<close>

text \<open>
  The calls that ask for a new block, with what they return. \<open>realloc\<close> of a null pointer is
  one of them. A request within 32 bytes of \<open>SIZE_MAX\<close> is left out: there the arithmetic of
  \<open>arena_alloc\<close> wraps (\<open>Alloc_Props\<close> shows what it then gives).
\<close>

inductive new_block ::
    "addr \<Rightarrow> cpio_layout \<Rightarrow> 'f fdlib \<Rightarrow> heap \<Rightarrow> addr result \<Rightarrow> heap \<Rightarrow> bool"
  for A :: addr and ly :: cpio_layout and lib :: "'f fdlib" where
  by_malloc: "measurable n \<Longrightarrow> malloc A n s = Some (r, s') \<Longrightarrow> new_block A ly lib s r s'"
| by_calloc: "unat c * unat n + 32 < 2 ^ 64 \<or> 2 ^ 64 \<le> unat c * unat n \<Longrightarrow> calloc A c n s = Some (r, s') \<Longrightarrow>
    new_block A ly lib s r s'"
| by_realloc: "measurable n \<Longrightarrow> realloc A 0 n s = Some (r, s') \<Longrightarrow> new_block A ly lib s r s'"
| by_aligned: "measurable n \<Longrightarrow> aligned_alloc A al n s = Some (r, s') \<Longrightarrow> new_block A ly lib s r s'"
| by_memalign: "measurable n \<Longrightarrow> posix_memalign A memptr_null al n s = Some ((None, Some p), s') \<Longrightarrow>
    new_block A ly lib s (Inr p) s'"
| by_memalign_fails: "measurable n \<Longrightarrow> posix_memalign A memptr_null al n s = Some ((Some e, out), s') \<Longrightarrow>
    new_block A ly lib s (Inl e) s'"
| by_mmap: "mmap A ly lib f n MAP_ANONYMOUS fd off s = Some (r, s') \<Longrightarrow> new_block A ly lib s r s'"

inductive heap_step ::
    "addr \<Rightarrow> cpio_layout \<Rightarrow> 'f fdlib \<Rightarrow> heap \<times> addr set \<Rightarrow> heap \<times> addr set \<Rightarrow> bool"
  for A :: addr and ly :: cpio_layout and lib :: "'f fdlib" where
  step_new: "new_block A ly lib s (Inr p) s' \<Longrightarrow> heap_step A ly lib (s, H) (s', insert p H)"
| step_refused: "new_block A ly lib s (Inl e) s' \<Longrightarrow> heap_step A ly lib (s, H) (s', H)"
| step_realloc: "p \<in> H \<Longrightarrow> n \<noteq> 0 \<Longrightarrow> measurable n \<Longrightarrow> realloc A p n s = Some (Inr q, s') \<Longrightarrow>
    heap_step A ly lib (s, H) (s', insert q (H - {p}))"
| step_realloc_refused: "p \<in> H \<Longrightarrow> measurable n \<Longrightarrow> realloc A p n s = Some (Inl e, s') \<Longrightarrow>
    heap_step A ly lib (s, H) (s', H)"
| step_realloc_zero: "p \<in> H \<Longrightarrow> realloc A p 0 s = Some (Inr q, s') \<Longrightarrow> heap_step A ly lib (s, H) (s', H - {p})"
| step_free: "p \<in> H \<Longrightarrow> heap_step A ly lib (s, H) (free p s, H - {p})"
| step_stale_free: "h_magic (hdr s (payload_header p)) \<noteq> ALLOC_MAGIC \<or> h_is_free (hdr s (payload_header p)) \<noteq> 0 \<Longrightarrow>
    heap_step A ly lib (s, H) (free p s, H)"
| step_munmap: "p \<in> H \<Longrightarrow> heap_step A ly lib (s, H) (snd (munmap p len s), H - {p})"
| step_write: "p \<in> H \<Longrightarrow> unat p \<le> unat x \<Longrightarrow> unat x < unat p + unat (malloc_usable_size p s) \<Longrightarrow>
    heap_step A ly lib (s, H) (s\<lparr>hmem := (hmem s)(x := b)\<rparr>, H)"

inductive_cases heap_stepE
  [consumes 1, case_names new refused realloc realloc_refused realloc_zero free stale munmap store]:
  "heap_step A ly lib (s, H) (s', H')"

text \<open>
  What a step owes to the rest of the heap. The client holds \<open>H\<close>, which may be a part of
  the live blocks only; the others belong to other code of the component. \<open>framed\<close>: after
  the step the client holds \<open>H'\<close>, and the blocks it did not hold are live still, with the
  same sizes and the same bytes, and are none of those it now holds.
\<close>

definition framed ::
    "addr \<Rightarrow> (addr \<Rightarrow> nat option) \<Rightarrow> addr set \<Rightarrow> heap \<Rightarrow> heap \<Rightarrow> addr set \<Rightarrow> bool" where
  "framed A L H s s' H' \<longleftrightarrow>
     (\<exists>L'. heap_rep A s' L' \<and> dom L' = H' \<union> (dom L - H) \<and> H' \<inter> (dom L - H) = {} \<and>
        L |` (- H) \<subseteq>\<^sub>m L' \<and> keeps A (L |` (- H)) s s')"

lemma framed_new:
  assumes "heap_rep A s' (L(p \<mapsto> k))" and "L p = None" and "keeps A L s s'" and "H \<subseteq> dom L"
  shows "framed A L H s s' (insert p H)"
proof -
  have "keeps A (L |` (- H)) s s'" by (rule keeps_mono [OF assms(3)]) (auto simp: map_le_def restrict_map_def)
  moreover have "L |` (- H) \<subseteq>\<^sub>m L(p \<mapsto> k)" using assms(2) by (auto simp: map_le_def restrict_map_def)
  ultimately show ?thesis
    unfolding framed_def using assms(1,2,4) by (intro exI [of _ "L(p \<mapsto> k)"]) auto
qed

lemma framed_drop:
  assumes "heap_rep A s' (L(p := None))" and "keeps A (L(p := None)) s s'" and "p \<in> H" and "H \<subseteq> dom L"
  shows "framed A L H s s' (H - {p})"
proof -
  have "L |` (- H) \<subseteq>\<^sub>m L(p := None)" using assms(3) by (auto simp: map_le_def restrict_map_def)
  with keeps_mono [OF assms(2) this] show ?thesis
    unfolding framed_def using assms(1,3,4) by (intro exI [of _ "L(p := None)"]) auto
qed

lemma framed_replace:
  assumes "heap_rep A s' ((L(p := None))(q \<mapsto> k))" and "(L(p := None)) q = None"
    and "keeps A (L(p := None)) s s'" and "p \<in> H" and "H \<subseteq> dom L"
  shows "framed A L H s s' (insert q (H - {p}))"
proof -
  have "L |` (- H) \<subseteq>\<^sub>m L(p := None)" "L |` (- H) \<subseteq>\<^sub>m (L(p := None))(q \<mapsto> k)"
    using assms(2,4) by (auto simp: map_le_def restrict_map_def split: if_splits)
  with keeps_mono [OF assms(3)] show ?thesis
    unfolding framed_def using assms(1,2,4,5)
    by (intro exI [of _ "(L(p := None))(q \<mapsto> k)"]) (auto split: if_splits)
qed

lemma framed_write:
  assumes "heap_rep A s' L" and "keeps A (L(p := None)) s s'" and "p \<in> H" and "H \<subseteq> dom L"
  shows "framed A L H s s' H"
proof -
  have "L |` (- H) \<subseteq>\<^sub>m L(p := None)" "L |` (- H) \<subseteq>\<^sub>m L"
    using assms(3) by (auto simp: map_le_def restrict_map_def)
  with keeps_mono [OF assms(2)] show ?thesis
    unfolding framed_def using assms(1,4) by (intro exI [of _ L]) auto
qed

lemma framed_refl: "heap_rep A s L \<Longrightarrow> H \<subseteq> dom L \<Longrightarrow> framed A L H s s H"
  unfolding framed_def by (rule exI [of _ L]) (auto simp: map_le_def restrict_map_def)

text \<open>A new block, or an error and no change: what \<open>arena_alloc\<close> owes to each of its callers.\<close>

definition gives_block ::
    "addr \<Rightarrow> (addr \<Rightarrow> nat option) \<Rightarrow> heap \<Rightarrow> addr result \<Rightarrow> heap \<Rightarrow> bool" where
  "gives_block A L s r s' \<longleftrightarrow>
     (case r of Inl e \<Rightarrow> s' = s | Inr p \<Rightarrow> L p = None \<and> keeps A L s s' \<and> (\<exists>k. heap_rep A s' (L(p \<mapsto> k))))"

lemma arena_gives:
  assumes "heap_rep A s L" and "measurable n" and "al < 16 \<or> is_power_of_two al"
    and "arena_alloc A n al s = Some (r, s')"
  shows "gives_block A L s r s'"
  using arena_alloc_rep [OF assms(1,3)] assms(2,4) unfolding measurable_def gives_block_def
  by (fastforce elim: alloc_postD split: sum.splits)

lemma malloc_gives:
  "heap_rep A s L \<Longrightarrow> measurable n \<Longrightarrow> malloc A n s = Some (r, s') \<Longrightarrow> gives_block A L s r s'"
  using mf.alloc_gives [of A s L n] mf.alloc_fails [of A s L n]
  by (auto simp: gives_block_def split: sum.splits)

lemma calloc_gives:
  assumes rep: "heap_rep A s L" and n: "unat c * unat n + 32 < 2 ^ 64 \<or> 2 ^ 64 \<le> unat c * unat n"
    and run: "calloc A c n s = Some (r, s')"
  shows "gives_block A L s r s'"
proof (cases "2 ^ 64 \<le> unat c * unat n")
  case True
  then have "c \<noteq> 0 \<and> n > (- 1) div c" unfolding calloc_guard .
  with run show ?thesis by (auto simp: calloc_def gives_block_def)
next
  case False
  with n have "unat c * unat n + 32 < 2 ^ 64" by blast
  from calloc_rep [OF rep this] run show ?thesis by (auto simp: gives_block_def split: sum.splits)
qed

lemma memalign_gives:
  assumes rep: "heap_rep A s L" and n: "measurable n"
    and run: "posix_memalign A memptr_null al n s = Some ((code, out), s')"
  shows "code = None \<Longrightarrow> out = Some p \<Longrightarrow> gives_block A L s (Inr p) s'"
    and "code = Some e \<Longrightarrow> gives_block A L s (Inl e) s'"
proof -
  have "is_power_of_two al \<and> arena_alloc A n al s = Some (Inr p, s')" if "code = None" "out = Some p"
    using run that by (auto simp: posix_memalign_def split: if_splits option.splits sum.splits)
  then show "code = None \<Longrightarrow> out = Some p \<Longrightarrow> gives_block A L s (Inr p) s'" using arena_gives [OF rep n] by blast
  have "s' = s \<or> is_power_of_two al \<and> (\<exists>e'. arena_alloc A n al s = Some (Inl e', s'))" if "code = Some e"
    using run that by (auto simp: posix_memalign_def split: if_splits option.splits sum.splits)
  moreover have "s' = s" if "is_power_of_two al" "arena_alloc A n al s = Some (Inl e', s')" for e'
    using arena_gives [OF rep n disjI2 [OF that(1)] that(2)] by (simp add: gives_block_def)
  ultimately show "code = Some e \<Longrightarrow> gives_block A L s (Inl e) s'" by (auto simp: gives_block_def)
qed

lemma mmap_gives:
  assumes rep: "heap_rep A s L" and run: "mmap A ly lib f n MAP_ANONYMOUS fd off s = Some (r, s')"
  shows "gives_block A L s r s'"
proof (cases "n = 0")
  case True
  with run show ?thesis by (auto simp: mmap_def gives_block_def)
next
  case False
  with run mm.alloc_gives [OF rep False, of ly lib f fd off] mm.alloc_fails [OF rep False, of ly lib f fd off]
  show ?thesis by (auto simp: gives_block_def split: sum.splits)
qed

lemma new_block_gives:
  assumes "new_block A ly lib s r s'" and rep: "heap_rep A s L"
  shows "gives_block A L s r s'"
  using assms(1)
proof (cases rule: new_block.cases)
  case (by_malloc n)
  then show ?thesis by (intro malloc_gives [OF rep])
next
  case (by_calloc c n)
  then show ?thesis by (intro calloc_gives [OF rep])
next
  case (by_realloc n)
  then show ?thesis by (intro malloc_gives [OF rep]) (simp_all add: realloc_def)
next
  case (by_aligned n al)
  then show ?thesis using arena_gives [OF rep by_aligned(1)]
    by (auto simp: aligned_alloc_def gives_block_def split: if_splits)
next
  case (by_memalign n memptr_null al p)
  then show ?thesis using memalign_gives(1) [OF rep by_memalign(2,3)] by simp
next
  case (by_memalign_fails n memptr_null al e out)
  then show ?thesis using memalign_gives(2) [OF rep by_memalign_fails(2,3)] by simp
next
  case (by_mmap f n fd off)
  then show ?thesis by (intro mmap_gives [OF rep])
qed

lemma usable_live: "heap_rep A s L \<Longrightarrow> L p = Some n \<Longrightarrow> unat (malloc_usable_size p s) = n"
  using live_header(1) [of A s L p n] live_bounds(6) [of A s L p n]
  by (simp add: malloc_usable_size_def)

text \<open>\<open>realloc\<close> of a held block: moved or resized, refused, or freed by the size zero.\<close>

lemma realloc_framed:
  assumes rep: "heap_rep A s L" and H: "H \<subseteq> dom L" and p: "p \<in> H" and n: "measurable n"
    and run: "realloc A p n s = Some (r, s')"
  shows "case r of Inl e \<Rightarrow> s' = s
    | Inr q \<Rightarrow> framed A L H s s' (if n = 0 then H - {p} else insert q (H - {p}))"
proof -
  obtain k where k: "L p = Some k" using p H by blast
  have nz: "p \<noteq> 0" using live_bounds(6) [OF rep k] .
  show ?thesis
  proof (cases "n = 0")
    case True
    then have "r = Inr 0" "s' = free p s" using run nz by (simp_all add: realloc_def)
    then show ?thesis using mf.release_takes [OF rep k] framed_drop [OF _ _ p H] True by simp
  next
    case False
    then show ?thesis
      using realloc_rep [OF rep k False n] run framed_replace [OF _ _ _ p H]
      unfolding realloc_post_def by (auto split: sum.splits)
  qed
qed

lemma store_framed:
  assumes rep: "heap_rep A s L" and H: "H \<subseteq> dom L" and p: "p \<in> H"
    and x: "unat p \<le> unat x" "unat x < unat p + unat (malloc_usable_size p s)"
  shows "framed A L H s (s\<lparr>hmem := (hmem s)(x := b)\<rparr>) H"
proof -
  obtain k where k: "L p = Some k" using p H by blast
  have out: "((hmem s)(x := b)) y = hmem s y" if "\<not> (unat p \<le> unat y \<and> unat y < unat p + k)" for y
    using that x usable_live [OF rep k] by auto
  from framed_write [OF write_rep(1,2) [where m = "(hmem s)(x := b)", OF rep k out] p H] show ?thesis by simp
qed

lemma heap_step_framed:
  assumes "heap_step A ly lib (s, H) (s', H')" and rep: "heap_rep A s L" and H: "H \<subseteq> dom L"
  shows "framed A L H s s' H'"
  using assms(1)
proof (cases rule: heap_stepE)
  case (new p)
  then show ?thesis
    using new_block_gives [OF _ rep] framed_new [OF _ _ _ H] unfolding gives_block_def by fastforce
next
  case (refused e)
  then show ?thesis
    using new_block_gives [OF _ rep] framed_refl [OF rep H] unfolding gives_block_def by fastforce
next
  case (realloc p n q)
  then show ?thesis using realloc_framed [OF rep H realloc(2,4,5)] by simp
next
  case (realloc_refused p n e)
  then show ?thesis using realloc_framed [OF rep H realloc_refused(2-4)] framed_refl [OF rep H] by simp
next
  case (realloc_zero p q)
  have "measurable 0" by (simp add: measurable_def)
  then show ?thesis using realloc_framed [OF rep H realloc_zero(2) _ realloc_zero(3)] realloc_zero(1) by simp
next
  case (free p)
  then show ?thesis using H mf.release_takes [OF rep] framed_drop [OF _ _ _ H] by blast
next
  case (stale p)
  then have "free p s = s" by (intro free_ignored) blast
  with stale framed_refl [OF rep H] show ?thesis by simp
next
  case (munmap p len)
  then show ?thesis using H mm.release_takes [OF rep] framed_drop [OF _ _ _ H] by blast
next
  case (store p x b)
  then show ?thesis using store_framed [OF rep H] by simp
qed

text \<open>When the client is the only one, the pointers it holds are the live ones.\<close>

definition holds :: "addr \<Rightarrow> heap \<times> addr set \<Rightarrow> bool" where
  "holds A c = (\<exists>L. heap_rep A (fst c) L \<and> dom L = snd c)"

lemma heap_step_holds:
  assumes "heap_step A ly lib (s, H) (s', H')" and "holds A (s, H)"
  shows "holds A (s', H')"
proof -
  obtain L where rep: "heap_rep A s L" and dom: "dom L = H" using assms(2) by (auto simp: holds_def)
  from heap_step_framed [OF assms(1) rep] dom show ?thesis by (auto simp: framed_def holds_def)
qed

lemma reachable_holds:
  assumes "(heap_step A ly lib)\<^sup>*\<^sup>* (initial_heap m, {}) c" and "arena_at A"
  shows "holds A c"
  using assms(1)
proof (rule steps_preserve)
  show "holds A (initial_heap m, {})"
    unfolding holds_def by (rule exI [of _ Map.empty]) (simp add: initial_rep [OF assms(2)])
qed (metis heap_step_holds surj_pair)

text \<open>
  C3: whatever mix of \<open>malloc\<close>, \<open>calloc\<close>, \<open>aligned_alloc\<close>, \<open>posix_memalign\<close>, \<open>mmap\<close>,
  \<open>realloc\<close> (of a null pointer, to another size or to zero), \<open>free\<close>, \<open>munmap\<close>, calls that
  are refused, repeated or stray calls of \<open>free\<close>, and writes inside held blocks a client
  makes from the empty arena, every block it holds is 16-byte aligned, lies inside the arena
  as far as \<open>malloc_usable_size\<close> reaches and overlaps no other held block, and the next
  request still returns, never with a pointer that is held: the walk of the free list does
  not run forever.
\<close>

theorem heap_machine_safe:
  assumes "(heap_step A ly lib)\<^sup>*\<^sup>* (initial_heap m, {}) (s, H)" and "arena_at A"
  shows "(\<forall>p\<in>H. p \<noteq> 0 \<and> 16 dvd unat p \<and> unat A + 32 \<le> unat p \<and>
             unat p + unat (malloc_usable_size p s) \<le> unat A + 67108864) \<and>
         (\<forall>p\<in>H. \<forall>q\<in>H. p \<noteq> q \<longrightarrow>
             unat p + unat (malloc_usable_size p s) \<le> unat q \<or>
             unat q + unat (malloc_usable_size q s) \<le> unat p) \<and>
         (\<forall>n. measurable n \<longrightarrow> (\<exists>r s'. malloc A n s = Some (r, s') \<and> (\<forall>p. r = Inr p \<longrightarrow> p \<notin> H)))"
proof -
  obtain L where rep: "heap_rep A s L" and dom: "dom L = H"
    using reachable_holds [OF assms] by (auto simp: holds_def)
  have u: "L p = Some (unat (malloc_usable_size p s))" if "p \<in> H" for p
    using that dom usable_live [OF rep, of p] by auto
  have "\<exists>r s'. malloc A n s = Some (r, s') \<and> (\<forall>p. r = Inr p \<longrightarrow> p \<notin> H)" if "measurable n" for n
    using mf.alloc_returns [OF rep that] mf.alloc_gives [OF rep that] dom by fastforce
  moreover have "unat p + unat (malloc_usable_size p s) \<le> unat q \<or>
      unat q + unat (malloc_usable_size q s) \<le> unat p" if "p \<in> H" "q \<in> H" "p \<noteq> q" for p q
    using live_disjoint [OF rep u [OF that(1)] u [OF that(2)] that(3)] by linarith
  moreover have "p \<noteq> 0 \<and> 16 dvd unat p \<and> unat A + 32 \<le> unat p \<and>
      unat p + unat (malloc_usable_size p s) \<le> unat A + 67108864" if "p \<in> H" for p
    using live_bounds [OF rep u [OF that]] by simp
  ultimately show ?thesis by blast
qed

text \<open>A run of two steps: map two pages, then unmap them.\<close>

theorem heap_machine_safe_witness:
  "\<exists>s1. mmap demo_arena demo_layout demo_lib demo_fds 8192 MAP_ANONYMOUS (-1) 0 (initial_heap (\<lambda>_. 0))
      = Some (Inr 0x10001000, s1) \<and>
    unat (malloc_usable_size 0x10001000 s1) \<le> 67104768 \<and>
    (\<exists>r s'. malloc demo_arena 100 s1 = Some (r, s') \<and> r \<noteq> Inr 0x10001000) \<and>
    (\<exists>r s'. malloc demo_arena 100 (snd (munmap 0x10001000 8192 s1)) = Some (r, s'))"
proof -
  obtain s1 where run: "mmap demo_arena demo_layout demo_lib demo_fds 8192 MAP_ANONYMOUS (-1) 0
      (initial_heap (\<lambda>_. 0)) = Some (Inr 0x10001000, s1)"
    using first_mapping [of demo_layout demo_lib demo_fds "\<lambda>_. 0"] by blast
  have st1: "heap_step demo_arena demo_layout demo_lib (initial_heap (\<lambda>_. 0), {}) (s1, {0x10001000})"
    by (rule step_new [OF by_mmap [OF run]])
  have st2: "heap_step demo_arena demo_layout demo_lib (s1, {0x10001000})
      (snd (munmap 0x10001000 8192 s1), {0x10001000} - {0x10001000})"
    by (rule step_munmap) simp
  have r1: "(heap_step demo_arena demo_layout demo_lib)\<^sup>*\<^sup>* (initial_heap (\<lambda>_. 0), {}) (s1, {0x10001000})"
    using st1 by (rule r_into_rtranclp)
  note r2 = rtranclp.rtrancl_into_rtrancl [OF r1 st2]
  have m: "measurable 100" by (simp add: measurable_def)
  note S1 = heap_machine_safe [OF r1 demo_arena_at] and S2 = heap_machine_safe [OF r2 demo_arena_at]
  have "\<exists>r s'. malloc demo_arena 100 s1 = Some (r, s') \<and> r \<noteq> Inr 0x10001000" using S1 m by blast
  moreover have "\<exists>r s'. malloc demo_arena 100 (snd (munmap 0x10001000 8192 s1)) = Some (r, s')" using S2 m by blast
  moreover have "unat (malloc_usable_size 0x10001000 s1) \<le> 67104768" using S1 by (simp add: demo_arena_def)
  ultimately show ?thesis using run by blast
qed

end
