(* ===== verification/Component_Machine.thy ===== *)
theory Component_Machine
  imports Ruby_System Heap_Machine
begin

text \<open>
  The component as one machine. A state is the component's own (tables of fake descriptors,
  descriptor table of the library, heap), with what the program knows of it: \<open>F\<close> maps each
  descriptor of an archive file that is open to the contents of the file and the position,
  and \<open>H\<close> is the set of memory blocks held. A step is any call of the allocator, a write
  into a held block, \<open>open\<close>, \<open>read\<close>, \<open>close\<close> or \<open>mmap\<close> of an archive file, or a call on a
  fake descriptor, of which \<open>read\<close> stores its result in a held block. Calls that are
  refused are steps as well.

  All of these share one heap: \<open>open\<close> allocates the object of a descriptor there, \<open>read\<close>
  moves the position in it and \<open>close\<close> frees it. The state is well typed when every open
  descriptor has an object of its own that represents its contents and position;
  every step preserves that, and in a well-typed state the calls on a descriptor give what
  \<open>F\<close> says.
\<close>

section \<open>The descriptor table of the library, over many calls\<close>

text \<open>
  \<open>fdlib_ok\<close> describes single calls. Over many, the library keeps a set of numbers in use:
  it hands out a number that is not in use, takes one back on release, and a call on a
  number in use leaves the entries of the others alone. The first three numbers are the console's.
\<close>

definition fdlib_tracks :: "'f fdlib \<Rightarrow> ('f \<Rightarrow> bool) \<Rightarrow> ('f \<Rightarrow> int set) \<Rightarrow> bool" where
  "fdlib_tracks lib good used \<longleftrightarrow>
     (\<forall>f. good f \<longrightarrow> used f \<subseteq> {3..<1000}) \<and>
     (\<forall>f fd f'. good f \<and> allocate_fd lib f = (fd, f') \<longrightarrow> good f' \<and>
        (\<forall>g\<in>used f. get_fd_struct lib f' g = get_fd_struct lib f g) \<and>
        (if fd = - EMFILE_number then used f' = used f else fd \<notin> used f \<and> used f' = insert fd (used f))) \<and>
     (\<forall>f fd v. good f \<and> fd \<in> used f \<longrightarrow>
        good (put_fd_struct lib fd v f) \<and> used (put_fd_struct lib fd v f) = used f \<and>
        (\<forall>g. g \<noteq> fd \<longrightarrow> get_fd_struct lib (put_fd_struct lib fd v f) g = get_fd_struct lib f g)) \<and>
     (\<forall>f fd. good f \<and> fd \<in> used f \<longrightarrow> good (add_free_fd lib fd f) \<and> used (add_free_fd lib fd f) = used f - {fd} \<and>
        (\<forall>g. g \<noteq> fd \<longrightarrow> get_fd_struct lib (add_free_fd lib fd f) g = get_fd_struct lib f g))"

lemma tracks_allocate:
  assumes "fdlib_tracks lib good used" and "good f" and "allocate_fd lib f = (fd, f')"
  shows "good f'" and "g \<in> used f \<Longrightarrow> get_fd_struct lib f' g = get_fd_struct lib f g"
    and "fd = - EMFILE_number \<Longrightarrow> used f' = used f"
    and "fd \<noteq> - EMFILE_number \<Longrightarrow> fd \<notin> used f \<and> used f' = insert fd (used f)"
  using assms unfolding fdlib_tracks_def by metis+

lemma tracks_put:
  assumes "fdlib_tracks lib good used" and "good f" and "fd \<in> used f"
  shows "good (put_fd_struct lib fd v f)" and "used (put_fd_struct lib fd v f) = used f"
    and "g \<noteq> fd \<Longrightarrow> get_fd_struct lib (put_fd_struct lib fd v f) g = get_fd_struct lib f g"
  using assms unfolding fdlib_tracks_def by blast+

lemma tracks_release:
  assumes "fdlib_tracks lib good used" and "good f" and "fd \<in> used f"
  shows "good (add_free_fd lib fd f)" and "used (add_free_fd lib fd f) = used f - {fd}"
    and "g \<noteq> fd \<Longrightarrow> get_fd_struct lib (add_free_fd lib fd f) g = get_fd_struct lib f g"
  using assms unfolding fdlib_tracks_def by blast+

lemma tracks_range: "fdlib_tracks lib good used \<Longrightarrow> good f \<Longrightarrow> fd \<in> used f \<Longrightarrow> 2 < fd \<and> fd < 1000"
  unfolding fdlib_tracks_def by fastforce

text \<open>What \<open>open\<close> does to the table.\<close>

definition table_step :: "'f fdlib \<Rightarrow> ('f \<Rightarrow> bool) \<Rightarrow> ('f \<Rightarrow> int set) \<Rightarrow> 'f \<Rightarrow> 'f \<Rightarrow> bool" where
  "table_step lib good used f f' \<longleftrightarrow> good f' \<and> used f \<subseteq> used f' \<and>
     (\<forall>g\<in>used f. get_fd_struct lib f' g = get_fd_struct lib f g)"

lemma open_cpio_table:
  assumes T: "fdlib_tracks lib good used" and good: "good f"
    and run: "open_cpio A ly lib ar path flags (f, s) = Some (r, (f', s'))"
  shows "table_step lib good used f f'" and "r = Inr fd \<Longrightarrow> fd \<notin> used f \<and> fd \<in> used f'"
proof -
  obtain fd1 f1 where al: "allocate_fd lib f = (fd1, f1)" by fastforce
  note a = tracks_allocate [OF T good al]
  have idle: "table_step lib good used f f" by (simp add: table_step_def good)
  have full: "table_step lib good used f f1" if "fd1 = - EMFILE_number"
    using a that by (simp add: table_step_def)
  have new: "fd1 \<notin> used f" "used f1 = insert fd1 (used f)" if "fd1 \<noteq> - EMFILE_number"
    using a(4) that by blast+
  let ?put = "\<lambda>u v. put_fd_struct lib fd1 v (put_fd_struct lib fd1 u f1)"
  have put2: "good (?put u v) \<and> used (?put u v) = insert fd1 (used f) \<and>
      (\<forall>g\<in>used f. get_fd_struct lib (?put u v) g = get_fd_struct lib f g)" if "fd1 \<noteq> - EMFILE_number" for u v
  proof -
    have "fd1 \<in> used f1" using new(2) [OF that] by simp
    note p1 = tracks_put [OF T a(1) this, where v = u]
    have "fd1 \<in> used (put_fd_struct lib fd1 u f1)" using p1(2) new(2) [OF that] by simp
    note p2 = tracks_put [OF T p1(1) this, where v = v]
    have "g \<noteq> fd1" if "g \<in> used f" for g using new(1) [OF \<open>fd1 \<noteq> - EMFILE_number\<close>] that by blast
    then show ?thesis using p1 p2 a(2) new(2) [OF that] by simp
  qed
  have keep: "table_step lib good used f (?put u v) \<and> fd1 \<in> used (?put u v)" if "fd1 \<noteq> - EMFILE_number" for u v
    using put2 [OF that, where u = u and v = v] by (auto simp: table_step_def)
  have gone: "table_step lib good used f (add_free_fd lib fd1 (?put u v))" if "fd1 \<noteq> - EMFILE_number" for u v
  proof -
    note p = put2 [OF that, where u = u and v = v] and n = new(1) [OF that]
    then have "good (?put u v)" "fd1 \<in> used (?put u v)" by simp_all
    note R = tracks_release [OF T this]
    have "get_fd_struct lib (add_free_fd lib fd1 (?put u v)) g = get_fd_struct lib f g" if "g \<in> used f" for g
      using R(3) [of g] p n that by auto
    then show ?thesis using R(1,2) p n by (auto simp: table_step_def)
  qed
  from run show "table_step lib good used f f'" and "r = Inr fd \<Longrightarrow> fd \<notin> used f \<and> fd \<in> used f'"
    unfolding open_cpio_def using al idle full keep gone new
    by (auto simp: Let_def split: option.splits if_splits sum.splits)
qed

section \<open>The machine\<close>

text \<open>
  Calls that the component answers itself, from its tables of fake descriptors, and that
  store nothing in memory. \<open>read\<close> of an eventfd does, and is a step of its own below.
\<close>

inductive fake_call :: "'w os_calls \<Rightarrow> 'w fake_fds \<Rightarrow> 'w fake_fds \<Rightarrow> bool" for os :: "'w os_calls" where
  fake_eventfd: "fake_call os w (snd (eventfd v fl w))"
| fake_epoll_create1: "fake_call os w (snd (epoll_create1 fl w))"
| fake_epoll_create: "fake_call os w (snd (epoll_create sz w))"
| fake_epoll_ctl: "fake_epoll_from_fd w epfd \<noteq> None \<Longrightarrow> fake_call os w (snd (epoll_ctl os epfd op fd event w))"
| fake_write: "fake_eventfd_from_fd w fd \<noteq> None \<Longrightarrow> fake_call os w (snd (write_fd os fd buf n w))"
| fake_close: "fake_eventfd_from_fd w fd \<noteq> None \<or> fake_epoll_from_fd w fd \<noteq> None \<Longrightarrow>
    fake_call os w (snd (close_fd os fd w))"
| fake_fcntl: "fake_call os w (snd (fcntl fd cmd arg w))"

lemma fcntl_world [simp]: "os_world (snd (fcntl fd cmd arg w)) = os_world w"
  by (cases "fcntl_cmd_of cmd") (simp_all add: fcntl_def Let_def case_prod_beta split: option.splits)

lemma fake_call_world: "fake_call os w w' \<Longrightarrow> os_world w' = os_world w"
  by (induction rule: fake_call.induct)
    (auto simp: eventfd_def epoll_create1_def epoll_create_def epoll_ctl_def read_fd_def write_fd_def
      close_fd_def Let_def case_prod_beta split: option.splits)

lemma fake_call_ok: "fake_call os w w' \<Longrightarrow> fds_ok w \<Longrightarrow> fds_ok w'"
proof (induction rule: fake_call.induct)
  case (fake_epoll_create w sz)
  then show ?case by (simp add: epoll_create_def epoll_create1_ok)
qed (simp_all add: fd_ops_ok)

text \<open>The contents of the file that a path names, in a memory \<open>m\<close> that holds the archive.\<close>

definition archive_content :: "cpio \<Rightarrow> mem \<Rightarrow> string \<Rightarrow> byte list \<Rightarrow> bool" where
  "archive_content ar m path content \<longleftrightarrow>
     (\<exists>start sz. find_file ar (normalize_path (Some path)) = Some (start, sz) \<and> content = loads (unat sz) m start)"

type_synonym files = "int \<Rightarrow> (byte list \<times> nat) option"

inductive component_step ::
    "addr \<Rightarrow> cpio_layout \<Rightarrow> 'f fdlib \<Rightarrow> cpio \<Rightarrow> ('f \<times> heap) os_calls \<Rightarrow>
       ('f \<times> heap) fake_fds \<times> files \<times> addr set \<Rightarrow> ('f \<times> heap) fake_fds \<times> files \<times> addr set \<Rightarrow> bool"
  for A :: addr and ly :: cpio_layout and lib :: "'f fdlib" and ar :: cpio and os :: "('f \<times> heap) os_calls" where
  on_memory: "heap_step A ly lib (comp_heap w, H) (s', H') \<Longrightarrow>
    component_step A ly lib ar os (w, F, H) (on_heap (\<lambda>_. s') w, F, H')"
| open_ok: "open_path (ruby_sys_openat A ly lib ar) (Some path) flags (os_world w) = Some (Inr fd, v) \<Longrightarrow>
    archive_content ar (hmem (comp_heap w)) path content \<Longrightarrow>
    component_step A ly lib ar os (w, F, H) (w\<lparr>os_world := v\<rparr>, F(fd \<mapsto> (content, 0)), H)"
| open_fails: "open_path (ruby_sys_openat A ly lib ar) path flags (os_world w) = Some (Inl e, v) \<Longrightarrow>
    component_step A ly lib ar os (w, F, H) (w\<lparr>os_world := v\<rparr>, F, H)"
| reading: "F fd = Some (content, pos) \<Longrightarrow> q \<in> H \<Longrightarrow> unat q \<le> unat p \<Longrightarrow>
    unat p + unat n \<le> unat q + unat (malloc_usable_size q (comp_heap w)) \<Longrightarrow>
    read_into os fd p n w = (Inr k, w') \<Longrightarrow>
    component_step A ly lib ar os (w, F, H) (w', F(fd \<mapsto> (content, pos + unat k)), H)"
| closing: "F fd \<noteq> None \<Longrightarrow> close_fd os fd w = (r, w') \<Longrightarrow>
    component_step A ly lib ar os (w, F, H) (w', F(fd := None), H)"
| mapping: "F fd \<noteq> None \<Longrightarrow> flags AND MAP_ANONYMOUS = 0 \<Longrightarrow>
    mmap A ly lib (fst (os_world w)) n flags fd off (comp_heap w) = Some (Inr p, s') \<Longrightarrow>
    component_step A ly lib ar os (w, F, H) (on_heap (\<lambda>_. s') w, F, insert p H)"
| mapping_refused: "F fd \<noteq> None \<Longrightarrow> flags AND MAP_ANONYMOUS = 0 \<Longrightarrow>
    mmap A ly lib (fst (os_world w)) n flags fd off (comp_heap w) = Some (Inl e, s') \<Longrightarrow>
    component_step A ly lib ar os (w, F, H) (on_heap (\<lambda>_. s') w, F, H)"
| reading_event: "fake_eventfd_from_fd w fd \<noteq> None \<Longrightarrow> q \<in> H \<Longrightarrow> unat q \<le> unat p \<Longrightarrow>
    unat p + unat n \<le> unat q + unat (malloc_usable_size q (comp_heap w)) \<Longrightarrow>
    read_into os fd p n w = (r, w') \<Longrightarrow>
    component_step A ly lib ar os (w, F, H) (w', F, H)"
| faking: "fake_call os w w' \<Longrightarrow> component_step A ly lib ar os (w, F, H) (w', F, H)"

section \<open>Well-typed states\<close>

text \<open>
  The typing of the heap: \<open>D\<close> gives each open descriptor its object. The live blocks are
  those held and the objects, no block is both, no object belongs to two descriptors, and
  each represents the contents and the position that \<open>F\<close> has for its descriptor.
\<close>

definition object_at ::
    "addr \<Rightarrow> cpio_layout \<Rightarrow> 'f fdlib \<Rightarrow> ('f \<Rightarrow> int set) \<Rightarrow> 'f \<Rightarrow> heap \<Rightarrow> (addr \<Rightarrow> nat option) \<Rightarrow>
       int \<Rightarrow> addr \<Rightarrow> byte list \<times> nat \<Rightarrow> bool" where
  "object_at A ly lib used f s L fd d v \<longleftrightarrow>
     fd \<in> used f \<and> cpio_file_for_fd lib f fd = Some d \<and> (\<exists>k\<ge>unat (sizeof_cpio ly). L d = Some k) \<and>
     file_at A ly (hmem s) d (fst v) (snd v)"

definition objects_ok ::
    "addr \<Rightarrow> cpio_layout \<Rightarrow> 'f fdlib \<Rightarrow> ('f \<Rightarrow> int set) \<Rightarrow> 'f \<Rightarrow> heap \<Rightarrow> (addr \<Rightarrow> nat option) \<Rightarrow>
       (int \<Rightarrow> addr option) \<Rightarrow> files \<Rightarrow> addr set \<Rightarrow> bool" where
  "objects_ok A ly lib used f s L D F H \<longleftrightarrow>
     heap_rep A s L \<and> dom L = H \<union> ran D \<and> H \<inter> ran D = {} \<and> dom D = dom F \<and> inj_on D (dom D) \<and>
     (\<forall>fd d v. D fd = Some d \<and> F fd = Some v \<longrightarrow> object_at A ly lib used f s L fd d v)"

lemma objects_okI:
  assumes "heap_rep A s L" and "dom L = H \<union> ran D" and "H \<inter> ran D = {}" and "dom D = dom F"
    and "inj_on D (dom D)"
    and "\<And>fd d v. D fd = Some d \<Longrightarrow> F fd = Some v \<Longrightarrow> object_at A ly lib used f s L fd d v"
  shows "objects_ok A ly lib used f s L D F H"
  using assms unfolding objects_ok_def by blast

lemma objects_okD:
  assumes "objects_ok A ly lib used f s L D F H"
  shows "heap_rep A s L" and "dom L = H \<union> ran D" and "H \<inter> ran D = {}" and "dom D = dom F"
    and "inj_on D (dom D)" and "D fd = Some d \<Longrightarrow> F fd = Some v \<Longrightarrow> object_at A ly lib used f s L fd d v"
    and "D fd = Some d \<Longrightarrow> d \<notin> H" and "D fd = Some d \<Longrightarrow> D g = Some d \<Longrightarrow> g = fd"
proof -
  show "d \<notin> H" if "D fd = Some d" using assms that unfolding objects_ok_def ran_def by blast
  show "g = fd" if "D fd = Some d" "D g = Some d"
    using assms that unfolding objects_ok_def inj_on_def by (metis domI)
qed (use assms in \<open>unfold objects_ok_def, (elim conjE, assumption | blast)+\<close>)

definition component_ok ::
    "addr \<Rightarrow> cpio_layout \<Rightarrow> 'f fdlib \<Rightarrow> cpio \<Rightarrow> ('f \<Rightarrow> bool) \<Rightarrow> ('f \<Rightarrow> int set) \<Rightarrow> mem \<Rightarrow>
       ('f \<times> heap) fake_fds \<times> files \<times> addr set \<Rightarrow> bool" where
  "component_ok A ly lib ar good used m c \<longleftrightarrow>
     (case c of (w, F, H) \<Rightarrow>
        fds_ok w \<and> good (fst (os_world w)) \<and>
        (\<forall>x. unat x < unat A \<or> unat A + 67108864 \<le> unat x \<longrightarrow> hmem (comp_heap w) x = m x) \<and>
        (\<forall>v\<in>ran F. \<exists>path. archive_content ar m path (fst v)) \<and>
        (\<exists>L D. objects_ok A ly lib used (fst (os_world w)) (comp_heap w) L D F H))"

lemma cpio_file_cong:
  "get_fd_struct lib f' fd = get_fd_struct lib f fd \<Longrightarrow> cpio_file_for_fd lib f' fd = cpio_file_for_fd lib f fd"
  by (simp add: cpio_file_for_fd_def)

text \<open>A step of the heap that frames the blocks held keeps every object.\<close>

lemma object_at_frame:
  assumes ob: "object_at A ly lib used f s L fd d v" and ly: "layout_ok ly" and rep: "heap_rep A s L"
    and d: "d \<notin> H" and sub: "L |` (- H) \<subseteq>\<^sub>m L'" and kp: "keeps A (L |` (- H)) s s'"
    and t: "used f \<subseteq> used f'" "get_fd_struct lib f' fd = get_fd_struct lib f fd"
  shows "object_at A ly lib used f' s' L' fd d v"
proof -
  obtain k where k: "L d = Some k" "unat (sizeof_cpio ly) \<le> k" using ob by (auto simp: object_at_def)
  have r: "(L |` (- H)) d = Some k" using k(1) d by simp
  then have "L' d = Some k" using sub by (metis map_le_def domI)
  moreover have "file_at A ly (hmem s') d (fst v) (snd v)"
    using ob by (intro file_at_keeps [OF _ ly rep k kp r]) (simp add: object_at_def)
  moreover note cpio_file_cong [OF t(2)]
  ultimately show ?thesis using ob t(1) k(2) by (auto simp: object_at_def)
qed

lemma objects_frame:
  assumes O: "objects_ok A ly lib used f s L D F H" and ly: "layout_ok ly"
    and fr: "framed A L H s s' H'" and t: "table_step lib good used f f'"
  shows "\<exists>L'. objects_ok A ly lib used f' s' L' D F H'"
proof -
  note o = objects_okD [OF O]
  obtain L' where L': "heap_rep A s' L'" "dom L' = H' \<union> (dom L - H)" "H' \<inter> (dom L - H) = {}"
    "L |` (- H) \<subseteq>\<^sub>m L'" "keeps A (L |` (- H)) s s'"
    using fr by (auto simp: framed_def)
  have rd: "dom L - H = ran D" using o(2,3) by blast
  have "object_at A ly lib used f' s' L' fd d v" if D: "D fd = Some d" and F: "F fd = Some v" for fd d v
  proof -
    note ob = o(6) [OF D F]
    have "get_fd_struct lib f' fd = get_fd_struct lib f fd" "used f \<subseteq> used f'"
      using t ob unfolding table_step_def object_at_def by blast+
    then show ?thesis by (intro object_at_frame [OF ob ly o(1) o(7) [OF D] L'(4,5)])
  qed
  then have "objects_ok A ly lib used f' s' L' D F H'"
    by (rule objects_okI [OF L'(1) L'(2,3) [unfolded rd] o(4,5)])
  then show ?thesis by (rule exI [of _ L'])
qed

text \<open>An object becomes a block that is held, and a held block becomes an object.\<close>

lemma objects_release:
  assumes O: "objects_ok A ly lib used f s L D F H" and d: "D fd = Some d"
  shows "objects_ok A ly lib used f s L (D(fd := None)) (F(fd := None)) (insert d H)"
proof -
  note o = objects_okD [OF O]
  have r: "ran (D(fd := None)) = ran D - {d}"
  proof (intro set_eqI iffI)
    fix x
    assume "x \<in> ran (D(fd := None))"
    then obtain g where g: "g \<noteq> fd" "D g = Some x" by (auto simp: ran_def split: if_splits)
    then have "x \<noteq> d" using o(8) [OF d, of g] by blast
    with ranI [where m = D, OF g(2)] show "x \<in> ran D - {d}" by simp
  next
    fix x
    assume x: "x \<in> ran D - {d}"
    then obtain g where g: "D g = Some x" by (auto simp: ran_def)
    with x d have "g \<noteq> fd" by auto
    with g show "x \<in> ran (D(fd := None))" by (intro ranI [of _ g]) simp
  qed
  have dr: "d \<in> ran D" using d by (rule ranI)
  show ?thesis
  proof (rule objects_okI [OF o(1)])
    show "dom L = insert d H \<union> ran (D(fd := None))" "insert d H \<inter> ran (D(fd := None)) = {}"
      unfolding r using o(2,3) dr by blast+
    show "inj_on (D(fd := None)) (dom (D(fd := None)))"
      using o(5) unfolding inj_on_def by auto
    show "dom (D(fd := None)) = dom (F(fd := None))" using o(4) by simp
  qed (use o(6) in \<open>simp split: if_splits\<close>)
qed

lemma objects_adopt:
  assumes O: "objects_ok A ly lib used f s L D F (insert d H)" and d: "d \<notin> H" and fd: "F fd = None"
    and ob: "object_at A ly lib used f s L fd d v"
  shows "objects_ok A ly lib used f s L (D(fd \<mapsto> d)) (F(fd \<mapsto> v)) H"
proof -
  note o = objects_okD [OF O]
  have D: "D fd = None" using o(4) fd by (metis domIff)
  then have r: "ran (D(fd \<mapsto> d)) = insert d (ran D)" by simp
  have dr: "d \<notin> ran D" using o(3) by blast
  show ?thesis
  proof (rule objects_okI [OF o(1)])
    show "dom L = H \<union> ran (D(fd \<mapsto> d))" "H \<inter> ran (D(fd \<mapsto> d)) = {}"
      unfolding r using o(2,3) d by blast+
    show "inj_on (D(fd \<mapsto> d)) (dom (D(fd \<mapsto> d)))"
      using o(8) D dr by (intro inj_onI) (auto simp: ran_def split: if_splits)
    show "dom (D(fd \<mapsto> d)) = dom (F(fd \<mapsto> v))" using o(4) by simp
    show "object_at A ly lib used f s L g e u" if "(D(fd \<mapsto> d)) g = Some e" "(F(fd \<mapsto> v)) g = Some u" for g e u
      using that ob o(6) by (simp split: if_splits)
  qed
qed

text \<open>A read writes into one object and one held block.\<close>

lemma objects_advance:
  assumes O: "objects_ok A ly lib used f s L D F H" and ly: "layout_ok ly"
    and d: "D fd = Some d" "F fd = Some v" and q: "q \<in> H"
    and rep: "heap_rep A s' L" and kp: "keeps A (L(d := None, q := None)) s s'"
    and fa: "file_at A ly (hmem s') d content pos"
  shows "objects_ok A ly lib used f s' L D (F(fd \<mapsto> (content, pos))) H"
proof -
  note o = objects_okD [OF O]
  have "object_at A ly lib used f s' L g e u"
    if D: "D g = Some e" and F: "(F(fd \<mapsto> (content, pos))) g = Some u" for g e u
  proof (cases "g = fd")
    case True
    then show ?thesis using o(6) [OF d] fa F D d(1) by (auto simp: object_at_def)
  next
    case False
    then have b: "object_at A ly lib used f s L g e u" using o(6) [OF D] F by simp
    then obtain k where k: "L e = Some k" "unat (sizeof_cpio ly) \<le> k" by (auto simp: object_at_def)
    have "e \<noteq> d" using o(8) [OF d(1)] D False by blast
    moreover have "e \<noteq> q" using o(7) [OF D] q by blast
    ultimately have r: "(L(d := None, q := None)) e = Some k" using k(1) by simp
    have "file_at A ly (hmem s') e (fst u) (snd u)"
      using b by (intro file_at_keeps [OF _ ly o(1) k kp r]) (simp add: object_at_def)
    with b show ?thesis by (simp add: object_at_def)
  qed
  moreover have "dom D = dom (F(fd \<mapsto> (content, pos)))" using d(2) o(4) by auto
  ultimately show ?thesis by (intro objects_okI [OF rep o(2,3) _ o(5)])
qed

section \<open>Every step preserves the typing\<close>

definition archive_outside :: "addr \<Rightarrow> cpio \<Rightarrow> bool" where
  "archive_outside A ar \<longleftrightarrow> (\<forall>path start sz. find_file ar path = Some (start, sz) \<longrightarrow>
     unat sz < 2 ^ 32 \<and> outside_arena A start (unat sz))"

text \<open>What is relied on of the code outside the repository, together.\<close>

definition component_laws ::
    "addr \<Rightarrow> cpio_layout \<Rightarrow> 'f fdlib \<Rightarrow> cpio \<Rightarrow> ('f \<times> heap) os_calls \<Rightarrow> ('f \<Rightarrow> bool) \<Rightarrow> ('f \<Rightarrow> int set) \<Rightarrow> bool" where
  "component_laws A ly lib ar os good used \<longleftrightarrow>
     layout_ok ly \<and> fdlib_ok lib \<and> fdlib_tracks lib good used \<and> archive_outside A ar \<and>
     reads_archive ly lib os \<and> closes_archive lib os"

lemma component_okI:
  assumes "os_world w = (f, s)" and "fds_ok w" and "good f"
    and "\<And>x. unat x < unat A \<or> unat A + 67108864 \<le> unat x \<Longrightarrow> hmem s x = m x"
    and "\<And>v. v \<in> ran F \<Longrightarrow> \<exists>path. archive_content ar m path (fst v)"
    and "objects_ok A ly lib used f s L D F H"
  shows "component_ok A ly lib ar good used m (w, F, H)"
  unfolding component_ok_def using assms by auto

lemma component_okE:
  assumes "component_ok A ly lib ar good used m (w, F, H)"
  obtains f s L D where "os_world w = (f, s)" and "fds_ok w" and "good f"
    and "\<And>x. unat x < unat A \<or> unat A + 67108864 \<le> unat x \<Longrightarrow> hmem s x = m x"
    and "\<And>v. v \<in> ran F \<Longrightarrow> \<exists>path. archive_content ar m path (fst v)"
    and "objects_ok A ly lib used f s L D F H"
  using assms unfolding component_ok_def by (cases "os_world w") auto

lemma framed_outside:
  "framed A L H s s' H' \<Longrightarrow> unat x < unat A \<or> unat A + 67108864 \<le> unat x \<Longrightarrow> hmem s' x = hmem s x"
  unfolding framed_def using keeps_outside by blast

text \<open>A step changes the library's table and the heap, and nothing outside the arena.\<close>

lemma component_update:
  assumes ok: "component_ok A ly lib ar good used m (w, F, H)" and w: "os_world w = (f, s)" and good: "good f'"
    and mem: "\<And>x. unat x < unat A \<or> unat A + 67108864 \<le> unat x \<Longrightarrow> hmem s' x = hmem s x"
    and new: "\<And>v. v \<in> ran F' \<Longrightarrow> \<exists>path. archive_content ar m path (fst v)"
    and O: "objects_ok A ly lib used f' s' L' D' F' H'"
  shows "component_ok A ly lib ar good used m (w\<lparr>os_world := (f', s')\<rparr>, F', H')"
proof -
  obtain "fds_ok w" and "\<And>x. unat x < unat A \<or> unat A + 67108864 \<le> unat x \<Longrightarrow> hmem s x = m x"
    using ok w by (elim component_okE) simp
  then show ?thesis using good mem by (intro component_okI [OF _ _ _ _ new O]) simp_all
qed

lemma component_frame_at:
  assumes ok: "component_ok A ly lib ar good used m (w, F, H)" and ly: "layout_ok ly"
    and w: "os_world w = (f, s)" and t: "table_step lib good used f f'"
    and O: "objects_ok A ly lib used f s L D F H" and fr: "framed A L H s s' H'"
  shows "component_ok A ly lib ar good used m (w\<lparr>os_world := (f', s')\<rparr>, F, H')"
proof -
  have ct: "\<exists>path. archive_content ar m path (fst v)" if "v \<in> ran F" for v
    using ok that by (elim component_okE) blast
  obtain L' where L': "objects_ok A ly lib used f' s' L' D F H'"
    using objects_frame [OF O ly fr t] by blast
  show ?thesis
    by (rule component_update [OF ok w _ framed_outside [OF fr] ct L']) (use t in \<open>simp_all add: table_step_def\<close>)
qed

lemma component_frame:
  assumes ok: "component_ok A ly lib ar good used m (w, F, H)" and ly: "layout_ok ly"
    and w: "os_world w = (f, s)" and t: "table_step lib good used f f'"
    and fr: "\<And>L D. objects_ok A ly lib used f s L D F H \<Longrightarrow> framed A L H s s' H'"
  shows "component_ok A ly lib ar good used m (w\<lparr>os_world := (f', s')\<rparr>, F, H')"
proof -
  obtain L D where O: "objects_ok A ly lib used f s L D F H" using ok w by (elim component_okE) auto
  from component_frame_at [OF ok ly w t O fr [OF O]] show ?thesis .
qed

text \<open>Mapping a file is a new block.\<close>

lemma mapping_framed:
  assumes O: "objects_ok A ly lib used f s L D F H" and ly: "layout_ok ly" and fd: "F fd \<noteq> None"
    and fl: "flags AND MAP_ANONYMOUS = 0" and pos: "0 \<le> fd"
    and run: "mmap A ly lib f n flags fd off s = Some (Inr p, s')"
  shows "framed A L H s s' (insert p H)"
proof -
  note o = objects_okD [OF O]
  obtain d v where d: "D fd = Some d" "F fd = Some v" using fd o(4) by (metis domIff option.exhaust)
  have ob: "object_at A ly lib used f s L fd d v" by (rule o(6) [OF d])
  then have cf: "cpio_file_for_fd lib f fd = Some d" by (simp add: object_at_def)
  have fok: "file_ok A ly s L d" using ob ly by (auto simp: object_at_def file_ok_def file_at_def outside_arena_def Let_def)
  have n: "n \<noteq> 0" using run by (auto simp: mmap_def)
  have off: "sint off \<ge> 0" "off \<le> ucast (cpio_size ly (hmem s) d)"
    using run n fl pos cf by (auto simp: mmap_def Let_def split: if_splits)
  obtain k where "L p = None" "keeps A L s s'" "heap_rep A s' (L(p \<mapsto> k))"
    using mmap_file_rep [OF o(1) n fl pos cf fok off] run by auto
  then show ?thesis using o(2) by (intro framed_new) auto
qed

text \<open>A failing \<open>open\<close> changes the descriptor table only.\<close>

lemma open_path_fails:
  assumes rep: "heap_rep A s L" and ly: "layout_ok ly" and lib: "fdlib_ok lib"
    and T: "fdlib_tracks lib good used" and good: "good f"
    and run: "open_path (ruby_sys_openat A ly lib ar) path flags (f, s) = Some (Inl e, (f', s'))"
  shows "s' = s" and "table_step lib good used f f'"
proof -
  have idle: "table_step lib good used f f" by (simp add: table_step_def good)
  have "s' = s \<and> table_step lib good used f f'"
  proof (cases "path = None \<or> flags AND O_ACCMODE \<noteq> O_RDONLY")
    case True
    then show ?thesis using run idle by (auto simp: open_path_def split: if_splits)
  next
    case False
    then obtain q where q: "path = Some q" "flags AND O_ACCMODE = O_RDONLY" by auto
    obtain r where np: "normalize_path (Some q) = Some r" by (simp add: normalize_path_def)
    have oc: "open_cpio A ly lib ar (Some r) O_RDONLY (f, s) = Some (Inl e, (f', s'))"
      using run unfolding q(1) open_path_archive [OF q(2) np] .
    have ro: "O_RDONLY AND O_ACCMODE = O_RDONLY" by (simp add: O_RDONLY_def)
    have "s' = s"
    proof (cases "find_file ar (Some r)")
      case None
      show ?thesis using open_cpio_missing [OF ro None, of A ly lib "(f, s)"] oc by simp
    next
      case (Some v)
      then show ?thesis using open_cpio_rep [OF rep ly lib ro, of ar r "fst v" "snd v" f] oc by auto
    qed
    with open_cpio_table(1) [OF T good oc] show ?thesis by blast
  qed
  then show "s' = s" and "table_step lib good used f f'" by blast+
qed

text \<open>A successful \<open>open\<close> makes one new object, at the start of its file.\<close>

lemma open_path_object:
  assumes O: "objects_ok A ly lib used f s L D F H" and ly: "layout_ok ly" and lib: "fdlib_ok lib"
    and T: "fdlib_tracks lib good used" and good: "good f" and ar: "archive_outside A ar"
    and run: "open_path (ruby_sys_openat A ly lib ar) (Some path) flags (f, s) = Some (Inr fd, (f', s'))"
    and c: "archive_content ar (hmem s) path content"
  shows "table_step lib good used f f'" and "\<exists>L D. objects_ok A ly lib used f' s' L D (F(fd \<mapsto> (content, 0))) H"
    and "unat x < unat A \<or> unat A + 67108864 \<le> unat x \<Longrightarrow> hmem s' x = hmem s x"
proof -
  note o = objects_okD [OF O]
  obtain start sz where ff: "find_file ar (normalize_path (Some path)) = Some (start, sz)"
    and content: "content = loads (unat sz) (hmem s) start"
    using c by (auto simp: archive_content_def)
  have fl: "flags AND O_ACCMODE = O_RDONLY" using run by (auto simp: open_path_def split: if_splits)
  obtain r where np: "normalize_path (Some path) = Some r" by (simp add: normalize_path_def)
  have oc: "open_cpio A ly lib ar (Some r) O_RDONLY (f, s) = Some (Inr fd, (f', s'))"
    using run unfolding open_path_archive [OF fl np] .
  note tb = open_cpio_table [OF T good oc]
  show "table_step lib good used f f'" by (rule tb(1))
  have op: "opened A ly lib L s start sz fd f' s'"
    using open_path_rep [OF o(1) ly lib fl ff, of f] run by auto
  have lim: "unat sz < 2 ^ 32" "outside_arena A start (unat sz)"
    using ar ff unfolding archive_outside_def by blast+
  obtain d k where d: "L d = None" "unat (sizeof_cpio ly) \<le> k" "heap_rep A s' (L(d \<mapsto> k))"
    "keeps A L s s'" "cpio_file_for_fd lib f' fd = Some d" "file_at A ly (hmem s') d content 0"
    using opened_file [OF op heap_rep_arena [OF o(1)] lim] unfolding content by blast
  show "hmem s' x = hmem s x" if "unat x < unat A \<or> unat A + 67108864 \<le> unat x"
    by (rule keeps_outside [OF d(4) that])
  have H: "H \<subseteq> dom L" "d \<notin> H" using o(2) d(1) by auto
  obtain L' where L': "objects_ok A ly lib used f' s' L' D F (insert d H)"
    using objects_frame [OF O ly framed_new [OF d(3,1,4) H(1)] tb(1)] by blast
  note o' = objects_okD [OF L']
  obtain k' where k': "L' d = Some k'" using o'(2) by blast
  have "(L(d \<mapsto> k)) d = Some k" by simp
  then have "k' = k" using live_header(1) [OF o'(1) k'] live_header(1) [OF d(3)] by metis
  then have ob: "object_at A ly lib used f' s' L' fd d (content, 0)"
    using tb(2) d(2,5,6) k' by (auto simp: object_at_def)
  have "F fd = None"
  proof (rule ccontr)
    assume "F fd \<noteq> None"
    then obtain e v where "D fd = Some e" "F fd = Some v" using o(4) by (metis domIff option.exhaust)
    from o(6) [OF this] tb(2) show False by (simp add: object_at_def)
  qed
  from objects_adopt [OF L' H(2) this ob]
  show "\<exists>L D. objects_ok A ly lib used f' s' L D (F(fd \<mapsto> (content, 0))) H" by blast
qed

text \<open>What a read of an open file does.\<close>

lemma read_object:
  fixes n :: u64
  assumes O: "objects_ok A ly lib used f s L D F H" and ly: "layout_ok ly" and rd: "reads_archive ly lib os"
    and T: "fdlib_tracks lib good used" and good: "good f" and w: "os_world w = (f, s)" "fds_ok w"
    and fd: "F fd = Some (content, pos)" and q: "q \<in> H" "unat q \<le> unat p"
      "unat p + unat n \<le> unat q + unat (malloc_usable_size q s)"
  defines "bs \<equiv> take (unat n) (drop pos content)"
  shows "\<exists>s'. read_into os fd p n w = (Inr (of_nat (length bs)), w\<lparr>os_world := (f, s')\<rparr>) \<and>
    loads (length bs) (hmem s') p = bs \<and>
    (\<forall>x. unat x < unat A \<or> unat A + 67108864 \<le> unat x \<longrightarrow> hmem s' x = hmem s x) \<and>
    objects_ok A ly lib used f s' L D (F(fd \<mapsto> (content, pos + length bs))) H"
proof -
  note o = objects_okD [OF O]
  obtain d where d: "D fd = Some d" using fd o(4) by (metis domIff option.exhaust option.distinct(1))
  have ob: "object_at A ly lib used f s L fd d (content, pos)" by (rule o(6) [OF d fd])
  obtain k where k: "L d = Some k" "unat (sizeof_cpio ly) \<le> k" using ob by (auto simp: object_at_def)
  obtain c where c: "L q = Some c" using q(1) o(2) by blast
  have uc: "unat (malloc_usable_size q s) = c" by (rule usable_live [OF o(1) c])
  have fa: "cpio_file_for_fd lib f fd = Some d" "file_at A ly (hmem s) d content pos" "fd \<in> used f"
    using ob by (simp_all add: object_at_def)
  have nf: "fake_eventfd_from_fd w fd = None" using not_fake(1) [OF w(2)] tracks_range [OF T good fa(3)] by blast
  have dq: "d \<noteq> q" using o(7) [OF d] q(1) by blast
  note pq = q(2) q(3) [unfolded uc]
  obtain s' where s': "read_into os fd p n w = (Inr (of_nat (length bs)), w\<lparr>os_world := (f, s')\<rparr>)"
    "heap_rep A s' L" "keeps A (L(d := None, q := None)) s s'" "file_at A ly (hmem s') d content (pos + length bs)"
    and at: "\<And>x. unat q \<le> unat x \<Longrightarrow> unat x < unat q + c \<Longrightarrow> hmem s' x =
       (if unat p \<le> unat x \<and> unat x < unat p + length bs then bs ! (unat x - unat p) else hmem s x)"
    using read_into_file [OF w(1) rd ly nf fa(1) o(1) k(1) c dq k(2) fa(2) pq, folded bs_def] by blast
  have lb: "length bs \<le> unat n" by (simp add: bs_def)
  have "loads (length bs) (hmem s') p = bs"
  proof (rule nth_equalityI)
    fix i
    assume "i < length (loads (length bs) (hmem s') p)"
    then have i: "i < length bs" by simp
    have "unat (p + of_nat i) = unat p + i"
      by (rule unat_offset [where n = "unat n"]) (use i lb pq live_bounds(4) [OF o(1) c] in linarith)+
    then show "loads (length bs) (hmem s') p ! i = bs ! i"
      using at [of "p + of_nat i"] i lb pq by (simp add: loads_def)
  qed simp
  with s' objects_advance [OF O ly d fd q(1) s'(2-4)] keeps_outside [OF s'(3)] show ?thesis by blast
qed

lemma close_object:
  assumes O: "objects_ok A ly lib used f s L D F H" and ly: "layout_ok ly" and cl: "closes_archive lib os"
    and T: "fdlib_tracks lib good used" and good: "good f" and w: "os_world w = (f, s)" "fds_ok w"
    and fd: "F fd \<noteq> None"
  shows "\<exists>f' s' L'. close_fd os fd w = (Inr 0, w\<lparr>os_world := (f', s')\<rparr>) \<and> good f' \<and>
    (\<forall>x. unat x < unat A \<or> unat A + 67108864 \<le> unat x \<longrightarrow> hmem s' x = hmem s x) \<and>
    objects_ok A ly lib used f' s' L' (D(fd := None)) (F(fd := None)) H"
proof -
  note o = objects_okD [OF O]
  obtain d v where d: "D fd = Some d" "F fd = Some v" using fd o(4) by (metis domIff option.exhaust)
  have ob: "object_at A ly lib used f s L fd d v" by (rule o(6) [OF d])
  then obtain k where k: "L d = Some k" "cpio_file_for_fd lib f fd = Some d" "fd \<in> used f"
    by (auto simp: object_at_def)
  have nf: "fake_eventfd_from_fd w fd = None" "fake_epoll_from_fd w fd = None"
    using not_fake [OF w(2)] tracks_range [OF T good k(3)] by blast+
  note run = close_file [OF w(1) cl k(2) nf] and R = tracks_release [OF T good k(3)]
  note O1 = objects_release [OF O d(1)] and F = free_rep(1,2) [OF o(1) k(1)]
  have H: "insert d H \<subseteq> dom L" using o(2) k(1) by auto
  have "insert d H - {d} = H" using o(7) [OF d(1)] by simp
  with framed_drop [where L = L, OF F insertI1 H] have fr: "framed A L (insert d H) s (free d s) H" by simp
  obtain L1 where L1: "objects_ok A ly lib used f (free d s) L1 (D(fd := None)) (F(fd := None)) H"
    using objects_frame [OF O1 ly fr, where good = good and f' = f] good by (auto simp: table_step_def)
  have "objects_ok A ly lib used (add_free_fd lib fd f) (free d s) L1 (D(fd := None)) (F(fd := None)) H"
  proof (rule objects_okI [OF objects_okD(1-5) [OF L1]])
    fix g e u
    assume g: "(D(fd := None)) g = Some e" "(F(fd := None)) g = Some u"
    then have ne: "g \<noteq> fd" by auto
    with objects_okD(6) [OF L1 g] R(2) cpio_file_cong [OF R(3) [OF ne]]
    show "object_at A ly lib used (add_free_fd lib fd f) (free d s) L1 g e u"
      by (simp add: object_at_def)
  qed
  with run R(1) framed_outside [OF fr] show ?thesis by blast
qed

lemma archive_content_cong:
  assumes "archive_content ar m path content" and "archive_outside A ar" and "arena_at A"
    and "\<And>x. unat x < unat A \<or> unat A + 67108864 \<le> unat x \<Longrightarrow> m' x = m x"
  shows "archive_content ar m' path content"
proof -
  obtain start sz where f: "find_file ar (normalize_path (Some path)) = Some (start, sz)"
    "content = loads (unat sz) m start"
    using assms(1) by (auto simp: archive_content_def)
  have "outside_arena A start (unat sz)" using assms(2) f(1) by (auto simp: archive_outside_def)
  from loads_outside [OF this assms(3,4)] f show ?thesis by (auto simp: archive_content_def)
qed

text \<open>One lemma per step that opens, reads or closes; the others frame what is open.\<close>

lemma open_keeps_ok:
  assumes laws: "component_laws A ly lib ar os good used"
    and ok: "component_ok A ly lib ar good used m (w, F, H)"
    and run: "open_path (ruby_sys_openat A ly lib ar) (Some path) flags (os_world w) = Some (Inr fd, (f', s'))"
    and c: "archive_content ar (hmem (comp_heap w)) path content"
  shows "component_ok A ly lib ar good used m (w\<lparr>os_world := (f', s')\<rparr>, F(fd \<mapsto> (content, 0)), H)"
  using ok
proof (rule component_okE)
  fix f s L D
  assume w: "os_world w = (f, s)" and good: "good f" and O: "objects_ok A ly lib used f s L D F H"
    and out: "\<And>x. unat x < unat A \<or> unat A + 67108864 \<le> unat x \<Longrightarrow> hmem s x = m x"
    and ct: "\<And>v. v \<in> ran F \<Longrightarrow> \<exists>path. archive_content ar m path (fst v)"
  have L: "layout_ok ly" "fdlib_ok lib" "fdlib_tracks lib good used" and ar: "archive_outside A ar"
    using laws by (simp_all add: component_laws_def)
  have c': "archive_content ar (hmem s) path content" using c w by simp
  note P = open_path_object [OF O L good ar run [unfolded w] c']
  obtain L' D' where O': "objects_ok A ly lib used f' s' L' D' (F(fd \<mapsto> (content, 0))) H" using P(2) by blast
  have cm: "archive_content ar m path content"
    by (rule archive_content_cong [OF c' ar heap_rep_arena [OF objects_okD(1) [OF O]]]) (use out in simp)
  have "\<exists>path. archive_content ar m path (fst u)" if "u \<in> ran (F(fd \<mapsto> (content, 0)))" for u
    using that ct [of u] cm by (auto simp: ran_def split: if_splits)
  from component_update [OF ok w _ P(3) this O'] show ?thesis
    by (rule meta_mp) (use P(1) in \<open>simp_all add: table_step_def\<close>)
qed

lemma unat_take: "unat (of_nat (length (take (unat n) xs)) :: u64) = length (take (unat n) xs)" for n :: u64
proof -
  have "length (take (unat n) xs) \<le> unat n" by simp
  also have "unat n < 2 ^ LENGTH(64)" by (rule unsigned_less)
  finally show ?thesis by (simp only: unat_of_nat mod_less)
qed

lemma read_keeps_ok:
  fixes n :: u64
  assumes laws: "component_laws A ly lib ar os good used"
    and ok: "component_ok A ly lib ar good used m (w, F, H)"
    and fd: "F fd = Some (content, pos)" and q: "q \<in> H" "unat q \<le> unat p"
      "unat p + unat n \<le> unat q + unat (malloc_usable_size q (comp_heap w))"
  defines "bs \<equiv> take (unat n) (drop pos content)"
  shows "\<exists>w'. read_into os fd p n w = (Inr (of_nat (length bs)), w') \<and>
    loads (length bs) (hmem (comp_heap w')) p = bs \<and>
    component_ok A ly lib ar good used m (w', F(fd \<mapsto> (content, pos + length bs)), H)"
  using ok
proof (rule component_okE)
  fix f s L D
  assume w: "os_world w = (f, s)" and fds: "fds_ok w" and good: "good f"
    and O: "objects_ok A ly lib used f s L D F H"
    and ct: "\<And>v. v \<in> ran F \<Longrightarrow> \<exists>path. archive_content ar m path (fst v)"
  have L: "layout_ok ly" "reads_archive ly lib os" "fdlib_tracks lib good used"
    using laws by (simp_all add: component_laws_def)
  have b: "unat p + unat n \<le> unat q + unat (malloc_usable_size q s)" using q(3) w by simp
  obtain s' where s': "read_into os fd p n w = (Inr (of_nat (length bs)), w\<lparr>os_world := (f, s')\<rparr>)"
    "loads (length bs) (hmem s') p = bs"
    "\<And>x. unat x < unat A \<or> unat A + 67108864 \<le> unat x \<Longrightarrow> hmem s' x = hmem s x"
    "objects_ok A ly lib used f s' L D (F(fd \<mapsto> (content, pos + length bs))) H"
    using read_object [OF O L good w fds fd q(1,2) b] unfolding bs_def by blast
  have "\<exists>path. archive_content ar m path (fst u)" if "u \<in> ran (F(fd \<mapsto> (content, pos + length bs)))" for u
    using that ct [of u] ct [OF ranI [where m = F, OF fd]] by (auto simp: ran_def split: if_splits)
  from component_update [OF ok w good s'(3) this s'(4)] s'(1,2)
  show ?thesis by (intro exI [of _ "w\<lparr>os_world := (f, s')\<rparr>"]) simp
qed

lemma close_keeps_ok:
  assumes laws: "component_laws A ly lib ar os good used"
    and ok: "component_ok A ly lib ar good used m (w, F, H)" and fd: "F fd \<noteq> None"
  shows "fst (close_fd os fd w) = Inr 0"
    and "component_ok A ly lib ar good used m (snd (close_fd os fd w), F(fd := None), H)"
proof -
  obtain f s L D where w: "os_world w = (f, s)" and fds: "fds_ok w" and good: "good f"
    and O: "objects_ok A ly lib used f s L D F H"
    and ct: "\<And>v. v \<in> ran F \<Longrightarrow> \<exists>path. archive_content ar m path (fst v)"
    using ok by (rule component_okE) blast
  have L: "layout_ok ly" "closes_archive lib os" "fdlib_tracks lib good used"
    using laws by (simp_all add: component_laws_def)
  obtain f' s' L' where c: "close_fd os fd w = (Inr 0, w\<lparr>os_world := (f', s')\<rparr>)" "good f'"
    "\<And>x. unat x < unat A \<or> unat A + 67108864 \<le> unat x \<Longrightarrow> hmem s' x = hmem s x"
    "objects_ok A ly lib used f' s' L' (D(fd := None)) (F(fd := None)) H"
    using close_object [OF O L good w fds fd] by blast
  have "\<exists>path. archive_content ar m path (fst u)" if "u \<in> ran (F(fd := None))" for u
    using that ct [of u] by (auto simp: ran_def split: if_splits)
  from component_update [OF ok w c(2,3) this c(4)] c(1)
  show "fst (close_fd os fd w) = Inr 0"
    and "component_ok A ly lib ar good used m (snd (close_fd os fd w), F(fd := None), H)" by simp_all
qed

lemma open_fails_keeps_ok:
  assumes laws: "component_laws A ly lib ar os good used"
    and ok: "component_ok A ly lib ar good used m (w, F, H)"
    and run: "open_path (ruby_sys_openat A ly lib ar) path flags (os_world w) = Some (Inl e, v)"
  shows "component_ok A ly lib ar good used m (w\<lparr>os_world := v\<rparr>, F, H)"
proof -
  have L: "layout_ok ly" "fdlib_ok lib" "fdlib_tracks lib good used" using laws by (simp_all add: component_laws_def)
  obtain f s L D where w: "os_world w = (f, s)" and good: "good f" and O: "objects_ok A ly lib used f s L D F H"
    using ok by (rule component_okE) blast
  obtain f' s' where v: "v = (f', s')" by fastforce
  note P = open_path_fails [OF objects_okD(1) [OF O] L good run [unfolded w v]]
  show ?thesis unfolding v P(1)
    by (rule component_frame [OF ok L(1) w P(2)], rule framed_refl) (use objects_okD(1,2) in fastforce)+
qed

lemma mapping_keeps_ok:
  assumes laws: "component_laws A ly lib ar os good used"
    and ok: "component_ok A ly lib ar good used m (w, F, H)"
    and fd: "F fd \<noteq> None" and fl: "flags AND MAP_ANONYMOUS = 0"
    and run: "mmap A ly lib (fst (os_world w)) n flags fd off (comp_heap w) = Some (Inr p, s')"
  shows "component_ok A ly lib ar good used m (on_heap (\<lambda>_. s') w, F, insert p H)"
proof -
  have L: "layout_ok ly" "fdlib_tracks lib good used" using laws by (simp_all add: component_laws_def)
  obtain f s where w: "os_world w = (f, s)" and good: "good f" using ok by (rule component_okE) blast
  have idle: "table_step lib good used f f" by (simp add: table_step_def good)
  have "component_ok A ly lib ar good used m (w\<lparr>os_world := (f, s')\<rparr>, F, insert p H)"
  proof (rule component_frame [OF ok L(1) w idle])
    fix L D
    assume O: "objects_ok A ly lib used f s L D F H"
    obtain d v where "D fd = Some d" "F fd = Some v"
      using fd objects_okD(4) [OF O] by (metis domIff option.exhaust)
    from objects_okD(6) [OF O this] have "fd \<in> used f" by (simp add: object_at_def)
    then have "0 \<le> fd" using tracks_range [OF L(2) good] by fastforce
    from mapping_framed [OF O L(1) fd fl this] run w show "framed A L H s s' (insert p H)" by simp
  qed
  then show ?thesis using w by (simp add: on_heap_def)
qed

lemma memory_keeps_ok:
  assumes laws: "component_laws A ly lib ar os good used"
    and ok: "component_ok A ly lib ar good used m (w, F, H)"
    and step: "heap_step A ly lib (comp_heap w, H) (s', H')"
  shows "component_ok A ly lib ar good used m (on_heap (\<lambda>_. s') w, F, H')"
proof -
  have ly: "layout_ok ly" using laws by (simp add: component_laws_def)
  obtain f s where w: "os_world w = (f, s)" and good: "good f" using ok by (rule component_okE) blast
  have idle: "table_step lib good used f f" by (simp add: table_step_def good)
  have hs: "heap_step A ly lib (s, H) (s', H')" using step w by simp
  have "component_ok A ly lib ar good used m (w\<lparr>os_world := (f, s')\<rparr>, F, H')"
    by (rule component_frame [OF ok ly w idle heap_step_framed [OF hs]])
      (use objects_okD(1,2) in fastforce)+
  then show ?thesis using w by (simp add: on_heap_def)
qed

lemma mmap_refused:
  assumes rep: "heap_rep A s L" and ly: "layout_ok ly" and ob: "object_at A ly lib used f s L fd d v"
    and fd: "0 \<le> fd" and fl: "flags AND MAP_ANONYMOUS = 0"
    and run: "mmap A ly lib f n flags fd off s = Some (Inl e, s')"
  shows "s' = s"
proof (cases "n = 0 \<or> 2 ^ 64 < unat n + 4096")
  case True
  then show ?thesis using run mmap_errors [of A ly lib f flags fd off s n] by auto
next
  case False
  have cf: "cpio_file_for_fd lib f fd = Some d" using ob by (simp add: object_at_def)
  have fok: "file_ok A ly s L d" using ob ly by (auto simp: object_at_def file_ok_def file_at_def outside_arena_def Let_def)
  show ?thesis
  proof (cases "sint off < 0 \<or> unat (cpio_size ly (hmem s) d) < unat off")
    case True
    with False have "mmap A ly lib f n flags fd off s = Some (Inl EINVAL, s)"
      using mmap_errors [of A ly lib f flags fd off s n] fl fd cf by auto
    with run show ?thesis by simp
  next
    case bounds: False
    then have "0 \<le> sint off" "off \<le> ucast (cpio_size ly (hmem s) d)" by (simp_all add: word_le_nat_alt)
    from mmap_file_rep [OF rep _ fl fd cf fok this, of n] run False show ?thesis by auto
  qed
qed

lemma mapping_refused_keeps_ok:
  assumes laws: "component_laws A ly lib ar os good used"
    and ok: "component_ok A ly lib ar good used m (w, F, H)"
    and fd: "F fd \<noteq> None" and fl: "flags AND MAP_ANONYMOUS = 0"
    and run: "mmap A ly lib (fst (os_world w)) n flags fd off (comp_heap w) = Some (Inl e, s')"
  shows "on_heap (\<lambda>_. s') w = w"
proof -
  have L: "layout_ok ly" "fdlib_tracks lib good used" using laws by (simp_all add: component_laws_def)
  obtain f s L D where w: "os_world w = (f, s)" and good: "good f"
    and O: "objects_ok A ly lib used f s L D F H" using ok by (rule component_okE)
  obtain d v where d: "D fd = Some d" "F fd = Some v"
    using fd objects_okD(4) [OF O] by (metis domIff option.exhaust)
  note ob = objects_okD(6) [OF O d]
  then have "fd \<in> used f" by (simp add: object_at_def)
  then have "0 \<le> fd" using tracks_range [OF L(2) good] by fastforce
  from mmap_refused [OF objects_okD(1) [OF O] L(1) ob this fl] run w have "s' = s" by simp
  then show ?thesis using w by (simp add: on_heap_def)
qed

text \<open>A \<open>read\<close> of an eventfd stores at most as many bytes as the buffer has.\<close>

lemma read_event_stores:
  assumes "fake_eventfd_from_fd w fd \<noteq> None" and "fds_ok w" and "read_into os fd p n w = (r, w')"
  shows "\<exists>w1 bs. w' = store_bytes p bs w1 \<and> length bs \<le> unat n \<and> os_world w1 = os_world w \<and> fds_ok w1"
proof -
  obtain x w1 where x: "read_fd os fd (p = 0) n w = (x, w1)" by fastforce
  have w1: "os_world w1 = os_world w" "fds_ok w1"
    using x read_fd_ok [OF assms(2), of os fd "p = 0" n] assms(1)
    by (auto simp: read_fd_def Let_def put_event_def split: option.splits if_splits)
  show ?thesis
  proof (cases x)
    case (Inl e)
    then have "w' = store_bytes p [] w1"
      using assms(3) x by (simp add: read_into_def store_bytes_def on_heap_def stores_def)
    then show ?thesis using w1 by (intro exI [of _ w1] exI [of _ "[]"]) simp
  next
    case (Inr bs)
    then have "length bs \<le> unat n"
      using x assms(1) by (auto simp: read_fd_def Let_def word_less_nat_alt split: option.splits if_splits)
    moreover have "w' = store_bytes p bs w1" using assms(3) x Inr by (simp add: read_into_def)
    ultimately show ?thesis using w1 by blast
  qed
qed

lemma store_keeps_ok:
  assumes laws: "component_laws A ly lib ar os good used"
    and ok: "component_ok A ly lib ar good used m (w, F, H)" and q: "q \<in> H" "unat q \<le> unat p"
      "unat p + length bs \<le> unat q + unat (malloc_usable_size q (comp_heap w))"
  shows "component_ok A ly lib ar good used m (store_bytes p bs w, F, H)"
    and "loads (length bs) (hmem (comp_heap (store_bytes p bs w))) p = bs"
proof -
  have ly: "layout_ok ly" using laws by (simp add: component_laws_def)
  obtain f s L D where w: "os_world w = (f, s)" and good: "good f"
    and O: "objects_ok A ly lib used f s L D F H" using ok by (rule component_okE)
  note o = objects_okD(1,2) [OF O]
  obtain c where c: "L q = Some c" using q(1) o(2) by blast
  have b: "unat p + length bs \<le> unat q + c" using q(3) usable_live [OF o(1) c] w by simp
  then have lim: "unat p + length bs < 2 ^ 64" using live_bounds(4) [OF o(1) c] by linarith
  note S = stores_apply [OF less_imp_le [OF lim], of "hmem s"]
  have out: "stores (hmem s) p bs x = hmem s x" if "\<not> (unat q \<le> unat x \<and> unat x < unat q + c)" for x
    using that b q(2) unfolding S by auto
  let ?s = "s\<lparr>hmem := stores (hmem s) p bs\<rparr>"
  have idle: "table_step lib good used f f" by (simp add: table_step_def good)
  have "framed A L H s ?s H" by (rule framed_write [OF write_rep(1,2) [OF o(1) c out] q(1)]) (use o(2) in auto)
  from component_frame_at [OF ok ly w idle O this] w
  show "component_ok A ly lib ar good used m (store_bytes p bs w, F, H)" by (simp add: store_bytes_def on_heap_def)
  show "loads (length bs) (hmem (comp_heap (store_bytes p bs w))) p = bs"
  proof (rule nth_equalityI)
    fix i
    assume i: "i < length (loads (length bs) (hmem (comp_heap (store_bytes p bs w))) p)"
    then have "unat (p + of_nat i) = unat p + i" by (intro unat_offset [where n = "length bs"]) (use lim in simp_all)
    then show "loads (length bs) (hmem (comp_heap (store_bytes p bs w))) p ! i = bs ! i"
      using i w by (simp add: loads_def store_bytes_def S)
  qed simp
qed

lemma event_keeps_ok:
  assumes laws: "component_laws A ly lib ar os good used"
    and ok: "component_ok A ly lib ar good used m (w, F, H)"
    and fd: "fake_eventfd_from_fd w fd \<noteq> None" and q: "q \<in> H" "unat q \<le> unat p"
      "unat p + unat n \<le> unat q + unat (malloc_usable_size q (comp_heap w))"
    and run: "read_into os fd p n w = (r, w')"
  shows "component_ok A ly lib ar good used m (w', F, H)"
proof -
  have "fds_ok w" using ok by (rule component_okE)
  from read_event_stores [OF fd this run] obtain w1 bs where
    w1: "w' = store_bytes p bs w1" "length bs \<le> unat n" "os_world w1 = os_world w" "fds_ok w1" by blast
  have ok1: "component_ok A ly lib ar good used m (w1, F, H)" using ok w1 by (simp add: component_ok_def)
  show ?thesis unfolding w1(1) by (rule store_keeps_ok(1) [OF laws ok1 q(1,2)]) (use q(3) w1(2,3) in simp)
qed

inductive_cases component_stepE
  [consumes 1, case_names memory open_ok open_fails reading closing mapping
    mapping_refused reading_event faking]:
  "component_step A ly lib ar os (w, F, H) (w', F', H')"

lemma component_step_ok:
  assumes laws: "component_laws A ly lib ar os good used"
    and ok: "component_ok A ly lib ar good used m (w, F, H)"
    and step: "component_step A ly lib ar os (w, F, H) (w', F', H')"
  shows "component_ok A ly lib ar good used m (w', F', H')"
  using step
proof (cases rule: component_stepE)
  case (memory s')
  then show ?thesis using memory_keeps_ok [OF laws ok] by simp
next
  case (open_ok path flags fd v content)
  then show ?thesis using open_keeps_ok [OF laws ok] by (metis surj_pair)
next
  case (open_fails path flags e v)
  then show ?thesis using open_fails_keeps_ok [OF laws ok] by simp
next
  case (reading fd content pos q p n k)
  from read_keeps_ok [OF laws ok reading(1-4)] unat_take [of n "drop pos content"] reading(5-7)
  show ?thesis by auto
next
  case (closing fd r)
  then have fd: "F fd \<noteq> None" by blast
  show ?thesis using close_keeps_ok(2) [OF laws ok fd] closing by simp
next
  case (mapping fd flags n off p s')
  then show ?thesis using mapping_keeps_ok [OF laws ok, of fd flags n off p s'] by simp
next
  case (mapping_refused fd flags n off e s')
  then show ?thesis using mapping_refused_keeps_ok [OF laws ok, of fd flags n off e s'] ok by simp
next
  case (reading_event fd q p n r)
  show ?thesis using event_keeps_ok [OF laws ok, of fd q p n r w'] reading_event by simp
next
  case faking
  have "fds_ok w" using ok by (rule component_okE)
  with faking have "os_world w' = os_world w" "fds_ok w'" using fake_call_world fake_call_ok by blast+
  then show ?thesis using ok faking by (auto simp: component_ok_def)
qed

lemma component_initial:
  assumes "arena_at A" and "good f0"
  shows "component_ok A ly lib ar good used m (initial_fds (f0, initial_heap m), Map.empty, {})"
  by (rule component_okI [where L = Map.empty and D = Map.empty])
    (use assms initial_fds_ok initial_rep [OF assms(1)] in
      \<open>auto simp: initial_fds_def initial_heap_def objects_ok_def\<close>)

section \<open>What the calls on an open descriptor give\<close>

lemma fstat_object:
  assumes ob: "object_at A ly lib used f s L fd d (content, pos)" and fd: "2 < fd"
  shows "fstat ly lib fd False (f, s) = Inr (fill_regular (of_nat (length content)))"
proof (rule opened_fstat [OF _ fd])
  have sz: "unat (cpio_size ly (hmem s) d) = length content" using ob by (simp add: object_at_def file_at_def)
  then have "length content < 2 ^ LENGTH(32)" using unsigned_less by metis
  then have u: "unat (of_nat (length content) :: u64) = length content" by (simp add: unat_of_nat)
  then show "unat (of_nat (length content) :: u64) < 2 ^ 32" using \<open>length content < 2 ^ LENGTH(32)\<close> by simp
  show "cpio_file_for_fd lib f fd = Some d" using ob by (simp add: object_at_def)
  show "cpio_size ly (hmem s) d = ucast (of_nat (length content) :: u64)"
    using sz u \<open>length content < 2 ^ LENGTH(32)\<close>
    by (simp add: word_unat_eq_iff unsigned_ucast_eq take_bit_eq_mod)
qed

lemma mmap_object:
  assumes rep: "heap_rep A s L" and H: "dom L = H \<union> R" and ly: "layout_ok ly" and ob: "object_at A ly lib used f s L fd d (content, pos)"
    and fd: "0 \<le> fd" and fl: "flags AND MAP_ANONYMOUS = 0" and n: "n \<noteq> 0"
    and off: "0 \<le> sint off" "unat off \<le> length content"
  shows "\<exists>r s'. mmap A ly lib f n flags fd off s = Some (r, s') \<and>
    (case r of Inl e \<Rightarrow> e = ENOMEM \<and> s' = s
     | Inr p \<Rightarrow> p \<notin> H \<and> (\<forall>i<unat n. hmem s' (p + of_nat i) =
         (if unat off + i < length content then content ! (unat off + i) else 0)))"
proof (cases "page_round n < n")
  case True
  show ?thesis unfolding mmap_round_overflow [OF n True] by simp
next
  case False
  have fa: "cpio_file_for_fd lib f fd = Some d" "file_at A ly (hmem s) d content pos"
    using ob by (simp_all add: object_at_def)
  have sz: "unat (cpio_size ly (hmem s) d) = length content"
    and c: "loads (length content) (hmem s) (cpio_start ly (hmem s) d) = content"
    using fa(2) by (simp_all add: file_at_def)
  have fok: "file_ok A ly s L d"
    using ob ly by (auto simp: object_at_def file_ok_def file_at_def outside_arena_def Let_def)
  have o: "off \<le> ucast (cpio_size ly (hmem s) d)" using off(2) sz by (simp add: word_le_nat_alt)
  have b: "hmem s (cpio_start ly (hmem s) d + off + of_nat i) = content ! (unat off + i)"
    if "unat off + i < length content" for i
    using that arg_cong [OF c, of "\<lambda>bs. bs ! (unat off + i)"] by (simp add: loads_def add.assoc)
  have le: "i < unat (page_round n)" if "i < unat n" for i using False that by (simp add: word_less_nat_alt)
  note M = mmap_file_rep [OF rep n fl fd fa(1) fok off(1) o]
  obtain r s' where run: "mmap A ly lib f n flags fd off s = Some (r, s')" using M by blast
  show ?thesis
  proof (cases r)
    case (Inl e)
    then show ?thesis using M run by auto
  next
    case (Inr p)
    then have "L p = None" using M run by auto
    then have "p \<notin> H" using H by blast
    moreover have "hmem s' (p + of_nat i) = (if unat off + i < length content
        then hmem s (cpio_start ly (hmem s) d + off + of_nat i) else 0)" if "i < unat n" for i
      using M run le [OF that] that Inr by (simp add: sz)
    ultimately show ?thesis using b run Inr by simp
  qed
qed

section \<open>Typed states from outside\<close>

text \<open>The objects of the open descriptors and the blocks held, all apart.\<close>

definition heap_typed ::
    "addr \<Rightarrow> cpio_layout \<Rightarrow> 'f fdlib \<Rightarrow> mem \<Rightarrow> ('f \<times> heap) fake_fds \<Rightarrow> files \<Rightarrow> addr set \<Rightarrow> bool" where
  "heap_typed A ly lib m w F H \<longleftrightarrow>
    fds_ok w \<and>
    (\<forall>x. unat x < unat A \<or> unat A + 67108864 \<le> unat x \<longrightarrow> hmem (comp_heap w) x = m x) \<and>
    (\<forall>n. measurable n \<longrightarrow> (\<exists>r s'. malloc A n (comp_heap w) = Some (r, s'))) \<and>
    (\<exists>D. dom D = dom F \<and> inj_on D (dom D) \<and> H \<inter> ran D = {} \<and>
       (\<forall>fd d content pos. D fd = Some d \<and> F fd = Some (content, pos) \<longrightarrow>
          cpio_file_for_fd lib (fst (os_world w)) fd = Some d \<and>
          file_at A ly (hmem (comp_heap w)) d content pos) \<and>
       (\<forall>p\<in>H \<union> ran D. \<forall>q\<in>H \<union> ran D. p \<noteq> q \<longrightarrow>
          unat p + unat (malloc_usable_size p (comp_heap w)) \<le> unat q \<or>
          unat q + unat (malloc_usable_size q (comp_heap w)) \<le> unat p))"

lemma component_ok_typed:
  assumes "component_ok A ly lib ar good used m (w, F, H)"
  shows "heap_typed A ly lib m w F H"
proof -
  obtain f s L D where w: "os_world w = (f, s)" and fds: "fds_ok w"
    and out: "\<And>x. unat x < unat A \<or> unat A + 67108864 \<le> unat x \<Longrightarrow> hmem s x = m x"
    and O: "objects_ok A ly lib used f s L D F H"
    using assms by (rule component_okE) blast
  note o = objects_okD [OF O]
  have u: "L p = Some (unat (malloc_usable_size p s))" if "p \<in> H \<union> ran D" for p
    using that o(2) usable_live [OF o(1), of p] by auto
  have dis: "unat p + unat (malloc_usable_size p s) \<le> unat q \<or> unat q + unat (malloc_usable_size q s) \<le> unat p"
    if "p \<in> H \<union> ran D" "q \<in> H \<union> ran D" "p \<noteq> q" for p q
    using live_disjoint [OF o(1) u [OF that(1)] u [OF that(2)] that(3)] by linarith
  have ob: "cpio_file_for_fd lib f fd = Some d \<and> file_at A ly (hmem s) d content pos"
    if "D fd = Some d" "F fd = Some (content, pos)" for fd d content pos
    using o(6) [OF that] by (simp add: object_at_def)
  have "\<exists>r s'. malloc A n s = Some (r, s')" if "measurable n" for n
    by (rule mf.alloc_returns [OF o(1) that])
  moreover have "\<exists>D. dom D = dom F \<and> inj_on D (dom D) \<and> H \<inter> ran D = {} \<and>
       (\<forall>fd d content pos. D fd = Some d \<and> F fd = Some (content, pos) \<longrightarrow>
          cpio_file_for_fd lib f fd = Some d \<and> file_at A ly (hmem s) d content pos) \<and>
       (\<forall>p\<in>H \<union> ran D. \<forall>q\<in>H \<union> ran D. p \<noteq> q \<longrightarrow>
          unat p + unat (malloc_usable_size p s) \<le> unat q \<or> unat q + unat (malloc_usable_size q s) \<le> unat p)"
    by (rule exI [of _ D], intro conjI o(3,4,5)) (use dis ob in blast)+
  ultimately show ?thesis unfolding heap_typed_def using fds out w by simp
qed

text \<open>
  An instance: the library of \<open>Mmap\<close>, the archive with \<open>shell.rb\<close>, and a program that asks
  for a hundred bytes and opens the file.
\<close>

definition demo_good :: "int list \<times> (int \<Rightarrow> muslcsys_fd) \<Rightarrow> bool" where
  "demo_good f \<longleftrightarrow> distinct (fst f) \<and> set (fst f) \<subseteq> {3..<16} \<and> filetype (snd f 0) \<noteq> FILE_TYPE_CPIO"

definition demo_used :: "int list \<times> (int \<Rightarrow> muslcsys_fd) \<Rightarrow> int set" where
  "demo_used f = {3..<16} - set (fst f)"

lemma demo_fds_good: "demo_good demo_fds"
  by (simp add: demo_good_def demo_fds_def)

lemma demo_tracks: "fdlib_tracks demo_lib demo_good demo_used"
  unfolding fdlib_tracks_def
proof (intro conjI allI impI)
  fix f :: "int list \<times> (int \<Rightarrow> muslcsys_fd)" and fd f'
  assume a: "demo_good f \<and> allocate_fd demo_lib f = (fd, f')"
  obtain fs t where f: "f = (fs, t)" by fastforce
  show "demo_good f'" "\<forall>g\<in>demo_used f. get_fd_struct demo_lib f' g = get_fd_struct demo_lib f g"
    "if fd = - EMFILE_number then demo_used f' = demo_used f
     else fd \<notin> demo_used f \<and> demo_used f' = insert fd (demo_used f)"
    using a unfolding f
    by (cases fs; auto simp: demo_lib_def demo_good_def demo_used_def EMFILE_number_def)+
qed (auto simp: demo_lib_def demo_good_def demo_used_def)

lemma demo_laws: "component_laws demo_arena demo_layout demo_lib demo_shell demo_os demo_good demo_used"
proof -
  have "archive_outside demo_arena demo_shell"
    by (auto simp: archive_outside_def find_file_def demo_shell_def outside_arena_def demo_arena_def
        split: if_splits option.splits)
  then show ?thesis unfolding component_laws_def
    by (intro conjI demo_layout_ok demo_lib_ok demo_tracks demo_handlers)
qed

lemma demo_run:
  "\<exists>w p. (component_step demo_arena demo_layout demo_lib demo_shell demo_os)\<^sup>*\<^sup>*
      (initial_fds (demo_fds, initial_heap demo_text), Map.empty, {})
      (w, [3 \<mapsto> (loads 5 demo_text 0x1000, 0)], {p}) \<and> 100 \<le> unat (malloc_usable_size p (comp_heap w))"
proof -
  let ?step = "component_step demo_arena demo_layout demo_lib demo_shell demo_os"
  let ?s = "initial_heap demo_text" and ?w = "initial_fds (demo_fds, initial_heap demo_text)"
  note rep = initial_rep [OF demo_arena_at, of demo_text]
  obtain p s1 where a: "malloc demo_arena 100 ?s = Some (Inr p, s1)"
    and off: "unat (ruby_alloc_offset s1) \<le> unat (ruby_alloc_offset ?s) + unat (100 :: u64) + 64"
    using malloc_room [OF rep, of 100] by (auto simp: initial_heap_def)
  have m: "measurable 100" by (simp add: measurable_def)
  obtain L k where L: "heap_rep demo_arena s1 L" "keeps demo_arena Map.empty ?s s1" and k: "L p = Some k" "100 \<le> k"
    using mf.alloc_gives [OF rep m a] by fastforce
  have st1: "?step (?w, Map.empty, {}) (on_heap (\<lambda>_. s1) ?w, Map.empty, {p})"
    by (rule on_memory, rule step_new, rule by_malloc [OF m]) (simp add: initial_fds_def a)
  have ro: "O_RDONLY AND O_ACCMODE = O_RDONLY" by (simp add: O_RDONLY_def)
  obtain fd f' s' where op: "open_path (ruby_sys_openat demo_arena demo_layout demo_lib demo_shell) (Some ''/shell.rb'')
      O_RDONLY (demo_fds, s1) = Some (Inr fd, (f', s'))"
    using open_path_room [OF L(1) demo_layout_ok demo_lib_ok ro demo_shell_path, of demo_fds] off
    by (auto simp: initial_heap_def demo_lib_def demo_fds_def EMFILE_number_def)
  have "fd = 3" and od: "opened demo_arena demo_layout demo_lib L s1 0x1000 5 fd f' s'"
    using open_path_rep [OF L(1) demo_layout_ok demo_lib_ok ro demo_shell_path, of demo_fds] op
    by (auto simp: demo_lib_def demo_fds_def)
  obtain d j where dj: "heap_rep demo_arena s' (L(d \<mapsto> j))" "L d = None" using od by (auto simp: opened_def)
  then have "(L(d \<mapsto> j)) p = Some k" using k(1) by auto
  from usable_live [OF dj(1) this] k(2) have big: "100 \<le> unat (malloc_usable_size p s')" by simp
  have "loads 5 (hmem s1) 0x1000 = loads 5 demo_text 0x1000"
    using loads_outside [OF demo_outside(2) demo_arena_at keeps_outside [OF L(2)]] by (simp add: initial_heap_def)
  then have c: "archive_content demo_shell (hmem s1) ''/shell.rb'' (loads 5 demo_text 0x1000)"
    using demo_shell_path by (simp add: archive_content_def)
  have "?step (on_heap (\<lambda>_. s1) ?w, Map.empty, {p})
      ((on_heap (\<lambda>_. s1) ?w)\<lparr>os_world := (f', s')\<rparr>, Map.empty(fd \<mapsto> (loads 5 demo_text 0x1000, 0)), {p})"
    by (rule open_ok [where path = "''/shell.rb''" and flags = O_RDONLY]) (use op c in \<open>simp_all add: initial_fds_def\<close>)
  with st1 have "?step\<^sup>*\<^sup>* (?w, Map.empty, {})
      ((on_heap (\<lambda>_. s1) ?w)\<lparr>os_world := (f', s')\<rparr>, [3 \<mapsto> (loads 5 demo_text 0x1000, 0)], {p})"
    unfolding \<open>fd = 3\<close> by (meson rtranclp.rtrancl_refl rtranclp.rtrancl_into_rtrancl)
  with big show ?thesis
    by (intro exI [of _ "(on_heap (\<lambda>_. s1) ?w)\<lparr>os_world := (f', s')\<rparr>"] exI [of _ p]) simp
qed

text \<open>The calls on an open descriptor, together, in any well-typed state.\<close>

lemma open_file_cursor:
  fixes w :: "('f \<times> heap) fake_fds"
  assumes laws: "component_laws A ly lib ar os good used"
    and ok: "component_ok A ly lib ar good used m (w, F, H)"
    and F: "F fd = Some (content, pos)"
  shows "(\<exists>path. archive_content ar m path content) \<and>
    (\<forall>q p (n :: u64) bs. q \<in> H \<and> unat q \<le> unat p \<and>
       unat p + unat n \<le> unat q + unat (malloc_usable_size q (comp_heap w)) \<and>
       bs = take (unat n) (drop pos content) \<longrightarrow>
       (\<exists>w'. read_into os fd p n w = (Inr (of_nat (length bs)), w') \<and>
          loads (length bs) (hmem (comp_heap w')) p = bs \<and>
          component_step A ly lib ar os (w, F, H) (w', F(fd \<mapsto> (content, pos + length bs)), H))) \<and>
    fstat ly lib fd False (os_world w) = Inr (fill_regular (of_nat (length content))) \<and>
    (\<forall>flags n off. flags AND MAP_ANONYMOUS = 0 \<and> n \<noteq> 0 \<and> 0 \<le> sint off \<and> unat off \<le> length content \<longrightarrow>
       (\<exists>r s'. mmap A ly lib (fst (os_world w)) n flags fd off (comp_heap w) = Some (r, s') \<and>
          (case r of Inl e \<Rightarrow> e = ENOMEM \<and> s' = comp_heap w
           | Inr p \<Rightarrow> p \<notin> H \<and> (\<forall>i<unat n. hmem s' (p + of_nat i) =
               (if unat off + i < length content then content ! (unat off + i) else 0))))) \<and>
    fst (close_fd os fd w) = Inr 0"
proof -
  have T: "fdlib_tracks lib good used" and ly: "layout_ok ly" using laws by (simp_all add: component_laws_def)
  obtain f s L D where w: "os_world w = (f, s)" and good: "good f"
    and ct: "\<And>v. v \<in> ran F \<Longrightarrow> \<exists>path. archive_content ar m path (fst v)"
    and O: "objects_ok A ly lib used f s L D F H"
    using ok by (rule component_okE) blast
  note o = objects_okD [OF O]
  obtain d where d: "D fd = Some d" using F o(4) by (metis domIff option.exhaust option.distinct(1))
  have ob: "object_at A ly lib used f s L fd d (content, pos)" by (rule o(6) [OF d F])
  then have fd: "2 < fd" using tracks_range [OF T good] by (simp add: object_at_def)
  have cont: "\<exists>path. archive_content ar m path content" using ct [OF ranI [where m = F, OF F]] by simp
  have rd: "\<exists>w'. read_into os fd p n w = (Inr (of_nat (length bs)), w') \<and>
      loads (length bs) (hmem (comp_heap w')) p = bs \<and>
      component_step A ly lib ar os (w, F, H) (w', F(fd \<mapsto> (content, pos + length bs)), H)"
    if q: "q \<in> H" "unat q \<le> unat p" "unat p + unat n \<le> unat q + unat (malloc_usable_size q (comp_heap w))"
      and bs: "bs = take (unat n) (drop pos content)" for q p n bs
    using read_keeps_ok [OF laws ok F q] reading [where F = F and A = A and ly = ly and lib = lib and ar = ar, OF F q, of os "of_nat (length bs)"]
      unat_take [of n "drop pos content"] unfolding bs by metis
  have "0 \<le> fd" using fd by simp
  note mp = mmap_object [OF o(1,2) ly ob this]
  have eq: "f = fst (os_world w)" "s = comp_heap w" using w by simp_all
  note mp = mp [unfolded eq]
  have st: "fstat ly lib fd False (os_world w) = Inr (fill_regular (of_nat (length content)))"
    using fstat_object [OF ob fd] w by simp
  have cl: "fst (close_fd os fd w) = Inr 0" using close_keeps_ok(1) [OF laws ok] F by simp
  show ?thesis
    by (intro conjI cont st cl; intro allI impI; elim conjE) (rule rd mp; assumption)+
qed

end
