(* ===== verification/Serial_Ring.thy ===== *)
theory Serial_Ring
  imports Fake_Fd
begin

text \<open>
  Standard input from \<^verbatim>\<open>stub/ruby_syscall_poll.c\<close>: the ring buffer shared with the serial
  server, its readers, and \<open>readv\<close>.

  The server runs concurrently and is not part of the repository. What it does is the
  parameter \<open>put\<close>: \<open>put bs r\<close> is the ring after the server has stored the characters
  \<open>bs\<close>. An environment \<open>env\<close> lists what it stores before each point at which this
  component looks at the ring again, after a notification or at the next emptiness check;
  the list ends where the observation ends, so \<open>None\<close> is a reader still waiting there.
\<close>

section \<open>The ring\<close>

definition RING_SIZE :: nat where "RING_SIZE = 4088"

record serial_ring =
  head :: u32
  tail :: u32
  ring_buf :: "byte list"

definition serial_has_input :: "serial_ring \<Rightarrow> bool" where
  "serial_has_input r \<longleftrightarrow> head r \<noteq> tail r"

definition serial_take :: "serial_ring \<Rightarrow> byte \<times> serial_ring" where
  "serial_take r = (ring_buf r ! unat (head r), r\<lparr>head := (head r + 1) mod of_nat RING_SIZE\<rparr>)"

fun serial_getchar ::
    "(byte list \<Rightarrow> serial_ring \<Rightarrow> serial_ring) \<Rightarrow> serial_ring \<Rightarrow> byte list list \<Rightarrow>
       (byte \<times> serial_ring \<times> byte list list) option" where
  "serial_getchar put r [] =
     (if head r = tail r then None
      else Some (ring_buf r ! unat (head r), r\<lparr>head := (head r + 1) mod of_nat RING_SIZE\<rparr>, []))"
| "serial_getchar put r (bs # env) =
     (if head r = tail r then serial_getchar put (put bs r) env
      else Some (ring_buf r ! unat (head r), r\<lparr>head := (head r + 1) mod of_nat RING_SIZE\<rparr>, bs # env))"

text \<open>
  The second loop of \<open>serial_readv\<close>, for a queue with an emptiness test \<open>has\<close> and a
  \<open>take\<close>: at most \<open>n\<close> more bytes, stopping at the first check that finds nothing.
\<close>

fun drain ::
    "('q \<Rightarrow> bool) \<Rightarrow> ('q \<Rightarrow> byte \<times> 'q) \<Rightarrow> (byte list \<Rightarrow> 'q \<Rightarrow> 'q) \<Rightarrow> nat \<Rightarrow> 'q \<Rightarrow> byte list list \<Rightarrow>
       byte list \<times> 'q \<times> byte list list" where
  "drain has tk put 0 q env = ([], q, env)"
| "drain has tk put (Suc n) q env =
     (let (q1, env1) = (case env of [] \<Rightarrow> (q, []) | bs # e \<Rightarrow> (put bs q, e)) in
      if has q1
      then let (c, q2) = tk q1; (cs, q3, env3) = drain has tk put n q2 env1 in (c # cs, q3, env3)
      else ([], q1, env1))"

definition serial_readv ::
    "(byte list \<Rightarrow> serial_ring \<Rightarrow> serial_ring) \<Rightarrow> iov list \<Rightarrow> serial_ring \<Rightarrow> byte list list \<Rightarrow>
       (byte list result \<times> serial_ring \<times> byte list list) option" where
  "serial_readv put iov r env =
     (case find (\<lambda>(base_null, len). len \<noteq> 0) iov of
        None \<Rightarrow> Some (Inr [], r, env)
      | Some (base_null, capacity) \<Rightarrow>
          if base_null then Some (Inl EFAULT, r, env)
          else (case serial_getchar put r env of
                  None \<Rightarrow> None
                | Some (c, r1, env1) \<Rightarrow>
                    let (cs, r2, env2) =
                      drain serial_has_input serial_take put (unat capacity - 1) r1 env1
                    in Some (Inr (c # cs), r2, env2)))"

section \<open>readv\<close>

text \<open>
  The loop over the buffers of a fake eventfd. The bytes read so far are \<open>got\<close>; a failed
  \<open>read\<close> after some bytes returns those.
\<close>

fun readv_event :: "'w os_calls \<Rightarrow> int \<Rightarrow> iov list \<Rightarrow> byte list \<Rightarrow> 'w fake_fds \<Rightarrow>
    byte list result \<times> 'w fake_fds" where
  "readv_event os fd [] got st = (Inr got, st)"
| "readv_event os fd ((base_null, len) # iov) got st =
     (if len = 0 then readv_event os fd iov got st
      else case read_fd os fd base_null len st of
        (Inl e, st1) \<Rightarrow> (if length got > 0 then Inr got else Inl e, st1)
      | (Inr bs, st1) \<Rightarrow>
          if of_nat (length bs) \<noteq> len then (Inr (got @ bs), st1)
          else readv_event os fd iov (got @ bs) st1)"

definition readv ::
    "'w os_calls \<Rightarrow> (byte list \<Rightarrow> serial_ring \<Rightarrow> serial_ring) \<Rightarrow>
       int \<Rightarrow> iov list option \<Rightarrow> int \<Rightarrow> 'w fake_fds \<Rightarrow> serial_ring \<Rightarrow> byte list list \<Rightarrow>
       (byte list result \<times> 'w fake_fds \<times> serial_ring \<times> byte list list) option" where
  "readv os put fd iov iovcnt st r env =
     (case iov of
        None \<Rightarrow> Some (Inl EINVAL, st, r, env)
      | Some vs \<Rightarrow>
          if iovcnt < 0 then Some (Inl EINVAL, st, r, env)
          else if fd = 0
          then map_option (\<lambda>(res, r1, env1). (res, st, r1, env1)) (serial_readv put (take (nat iovcnt) vs) r env)
          else if fake_eventfd_from_fd st fd \<noteq> None
          then (let (res, st1) = readv_event os fd (take (nat iovcnt) vs) [] st in Some (res, st1, r, env))
          else (let (res, st1) = syscall (os_readv os fd (take (nat iovcnt) vs)) st in Some (res, st1, r, env)))"

section \<open>A queue of bytes\<close>

text \<open>
  What the readers rely on. \<open>pending\<close> is the abstraction of the queue: the bytes stored
  and not yet taken, in order.
\<close>

locale byte_queue =
  fixes ok :: "'q \<Rightarrow> bool" and pending :: "'q \<Rightarrow> byte list"
    and has :: "'q \<Rightarrow> bool" and tk :: "'q \<Rightarrow> byte \<times> 'q"
  assumes has_iff: "ok q \<Longrightarrow> has q \<longleftrightarrow> pending q \<noteq> []"
    and take_first: "ok q \<Longrightarrow> pending q \<noteq> [] \<Longrightarrow>
      pending q = fst (tk q) # pending (snd (tk q)) \<and> ok (snd (tk q))"
begin

text \<open>
  A drain loses, repeats and reorders nothing, whatever arrives meanwhile, as long as the
  producer appends and everything fits.
\<close>

lemma drain_stream:
  assumes put: "\<And>q bs. ok q \<Longrightarrow> length (pending q) + length bs < cap \<Longrightarrow>
      ok (put bs q) \<and> pending (put bs q) = pending q @ bs"
    and "ok q" and "length (pending q) + length (concat env) < cap"
    and "drain has tk put n q env = (cs, q', env')"
  shows "\<exists>seen. env = seen @ env' \<and> ok q' \<and> pending q @ concat seen = cs @ pending q' \<and> length cs \<le> n"
  using assms(2-4)
proof (induction n arbitrary: q env cs q' env')
  case 0
  then show ?case by (intro exI [of _ "[]"]) simp
next
  case (Suc n)
  define q1 where "q1 = (case env of [] \<Rightarrow> q | bs # _ \<Rightarrow> put bs q)"
  define env1 where "env1 = (case env of [] \<Rightarrow> [] | _ # e \<Rightarrow> e)"
  define arr where "arr = (case env of [] \<Rightarrow> [] | bs # _ \<Rightarrow> [bs])"
  have step: "(case env of [] \<Rightarrow> (q, []) | bs # e \<Rightarrow> (put bs q, e)) = (q1, env1)" "env = arr @ env1"
    by (simp_all add: q1_def env1_def arr_def split: list.splits)
  have q1: "ok q1" "pending q1 = pending q @ concat arr"
    using put [of q] Suc.prems(1,2) by (auto simp: q1_def arr_def split: list.splits)
  note D = Suc.prems(3) [unfolded drain.simps step(1) Let_def prod.case]
  show ?case
  proof (cases "has q1")
    case False
    then have "pending q1 = []" using has_iff [OF q1(1)] by simp
    moreover have "cs = []" "q' = q1" "env' = env1" using D False by simp_all
    ultimately show ?thesis using step(2) q1 by (intro exI [of _ arr]) auto
  next
    case True
    obtain c q2 where c: "tk q1 = (c, q2)" by fastforce
    obtain ds where d: "drain has tk put n q2 env1 = (ds, q', env')" "cs = c # ds"
      using D True c by (auto split: prod.splits)
    have t: "pending q1 = c # pending q2" "ok q2"
      using take_first [OF q1(1)] has_iff [OF q1(1)] True c by auto
    have "length (concat env) = length (concat arr) + length (concat env1)" by (subst step(2)) simp
    moreover have "length (pending q1) = length (pending q) + length (concat arr)"
      unfolding q1(2) by simp
    moreover have "length (pending q1) = Suc (length (pending q2))" unfolding t(1) by simp
    ultimately have "length (pending q2) + length (concat env1) < cap" using Suc.prems(2) by linarith
    from Suc.IH [OF t(2) this d(1)] obtain seen where IH:
      "env1 = seen @ env'" "ok q'" "pending q2 @ concat seen = ds @ pending q'" "length ds \<le> n" by blast
    have "pending q @ concat (arr @ seen) = pending q1 @ concat seen" unfolding q1(2) by simp
    also have "\<dots> = c # (pending q2 @ concat seen)" unfolding t(1) by simp
    also have "\<dots> = cs @ pending q'" unfolding IH(3) d(2) by simp
    finally show ?thesis using step(2) IH(1,2,4) d(2) by (intro exI [of _ "arr @ seen"]) simp
  qed
qed

text \<open>When nothing arrives, a drain takes the oldest bytes, as many as asked for.\<close>

lemma drain_quiet:
  assumes "ok q"
  shows "\<exists>q'. drain has tk put n q [] = (take n (pending q), q', []) \<and> ok q' \<and>
    pending q' = drop n (pending q)"
  using assms
proof (induction n arbitrary: q)
  case 0
  then show ?case by simp
next
  case (Suc n)
  show ?case
  proof (cases "has q")
    case False
    then show ?thesis using Suc.prems has_iff [OF Suc.prems] by simp
  next
    case True
    obtain c q2 where c: "tk q = (c, q2)" by fastforce
    have t: "pending q = c # pending q2" "ok q2"
      using take_first [OF Suc.prems] has_iff [OF Suc.prems] True c by auto
    from Suc.IH [OF t(2)] show ?thesis using True c t(1) by auto
  qed
qed

end

section \<open>The ring is such a queue\<close>

definition ring_ok :: "serial_ring \<Rightarrow> bool" where
  "ring_ok r \<longleftrightarrow> length (ring_buf r) = RING_SIZE \<and> unat (head r) < RING_SIZE \<and> unat (tail r) < RING_SIZE"

definition ring_pending :: "serial_ring \<Rightarrow> byte list" where
  "ring_pending r = map (\<lambda>i. ring_buf r ! ((unat (head r) + i) mod RING_SIZE))
     [0..<(unat (tail r) + RING_SIZE - unat (head r)) mod RING_SIZE]"

lemma ring_next:
  assumes "ring_ok r"
  shows "unat ((head r + 1) mod of_nat RING_SIZE) = (unat (head r) + 1) mod RING_SIZE"
proof -
  have "unat (head r + 1) = unat (head r) + 1"
    using assms by (simp add: ring_ok_def RING_SIZE_def unat_plus_if')
  then show ?thesis by (simp add: unat_mod RING_SIZE_def)
qed

lemma ring_count:
  assumes "h < (n :: nat)" and "t < n"
  shows "(t + n - h) mod n = (if h \<le> t then t - h else t + n - h)"
  using assms by (auto simp: le_mod_geq not_le)

lemma ring_take:
  assumes ok: "ring_ok r" and ne: "head r \<noteq> tail r"
  shows "ring_pending r = fst (serial_take r) # ring_pending (snd (serial_take r))"
    and "ring_ok (snd (serial_take r))"
proof -
  let ?h = "unat (head r)" and ?t = "unat (tail r)" and ?r = "snd (serial_take r)"
  let ?h' = "(?h + 1) mod RING_SIZE"
  have b: "?h < RING_SIZE" "?t < RING_SIZE" "?h \<noteq> ?t"
    using ok ne by (auto simp: ring_ok_def word_unat_eq_iff)
  have r: "unat (head ?r) = ?h'" "tail ?r = tail r" "ring_buf ?r = ring_buf r"
    using ring_next [OF ok] by (simp_all add: serial_take_def)
  have h': "?h' < RING_SIZE" using b by simp
  then show "ring_ok ?r" using ok r by (simp add: ring_ok_def)
  have "?h' = (if ?h + 1 = RING_SIZE then 0 else ?h + 1)" using b(1) by auto
  then have n: "(?t + RING_SIZE - ?h) mod RING_SIZE = Suc ((?t + RING_SIZE - ?h') mod RING_SIZE)"
    using b h' unfolding ring_count [OF b(1,2)] ring_count [OF h' b(2)] by (auto split: if_splits)
  have "(?h' + i) mod RING_SIZE = (?h + Suc i) mod RING_SIZE" for i by (simp add: mod_add_left_eq)
  then show "ring_pending r = fst (serial_take r) # ring_pending ?r"
    using b(1) unfolding ring_pending_def r n upt_conv_Cons [OF zero_less_Suc] map_Suc_upt [symmetric]
    by (simp add: serial_take_def comp_def)
qed

lemma ring_empty:
  assumes "ring_ok r"
  shows "head r = tail r \<longleftrightarrow> ring_pending r = []"
proof
  assume "head r = tail r"
  then show "ring_pending r = []" by (simp add: ring_pending_def)
next
  assume "ring_pending r = []"
  then show "head r = tail r" using ring_take(1) [OF assms] by fastforce
qed

interpretation ring: byte_queue ring_ok ring_pending serial_has_input serial_take
proof unfold_locales
  fix q
  assume ok: "ring_ok q"
  show "serial_has_input q \<longleftrightarrow> ring_pending q \<noteq> []"
    using ring_empty [OF ok] by (simp add: serial_has_input_def)
  show "ring_pending q = fst (serial_take q) # ring_pending (snd (serial_take q)) \<and> ring_ok (snd (serial_take q))"
    if "ring_pending q \<noteq> []"
    using ring_take [OF ok] ring_empty [OF ok] that by simp
qed

section \<open>The server\<close>

text \<open>
  What is relied on of the server: as long as there is room, it appends to what is
  pending and leaves the ring in order. One cell always stays free.
\<close>

definition server_ok :: "(byte list \<Rightarrow> serial_ring \<Rightarrow> serial_ring) \<Rightarrow> bool" where
  "server_ok put \<longleftrightarrow> (\<forall>r bs. ring_ok r \<and> length (ring_pending r) + length bs < RING_SIZE \<longrightarrow>
     ring_ok (put bs r) \<and> ring_pending (put bs r) = ring_pending r @ bs)"

lemma getchar_take:
  assumes "head r \<noteq> tail r"
  shows "serial_getchar put r env = Some (fst (serial_take r), snd (serial_take r), env)"
  using assms by (cases env) (simp_all add: serial_take_def)

lemma getchar_stream:
  assumes put: "server_ok put" and "ring_ok r"
    and "length (ring_pending r) + length (concat env) < RING_SIZE"
  shows "case serial_getchar put r env of
      None \<Rightarrow> ring_pending r = [] \<and> concat env = []
    | Some (c, r', env') \<Rightarrow> \<exists>seen. env = seen @ env' \<and> ring_ok r' \<and>
        ring_pending r @ concat seen = c # ring_pending r'"
  using assms(2,3)
proof (induction env arbitrary: r)
  case Nil
  then show ?case
    using ring_take [OF Nil(1)] ring_empty [OF Nil(1)] getchar_take [of r put "[]"]
    by (cases "head r = tail r") auto
next
  case (Cons bs env)
  show ?case
  proof (cases "head r = tail r")
    case False
    then show ?thesis
      using ring_take [OF Cons.prems(1)] getchar_take [OF False, of put "bs # env"]
      by (auto intro: exI [of _ "[]"])
  next
    case True
    then have e: "ring_pending r = []" using ring_empty [OF Cons.prems(1)] by simp
    have p: "ring_ok (put bs r)" "ring_pending (put bs r) = bs"
      using put Cons.prems e unfolding server_ok_def by auto
    have "length (ring_pending (put bs r)) + length (concat env) < RING_SIZE"
      using Cons.prems(2) p(2) by simp
    note IH = Cons.IH [OF p(1) this]
    show ?thesis
    proof (cases "serial_getchar put (put bs r) env")
      case None
      with IH True e p(2) show ?thesis by simp
    next
      case (Some t)
      obtain c r' env' where t: "t = (c, r', env')" by (metis prod_cases3)
      with IH Some obtain seen where "env = seen @ env'" "ring_ok r'" "bs @ concat seen = c # ring_pending r'"
        unfolding p(2) by auto
      then show ?thesis using True e Some t by (auto intro!: exI [of _ "bs # seen"])
    qed
  qed
qed

text \<open>With something pending and nothing arriving, a read takes the oldest bytes at once.\<close>

lemma serial_readv_quiet:
  assumes "ring_ok r" and "find (\<lambda>(base_null, len). len \<noteq> 0) iov = Some (False, capacity)"
  shows "if ring_pending r = [] then serial_readv put iov r [] = None
    else \<exists>r'. serial_readv put iov r [] = Some (Inr (take (unat capacity) (ring_pending r)), r', []) \<and>
      ring_ok r' \<and> ring_pending r' = drop (unat capacity) (ring_pending r)"
proof (cases "ring_pending r = []")
  case True
  then show ?thesis using ring_empty [OF assms(1)] assms(2) by (simp add: serial_readv_def)
next
  case False
  then have ne: "head r \<noteq> tail r" using ring_empty [OF assms(1)] by blast
  obtain c r1 where c: "serial_take r = (c, r1)" by fastforce
  have t: "ring_pending r = c # ring_pending r1" "ring_ok r1" using ring_take [OF assms(1) ne] c by simp_all
  have cap: "unat capacity = Suc (unat capacity - 1)" using assms(2) by (auto simp: find_Some_iff unat_gt_0)
  obtain r2 where d: "drain serial_has_input serial_take put (unat capacity - 1) r1 [] =
      (take (unat capacity - 1) (ring_pending r1), r2, [])" "ring_ok r2"
    "ring_pending r2 = drop (unat capacity - 1) (ring_pending r1)"
    using ring.drain_quiet [OF t(2)] by blast
  have "serial_getchar put r [] = Some (c, r1, [])" using getchar_take [OF ne, of put "[]"] c by simp
  then have "serial_readv put iov r [] =
      Some (Inr (c # take (unat capacity - 1) (ring_pending r1)), r2, [])"
    using assms(2) d(1) by (simp add: serial_readv_def)
  then show ?thesis using False d(2,3) t(1) by (subst cap, subst (2) cap) simp
qed

lemma serial_readv_reads:
  assumes "server_ok put" and "ring_ok r"
    and "length (ring_pending r) + length (concat env) < RING_SIZE"
    and "find (\<lambda>(base_null, len). len \<noteq> 0) iov = Some (False, capacity)"
  shows "case serial_readv put iov r env of
      None \<Rightarrow> ring_pending r = [] \<and> concat env = []
    | Some (res, r', env') \<Rightarrow> \<exists>bs seen. res = Inr bs \<and> env = seen @ env' \<and> ring_ok r' \<and>
        ring_pending r @ concat seen = bs @ ring_pending r' \<and> bs \<noteq> [] \<and> length bs \<le> unat capacity"
proof (cases "serial_getchar put r env")
  case None
  with getchar_stream [OF assms(1-3)] assms(4) show ?thesis by (simp add: serial_readv_def)
next
  case (Some t)
  obtain c r1 env1 where t: "t = (c, r1, env1)" by (metis prod_cases3)
  with Some getchar_stream [OF assms(1-3)] obtain seen1 where g: "env = seen1 @ env1" "ring_ok r1"
    "ring_pending r @ concat seen1 = c # ring_pending r1" by auto
  obtain cs r2 env2 where d: "drain serial_has_input serial_take put (unat capacity - 1) r1 env1 = (cs, r2, env2)"
    by (metis prod_cases3)
  have len: "length (ring_pending r) + length (concat seen1) = Suc (length (ring_pending r1))"
    using arg_cong [OF g(3), of length] by simp
  have "length (ring_pending r1) + length (concat env1) < RING_SIZE"
    using assms(3) len unfolding g(1) by simp
  from ring.drain_stream [of RING_SIZE put, OF _ g(2) this d] assms(1) obtain seen2 where
    s2: "env1 = seen2 @ env2" "ring_ok r2" "ring_pending r1 @ concat seen2 = cs @ ring_pending r2"
      "length cs \<le> unat capacity - 1" unfolding server_ok_def by blast
  have run: "serial_readv put iov r env = Some (Inr (c # cs), r2, env2)"
    using assms(4) Some t d by (simp add: serial_readv_def)
  have cap: "0 < unat capacity" using assms(4) by (auto simp: find_Some_iff unat_gt_0)
  have "ring_pending r @ concat (seen1 @ seen2) = (c # ring_pending r1) @ concat seen2"
    unfolding g(3) [symmetric] by simp
  also have "\<dots> = (c # cs) @ ring_pending r2" using s2(3) by simp
  finally have "ring_pending r @ concat (seen1 @ seen2) = (c # cs) @ ring_pending r2" .
  then show ?thesis unfolding run using g(1) s2 cap
    by (auto intro!: exI [of _ "seen1 @ seen2"])
qed

text \<open>
  C15: a read of standard input into a non-empty buffer waits until a byte has arrived and
  returns then. The bytes it returns are the oldest ones pending or arriving, in order
  and none lost or repeated: what was pending plus what arrived while it ran is what it
  returned plus what is pending afterwards. It returns at least one byte and no more than
  the buffer holds, also when characters keep arriving during the copy.
\<close>

theorem serial_readv_stream:
  assumes "server_ok put" and "ring_ok r"
    and "length (ring_pending r) + length (concat env) < RING_SIZE"
    and "find (\<lambda>(base_null, len). len \<noteq> 0) iov = Some (False, capacity)"
  shows "case serial_readv put iov r env of
      None \<Rightarrow> ring_pending r = [] \<and> concat env = []
    | Some (res, r', env') \<Rightarrow> \<exists>bs seen. res = Inr bs \<and> env = seen @ env' \<and> ring_ok r' \<and>
        ring_pending r @ concat seen = bs @ ring_pending r' \<and> bs \<noteq> [] \<and> length bs \<le> unat capacity"
  by (rule serial_readv_reads [OF assms])

text \<open>
  The bytes a result hands out, and that any \<open>readv\<close> of standard input takes exactly those
  from the stream, whatever buffers it is given: with no buffer, or an error, it takes none.
\<close>

definition handed_out :: "byte list result \<Rightarrow> byte list" where
  "handed_out res = (case res of Inl e \<Rightarrow> [] | Inr bs \<Rightarrow> bs)"

lemma readv_stdin_stream:
  assumes "server_ok put" and "ring_ok r"
    and "length (ring_pending r) + length (concat env) < RING_SIZE"
    and "readv os put 0 iov cnt fk r env = Some (res, fk', r', env')"
  shows "fk' = fk \<and> (\<exists>seen. env = seen @ env' \<and> ring_ok r' \<and>
    ring_pending r @ concat seen = handed_out res @ ring_pending r')"
proof (cases "iov = None \<or> cnt < 0")
  case True
  then show ?thesis using assms(2,4) by (auto simp: readv_def handed_out_def split: option.splits)
next
  case False
  then obtain vs where vs: "iov = Some vs" "\<not> cnt < 0" by auto
  let ?vs = "take (nat cnt) vs"
  have run: "serial_readv put ?vs r env = Some (res, r', env')" and fk: "fk' = fk"
    using assms(4) vs by (auto simp: readv_def)
  show ?thesis
  proof (cases "find (\<lambda>(base_null, len). len \<noteq> 0) ?vs")
    case None
    then show ?thesis using run fk assms(2) by (auto simp: serial_readv_def handed_out_def)
  next
    case (Some v)
    obtain base_null capacity where v: "v = (base_null, capacity)" by fastforce
    show ?thesis
    proof (cases base_null)
      case True
      then show ?thesis using run fk assms(2) Some v by (auto simp: serial_readv_def handed_out_def)
    next
      case False
      then have "find (\<lambda>(base_null, len). len \<noteq> 0) ?vs = Some (False, capacity)" using Some v by simp
      from serial_readv_reads [OF assms(1-3) this] show ?thesis using run fk by (auto simp: handed_out_def)
    qed
  qed
qed

text \<open>A server that stores one character at a time, to instantiate the parameter.\<close>

definition put_byte :: "byte \<Rightarrow> serial_ring \<Rightarrow> serial_ring" where
  "put_byte c r = r\<lparr>ring_buf := (ring_buf r)[unat (tail r) := c],
     tail := (tail r + 1) mod of_nat RING_SIZE\<rparr>"

definition demo_server :: "byte list \<Rightarrow> serial_ring \<Rightarrow> serial_ring" where
  "demo_server bs r = fold put_byte bs r"

lemma put_byte_ok:
  assumes ok: "ring_ok r" and room: "length (ring_pending r) + 1 < RING_SIZE"
  shows "ring_ok (put_byte c r)" and "ring_pending (put_byte c r) = ring_pending r @ [c]"
proof -
  let ?h = "unat (head r)" and ?t = "unat (tail r)" and ?r = "put_byte c r"
  define n where "n = (?t + RING_SIZE - ?h) mod RING_SIZE"
  have b: "?h < RING_SIZE" "?t < RING_SIZE" using ok by (auto simp: ring_ok_def)
  have t': "unat (tail ?r) = (?t + 1) mod RING_SIZE"
    using ring_next [of "r\<lparr>head := tail r\<rparr>"] ok by (simp add: ring_ok_def put_byte_def)
  have r: "head ?r = head r" "ring_buf ?r = (ring_buf r)[?t := c]" by (simp_all add: put_byte_def)
  show "ring_ok ?r" using ok t' r b by (simp add: ring_ok_def)
  have room: "n + 1 < RING_SIZE" using room by (simp add: ring_pending_def n_def)
  have nt: "?t = (if ?h + n < RING_SIZE then ?h + n else ?h + n - RING_SIZE)"
    using b unfolding n_def ring_count [OF b] by auto
  have "(?t + 1) mod RING_SIZE = (if ?t + 1 = RING_SIZE then 0 else ?t + 1)" using b(2) by auto
  moreover have "(?t + 1) mod RING_SIZE < RING_SIZE" using b by simp
  ultimately have n': "(unat (tail ?r) + RING_SIZE - ?h) mod RING_SIZE = n + 1"
    using b room nt unfolding t' by (subst ring_count) (auto split: if_splits)
  have idx: "(?h + j) mod RING_SIZE = (if ?h + j < RING_SIZE then ?h + j else ?h + j - RING_SIZE)"
    if "j \<le> n" for j using that b room by (auto simp: le_mod_geq not_less)
  have "ring_buf ?r ! ((?h + j) mod RING_SIZE) = (if j = n then c else ring_buf r ! ((?h + j) mod RING_SIZE))"
    if "j \<le> n" for j
    unfolding idx [OF that] r using that nt b room ok
    by (auto simp: nth_list_update ring_ok_def split: if_splits)
  then show "ring_pending ?r = ring_pending r @ [c]"
    unfolding ring_pending_def r n' n_def [symmetric] by simp
qed

lemma demo_server_ok: "server_ok demo_server"
proof -
  have "ring_ok (fold put_byte bs r) \<and> ring_pending (fold put_byte bs r) = ring_pending r @ bs"
    if "ring_ok r" "length (ring_pending r) + length bs < RING_SIZE" for bs r
    using that
  proof (induction bs arbitrary: r)
    case (Cons c bs)
    then show ?case using put_byte_ok [OF Cons.prems(1), of c] by simp
  qed simp
  then show ?thesis by (simp add: server_ok_def demo_server_def)
qed

definition empty_ring :: serial_ring where
  "empty_ring = \<lparr>head = 4087, tail = 4087, ring_buf = replicate RING_SIZE 0\<rparr>"

lemma empty_ring_ok: "ring_ok empty_ring" and empty_ring_pending: "ring_pending empty_ring = []"
  by (simp_all add: ring_ok_def ring_pending_def empty_ring_def RING_SIZE_def)

theorem serial_readv_stream_witness:
  "\<exists>bs r' env'. serial_readv demo_server [(True, 0), (False, 2)] empty_ring [[104, 105, 33]]
     = Some (Inr bs, r', env') \<and> bs @ ring_pending r' = [104, 105, 33] \<and> bs \<noteq> [] \<and> length bs \<le> 2"
proof -
  let ?env = "[[104, 105, 33 :: byte]]"
  have h: "length (ring_pending empty_ring) + length (concat ?env) < RING_SIZE"
    "find (\<lambda>(base_null, len). len \<noteq> 0) [(True, 0), (False, 2 :: u64)] = Some (False, 2)"
    by (simp_all add: empty_ring_pending RING_SIZE_def)
  note S = serial_readv_stream [OF demo_server_ok empty_ring_ok h]
  obtain res r' env' where run: "serial_readv demo_server [(True, 0), (False, 2)] empty_ring ?env = Some (res, r', env')"
    using S by (cases "serial_readv demo_server [(True, 0), (False, 2)] empty_ring ?env") auto
  with S obtain bs seen where b: "res = Inr bs" "?env = seen @ env'" "concat seen = bs @ ring_pending r'"
    "bs \<noteq> []" "length bs \<le> 2" by (auto simp: empty_ring_pending)
  have "concat seen \<noteq> []" using b(3,4) by simp
  then have "seen = ?env" using b(2) by (cases seen) auto
  then show ?thesis using run b by auto
qed

end
