(* ===== verification/Poll_Wait.thy ===== *)
theory Poll_Wait
  imports Serial_Ring
begin

text \<open>
  \<open>poll\<close> and \<open>ppoll\<close> from \<^verbatim>\<open>stub/ruby_syscall_poll.c\<close>: readiness of descriptors and a wait
  that ends with input on the serial line or with a one-shot timer.

  Outside the repository and therefore parameters: \<open>arm t\<close>, whether the time server
  accepts a one-shot timer of \<open>t\<close> nanoseconds; \<open>mask\<close>, the badge bits of the timer
  notification; \<open>put\<close>, the serial server. A wait is a list of wake-ups, each the badge
  received and what the server had stored by then; \<open>None\<close> is a call that still waits at
  the end of the list. The calls made to the time server are recorded in order.
\<close>

section \<open>Readiness\<close>

record pollfd =
  pfd :: int
  pevents :: u16
  prevents :: u16

definition POLLIN :: u16 where "POLLIN = 1"
definition POLLOUT :: u16 where "POLLOUT = 4"

definition readable :: "'w fake_fds \<Rightarrow> serial_ring \<Rightarrow> int \<Rightarrow> bool" where
  "readable fk r fd =
     (if fd = 0 then serial_has_input r
      else case fake_eventfd_from_fd fk fd of
        Some i \<Rightarrow> ev_counter (fake_eventfds fk ! i) > 0
      | None \<Rightarrow> True)"

definition poll_one :: "'w fake_fds \<Rightarrow> serial_ring \<Rightarrow> pollfd \<Rightarrow> pollfd" where
  "poll_one fk r p =
     (if pfd p < 0 then p
      else
        let rv1 = (if readable fk r (pfd p) \<and> pevents p AND POLLIN \<noteq> 0 then prevents p OR POLLIN else prevents p);
            rv2 = (if pevents p AND POLLOUT \<noteq> 0 then rv1 OR POLLOUT else rv1)
        in p\<lparr>prevents := rv2\<rparr>)"

text \<open>The inner loop: the entries after it and the number found ready.\<close>

fun poll_pass :: "'w fake_fds \<Rightarrow> serial_ring \<Rightarrow> pollfd list \<Rightarrow> pollfd list \<times> nat" where
  "poll_pass fk r [] = ([], 0)"
| "poll_pass fk r (p # ps) =
     (let q = poll_one fk r p; (qs, n) = poll_pass fk r ps
      in (q # qs, if 0 \<le> pfd p \<and> prevents q \<noteq> 0 then n + 1 else n))"

section \<open>The wait\<close>

definition RUBY_TIMER_ID :: nat where "RUBY_TIMER_ID = 0"

datatype timer_op = Timeout_oneshot_relative nat u64 | Timeout_stop nat

type_synonym wake = "u64 \<times> byte list"

record time_server =
  arm :: "nat \<Rightarrow> u64 \<Rightarrow> bool"
  mask :: u64

fun poll_loop ::
    "time_server \<Rightarrow> (byte list \<Rightarrow> serial_ring \<Rightarrow> serial_ring) \<Rightarrow> 'w fake_fds \<Rightarrow> u64 \<Rightarrow> bool \<Rightarrow>
       pollfd list \<Rightarrow> bool \<Rightarrow> bool \<Rightarrow> serial_ring \<Rightarrow> timer_op list \<Rightarrow> wake list \<Rightarrow>
       (nat \<times> pollfd list \<times> serial_ring \<times> timer_op list \<times> wake list) option" where
  "poll_loop ts put fk timeout watching fds armed expired r ops wakes =
     (let (fds1, ready) = poll_pass fk r fds in
      if ready > 0 \<or> expired \<or> timeout = 0 \<or> \<not> watching
      then Some (ready, fds1, r, ops @ (if armed then [Timeout_stop RUBY_TIMER_ID] else []), wakes)
      else
        let start = (0 < sint timeout \<and> \<not> armed);
            ops1 = (if start then ops @ [Timeout_oneshot_relative RUBY_TIMER_ID timeout] else ops);
            armed1 = (if start then arm ts RUBY_TIMER_ID timeout else armed)
        in if start \<and> \<not> armed1 then Some (0, fds1, r, ops1, wakes)
           else case wakes of
             [] \<Rightarrow> None
           | (badge, bs) # ws \<Rightarrow>
               let fired = (armed1 \<and> badge AND mask ts \<noteq> 0)
               in poll_loop ts put fk timeout watching fds1 (armed1 \<and> \<not> fired) (expired \<or> fired)
                    (put bs r) ops1 ws)"

declare poll_loop.simps [simp del]

definition poll_fds ::
    "time_server \<Rightarrow> (byte list \<Rightarrow> serial_ring \<Rightarrow> serial_ring) \<Rightarrow> 'w fake_fds \<Rightarrow> pollfd list option \<Rightarrow> nat \<Rightarrow>
       u64 \<Rightarrow> serial_ring \<Rightarrow> wake list \<Rightarrow>
       (nat result \<times> pollfd list \<times> serial_ring \<times> timer_op list \<times> wake list) option" where
  "poll_fds ts put fk fds nfds timeout r wakes =
     (if fds = None \<and> nfds \<noteq> 0 then Some (Inl EFAULT, [], r, [], wakes)
      else
        let ps = map (\<lambda>p. p\<lparr>prevents := 0\<rparr>) (take nfds (case fds of None \<Rightarrow> [] | Some l \<Rightarrow> l));
            watching_stdin = list_ex (\<lambda>p. pfd p = 0 \<and> pevents p AND POLLIN \<noteq> 0) ps
        in map_option (\<lambda>(n, ps', r', ops, ws). (Inr n, ps', r', ops, ws))
             (poll_loop ts put fk timeout watching_stdin ps False False r [] wakes))"

definition poll_timeout_ns :: "u32 \<Rightarrow> u64" where
  "poll_timeout_ns ms = (if sint ms < 0 then - 1 else scast ms * 1000000)"

definition ruby_sys_poll where
  "ruby_sys_poll ts put fk fds nfds timeout_ms r wakes =
     poll_fds ts put fk fds nfds (poll_timeout_ns timeout_ms) r wakes"

text \<open>\<open>None\<close> is a null \<open>timespec\<close>; otherwise its seconds and nanoseconds.\<close>

definition ppoll_timeout_ns :: "(u64 \<times> u64) option \<Rightarrow> u64" where
  "ppoll_timeout_ns ts = (case ts of None \<Rightarrow> - 1 | Some (tv_sec, tv_nsec) \<Rightarrow> tv_sec * 1000000000 + tv_nsec)"

definition ruby_sys_ppoll where
  "ruby_sys_ppoll ts put fk fds nfds tmo r wakes =
     poll_fds ts put fk fds nfds (ppoll_timeout_ns tmo) r wakes"

datatype poll_handler = Ruby_sys_poll | Ruby_sys_ppoll

definition install_ruby_poll :: "(nat \<Rightarrow> poll_handler \<Rightarrow> 't \<Rightarrow> 't) \<Rightarrow> 't \<Rightarrow> 't" where
  "install_ruby_poll install t = install 271 Ruby_sys_ppoll (install 7 Ruby_sys_poll t)"

section \<open>One pass\<close>

lemma pfd_poll_one [simp]: "pfd (poll_one fk r p) = pfd p" "pevents (poll_one fk r p) = pevents p"
  by (simp_all add: poll_one_def Let_def)

lemma poll_pass_map: "fst (poll_pass fk r ps) = map (poll_one fk r) ps"
  by (induction ps) (simp_all add: Let_def case_prod_beta)

lemma poll_pass_count:
  "snd (poll_pass fk r ps) = length (filter (\<lambda>q. 0 \<le> pfd q \<and> prevents q \<noteq> 0) (map (poll_one fk r) ps))"
  by (induction ps) (simp_all add: Let_def case_prod_beta)

text \<open>A pass that finds nothing leaves cleared entries as they were.\<close>

lemma poll_pass_idle:
  assumes "\<forall>p\<in>set ps. prevents p = 0" and "snd (poll_pass fk r ps) = 0"
  shows "map (poll_one fk r) ps = ps"
proof (rule map_idI)
  fix p
  assume p: "p \<in> set ps"
  then have "\<not> (0 \<le> pfd p \<and> prevents (poll_one fk r p) \<noteq> 0)"
    using assms(2) unfolding poll_pass_count by (auto simp: filter_empty_conv)
  then have "pfd p < 0 \<or> prevents (poll_one fk r p) = prevents p" using assms(1) p by auto
  then show "poll_one fk r p = p" by (auto simp: poll_one_def Let_def)
qed

lemma poll_one_ring:
  assumes "serial_has_input r = serial_has_input r'"
  shows "poll_one fk r = poll_one fk r'"
  by (rule ext) (simp add: poll_one_def readable_def assms)

section \<open>The loop, one round at a time\<close>

lemma poll_loop_stop:
  assumes "0 < snd (poll_pass fk r fds) \<or> expired \<or> timeout = 0 \<or> \<not> watching"
  shows "poll_loop ts put fk timeout watching fds armed expired r ops wakes =
    Some (snd (poll_pass fk r fds), map (poll_one fk r) fds, r,
      ops @ (if armed then [Timeout_stop RUBY_TIMER_ID] else []), wakes)"
  using assms by (subst poll_loop.simps) (simp add: Let_def case_prod_beta poll_pass_map)

lemma poll_loop_no_timer:
  assumes "snd (poll_pass fk r fds) = 0" "\<not> expired" "timeout \<noteq> 0" "watching"
    and "0 < sint timeout" "\<not> armed" "\<not> arm ts RUBY_TIMER_ID timeout"
  shows "poll_loop ts put fk timeout watching fds armed expired r ops wakes =
    Some (0, map (poll_one fk r) fds, r, ops @ [Timeout_oneshot_relative RUBY_TIMER_ID timeout], wakes)"
  using assms by (subst poll_loop.simps) (simp add: Let_def case_prod_beta poll_pass_map)

lemma poll_loop_wait:
  fixes ops :: "timer_op list"
  assumes "snd (poll_pass fk r fds) = 0" "\<not> expired" "timeout \<noteq> 0" "watching"
    and "0 < sint timeout \<and> \<not> armed \<longrightarrow> arm ts RUBY_TIMER_ID timeout"
  defines "armed1 \<equiv> armed \<or> 0 < sint timeout"
    and "ops1 \<equiv> (if 0 < sint timeout \<and> \<not> armed then ops @ [Timeout_oneshot_relative RUBY_TIMER_ID timeout] else ops)"
  shows "poll_loop ts put fk timeout watching fds armed expired r ops wakes =
    (case wakes of
       [] \<Rightarrow> None
     | (badge, bs) # ws \<Rightarrow>
         poll_loop ts put fk timeout watching (map (poll_one fk r) fds)
           (armed1 \<and> badge AND mask ts = 0) (armed1 \<and> badge AND mask ts \<noteq> 0) (put bs r) ops1 ws)"
proof (cases "0 < sint timeout \<and> \<not> armed")
  case True
  then have "armed1" "arm ts RUBY_TIMER_ID timeout" using assms(5) by (simp_all add: armed1_def)
  with True assms(1-4) show ?thesis
    by (subst poll_loop.simps)
      (auto simp: Let_def case_prod_beta poll_pass_map ops1_def split: list.splits)
next
  case False
  then have "armed1 = armed" by (auto simp: armed1_def)
  with False assms(1-4) show ?thesis
    by (subst poll_loop.simps)
      (auto simp: Let_def case_prod_beta poll_pass_map ops1_def split: list.splits)
qed

text \<open>The three ways a round can go.\<close>

lemma poll_round:
  fixes ts :: time_server
  obtains (stop) "0 < snd (poll_pass fk r fds) \<or> expired \<or> timeout = 0 \<or> \<not> watching"
  | (no_timer) "snd (poll_pass fk r fds) = 0" "\<not> expired" "timeout \<noteq> 0" "watching"
      "0 < sint timeout" "\<not> armed" "\<not> arm ts RUBY_TIMER_ID timeout"
  | (wait) "snd (poll_pass fk r fds) = 0" "\<not> expired" "timeout \<noteq> 0" "watching"
      "0 < sint timeout \<and> \<not> armed \<longrightarrow> arm ts RUBY_TIMER_ID timeout"
  by blast

text \<open>
  Induction over a wait that ends: the rounds it went through, from the last one back. The
  arguments of \<open>P\<close> are those that a round changes.
\<close>

lemma poll_loop_induct [consumes 1, case_names stop no_timer wait]:
  fixes ts :: time_server
  assumes run: "poll_loop ts put fk t watching fds armed expired r ops wakes = Some (n, fds', r', ops', rest)"
    and stop: "\<And>fds armed expired ops. 0 < snd (poll_pass fk r' fds) \<or> expired \<or> t = 0 \<or> \<not> watching \<Longrightarrow>
      n = snd (poll_pass fk r' fds) \<Longrightarrow> fds' = map (poll_one fk r') fds \<Longrightarrow>
      ops' = ops @ (if armed then [Timeout_stop RUBY_TIMER_ID] else []) \<Longrightarrow> P fds armed expired r' ops rest"
    and no_timer: "\<And>fds ops. snd (poll_pass fk r' fds) = 0 \<Longrightarrow> \<not> arm ts RUBY_TIMER_ID t \<Longrightarrow>
      n = 0 \<Longrightarrow> fds' = map (poll_one fk r') fds \<Longrightarrow>
      ops' = ops @ [Timeout_oneshot_relative RUBY_TIMER_ID t] \<Longrightarrow> P fds False False r' ops rest"
    and wait: "\<And>fds armed r ops badge bs ws. snd (poll_pass fk r fds) = 0 \<Longrightarrow>
      P (map (poll_one fk r) fds) ((armed \<or> 0 < sint t) \<and> badge AND mask ts = 0)
        ((armed \<or> 0 < sint t) \<and> badge AND mask ts \<noteq> 0) (put bs r)
        (if 0 < sint t \<and> \<not> armed then ops @ [Timeout_oneshot_relative RUBY_TIMER_ID t] else ops) ws \<Longrightarrow>
      P fds armed False r ops ((badge, bs) # ws)"
  shows "P fds armed expired r ops wakes"
  using run
proof (induction wakes arbitrary: fds armed expired r ops)
  case Nil
  show ?case
    by (cases rule: poll_round [where fk = fk and r = r and fds = fds and expired = expired and
          timeout = t and watching = watching and armed = armed and ts = ts])
      (use Nil stop no_timer in \<open>auto simp: poll_loop_stop poll_loop_no_timer poll_loop_wait\<close>)
next
  case (Cons w ws)
  obtain badge bs where w: "w = (badge, bs)" by fastforce
  show ?case
  proof (cases rule: poll_round [where fk = fk and r = r and fds = fds and expired = expired and
        timeout = t and watching = watching and armed = armed and ts = ts])
    case stop
    with Cons.prems assms(2) show ?thesis by (auto simp: poll_loop_stop)
  next
    case no_timer
    with Cons.prems assms(3) show ?thesis by (auto simp: poll_loop_no_timer)
  next
    case wait
    from Cons.prems have "poll_loop ts put fk t watching (map (poll_one fk r) fds)
        ((armed \<or> 0 < sint t) \<and> badge AND mask ts = 0) ((armed \<or> 0 < sint t) \<and> badge AND mask ts \<noteq> 0)
        (put bs r) (if 0 < sint t \<and> \<not> armed then ops @ [Timeout_oneshot_relative RUBY_TIMER_ID t] else ops) ws
        = Some (n, fds', r', ops', rest)"
      unfolding poll_loop_wait [OF wait] w by simp
    from assms(4) [OF wait(1) Cons.IH [OF this]] show ?thesis using wait(2) w by simp
  qed
qed

lemma poll_loop_result:
  assumes "poll_loop ts put fk t watching fds armed expired r ops wakes = Some (n, fds', r', ops', rest)"
    and "\<forall>p\<in>set fds. prevents p = 0"
  shows "fds' = map (poll_one fk r') fds \<and> n = snd (poll_pass fk r' fds)"
  using assms
proof (induction rule: poll_loop_induct)
  case (wait fds armed r ops badge bs ws)
  have "map (poll_one fk r) fds = fds" by (rule poll_pass_idle [OF wait(3,1)])
  with wait show ?case by simp
qed simp_all

lemma poll_loop_rest:
  assumes "poll_loop ts put fk t watching fds armed expired r ops wakes = Some (n, fds', r', ops', rest)"
  shows "length rest \<le> length wakes"
  using assms by (induction rule: poll_loop_induct) simp_all

text \<open>
  The calls to the time server. A timer that runs when the poll returns was refused, or
  belongs to a wake-up with the badge of the timer.
\<close>

lemma poll_loop_timer:
  assumes "poll_loop ts put fk t watching fds armed expired r ops wakes = Some (n, fds', r', ops', rest)"
    and "if armed then ops = [Timeout_oneshot_relative RUBY_TIMER_ID t] \<and> \<not> expired else
           (ops = [] \<and> \<not> expired) \<or> (ops = [Timeout_oneshot_relative RUBY_TIMER_ID t] \<and> expired)"
  shows "length rest \<le> length wakes \<and> (ops' = [] \<or>
    ops' = [Timeout_oneshot_relative RUBY_TIMER_ID t, Timeout_stop RUBY_TIMER_ID] \<or>
    (ops' = [Timeout_oneshot_relative RUBY_TIMER_ID t] \<and>
       (\<not> arm ts RUBY_TIMER_ID t \<or> expired \<or>
        (\<exists>k<length wakes - length rest. fst (wakes ! k) AND mask ts \<noteq> 0))))"
  using assms
proof (induction rule: poll_loop_induct)
  case (wait fds armed r ops badge bs ws)
  let ?hot = "\<lambda>ws. \<exists>k<length ws - length rest. fst (ws ! k) AND mask ts \<noteq> 0"
  have IH: "length rest \<le> length ws \<and> (ops' = [] \<or>
      ops' = [Timeout_oneshot_relative RUBY_TIMER_ID t, Timeout_stop RUBY_TIMER_ID] \<or>
      (ops' = [Timeout_oneshot_relative RUBY_TIMER_ID t] \<and>
         (\<not> arm ts RUBY_TIMER_ID t \<or> badge AND mask ts \<noteq> 0 \<or> ?hot ws)))"
    using wait(2,3) by (auto split: if_splits)
  moreover have "?hot ((badge, bs) # ws)" if "k < length ws - length rest" "fst (ws ! k) AND mask ts \<noteq> 0" for k
    using that by (intro exI [of _ "Suc k"]) auto
  moreover have "?hot ((badge, bs) # ws)" if "badge AND mask ts \<noteq> 0"
    using that IH by (intro exI [of _ 0]) auto
  ultimately show ?case by auto
qed (auto split: if_splits)

text \<open>A poll consumes nothing: what arrived while it waited is still pending.\<close>

lemma poll_loop_stream:
  assumes put: "server_ok put" and ok: "ring_ok r"
    and room: "length (ring_pending r) + length (concat (map snd wakes)) < RING_SIZE"
    and run: "poll_loop ts put fk t watching fds armed expired r ops wakes = Some (n, fds', r', ops', rest)"
  shows "\<exists>seen. wakes = seen @ rest \<and> ring_ok r' \<and>
    ring_pending r' = ring_pending r @ concat (map snd seen)"
  using run ok room
proof (induction rule: poll_loop_induct)
  case (wait fds armed r ops badge bs ws)
  have p: "ring_ok (put bs r)" "ring_pending (put bs r) = ring_pending r @ bs"
    using put wait(3,4) unfolding server_ok_def by auto
  then obtain seen where "ws = seen @ rest" "ring_ok r'"
    "ring_pending r' = ring_pending (put bs r) @ concat (map snd seen)"
    using wait(2,4) by auto
  then show ?case using p(2) by (intro exI [of _ "(badge, bs) # seen"]) simp
qed auto

section \<open>When the wait ends\<close>

definition watches_stdin :: "pollfd list \<Rightarrow> bool" where
  "watches_stdin fds \<longleftrightarrow> (\<exists>p\<in>set fds. pfd p = 0 \<and> pevents p AND POLLIN \<noteq> 0)"

lemma input_is_ready:
  assumes "watches_stdin fds" and "serial_has_input r"
  shows "0 < snd (poll_pass fk r fds)"
proof -
  obtain p where p: "p \<in> set fds" "pfd p = 0" "pevents p AND POLLIN \<noteq> 0"
    using assms(1) by (auto simp: watches_stdin_def)
  have or: "a OR POLLIN \<noteq> 0" "(a OR POLLIN) OR POLLOUT \<noteq> 0" for a :: u16
    by (metis POLLIN_def bit.disj_zero_right or_eq_0_iff zero_neq_one)+
  have "prevents (poll_one fk r p) \<noteq> 0"
    using p assms(2) or by (simp add: poll_one_def readable_def Let_def)
  then show ?thesis using p unfolding poll_pass_count by (auto simp: filter_empty_conv intro!: bexI [of _ p])
qed

text \<open>A wake-up that ends the wait: it brought a character or the timer a positive timeout armed.\<close>

definition ends_wait :: "time_server \<Rightarrow> u64 \<Rightarrow> wake \<Rightarrow> bool" where
  "ends_wait ts timeout w \<longleftrightarrow> snd w \<noteq> [] \<or> (0 < sint timeout \<and> fst w AND mask ts \<noteq> 0)"

lemma poll_loop_returns:
  assumes put: "server_ok put" and fds: "\<forall>p\<in>set fds. prevents p = 0" "watches_stdin fds"
    and "ring_ok r" and "\<forall>w\<in>set wakes. length (snd w) < RING_SIZE"
    and "k < length wakes" and "ends_wait ts timeout (wakes ! k)"
  shows "\<exists>n fds' r' ops' rest.
    poll_loop ts put fk timeout watching fds armed expired r ops wakes = Some (n, fds', r', ops', rest) \<and>
    length wakes \<le> length rest + k + 1"
  using assms(4-)
proof (induction wakes arbitrary: k armed expired r ops)
  case Nil
  then show ?case by simp
next
  case (Cons w ws)
  obtain badge bs where w: "w = (badge, bs)" by fastforce
  show ?case
  proof (cases rule: poll_round [where fk = fk and r = r and fds = fds and expired = expired and
        timeout = timeout and watching = watching and armed = armed and ts = ts])
    case stop
    then show ?thesis by (simp add: poll_loop_stop)
  next
    case no_timer
    then show ?thesis by (simp add: poll_loop_no_timer)
  next
    case wait
    have same: "map (poll_one fk r) fds = fds" by (rule poll_pass_idle [OF fds(1) wait(1)])
    have "\<not> serial_has_input r" using input_is_ready [OF fds(2), of r fk] wait(1) by auto
    then have e: "ring_pending r = []" using ring.has_iff [OF Cons.prems(1)] by simp
    have p: "ring_ok (put bs r)" "ring_pending (put bs r) = bs"
      using put Cons.prems(1,2) e w unfolding server_ok_def by auto
    note step = poll_loop_wait [OF wait, where put = put and ops = ops and wakes = "(badge, bs) # ws",
        unfolded same list.case prod.case]
    show ?thesis
    proof (cases "ends_wait ts timeout w")
      case True
      have "bs \<noteq> [] \<Longrightarrow> 0 < snd (poll_pass fk (put bs r) fds)"
        using input_is_ready [OF fds(2), of "put bs r" fk] ring.has_iff [OF p(1)] p(2) by simp
      then show ?thesis using True unfolding w step ends_wait_def
        by (subst poll_loop_stop) auto
    next
      case False
      then obtain j where j: "k = Suc j" "j < length ws" "ends_wait ts timeout (ws ! j)"
        using Cons.prems(3,4) by (cases k) auto
      have "\<forall>w\<in>set ws. length (snd w) < RING_SIZE" using Cons.prems(2) by simp
      from Cons.IH [OF p(1) this j(2,3)] show ?thesis unfolding w step j(1) by (simp add: algebra_simps)
    qed
  qed
qed

lemma poll_loop_waited:
  assumes "t \<noteq> 0" "0 < sint t \<longrightarrow> arm ts RUBY_TIMER_ID t" "snd (poll_pass fk r fds) = 0"
    and "poll_loop ts put fk t True fds False False r ops wakes = Some (n, fds', r', ops', rest)"
  shows "length rest < length wakes"
proof -
  have arm: "0 < sint t \<and> \<not> False \<longrightarrow> arm ts RUBY_TIMER_ID t" using assms(2) by simp
  note step = poll_loop_wait [OF assms(3) _ assms(1) _ arm, of False True, simplified]
  obtain w ws where w: "wakes = w # ws" using assms(4) unfolding step by (cases wakes) auto
  with assms(4) have "length rest \<le> length ws"
    unfolding step by (cases w) (auto dest: poll_loop_rest)
  with w show ?thesis by simp
qed

text \<open>A wait that nothing ends goes on.\<close>

lemma poll_loop_waits:
  assumes put: "server_ok put" and fds: "\<forall>p\<in>set fds. prevents p = 0" "watches_stdin fds"
    and t: "timeout \<noteq> 0" "0 < sint timeout \<longrightarrow> arm ts RUBY_TIMER_ID timeout"
    and "ring_ok r" and "snd (poll_pass fk r fds) = 0" and "\<forall>w\<in>set wakes. \<not> ends_wait ts timeout w"
    and "armed \<longrightarrow> 0 < sint timeout"
  shows "poll_loop ts put fk timeout True fds armed False r ops wakes = None"
  using assms(6-)
proof (induction wakes arbitrary: armed r ops)
  case Nil
  then show ?case using t by (simp add: poll_loop_wait)
next
  case (Cons w ws)
  obtain badge bs where w: "w = (badge, bs)" by fastforce
  have none: "bs = []" "\<not> (0 < sint timeout \<and> badge AND mask ts \<noteq> 0)"
    using Cons.prems(3) by (simp_all add: w ends_wait_def)
  have same: "map (poll_one fk r) fds = fds" by (rule poll_pass_idle [OF fds(1) Cons.prems(2)])
  have e: "ring_pending r = []"
    using input_is_ready [OF fds(2), of r fk] Cons.prems(2) ring.has_iff [OF Cons.prems(1)] by auto
  have p: "ring_ok (put [] r)" "ring_pending (put [] r) = []"
    using put Cons.prems(1) e unfolding server_ok_def by (auto simp: RING_SIZE_def)
  then have "serial_has_input (put [] r) = serial_has_input r"
    using ring.has_iff e Cons.prems(1) by simp
  then have "snd (poll_pass fk (put [] r) fds) = 0"
    using Cons.prems(2) poll_one_ring [of "put [] r" r fk] by (simp add: poll_pass_count)
  from Cons.IH [OF p(1) this] Cons.prems(3)
  have IH: "armed' \<longrightarrow> 0 < sint timeout \<Longrightarrow>
      poll_loop ts put fk timeout True fds armed' False (put [] r) ops' ws = None" for armed' ops' by simp
  have arm: "0 < sint timeout \<and> \<not> armed \<longrightarrow> arm ts RUBY_TIMER_ID timeout" using t(2) by blast
  have fired: "(armed \<or> 0 < sint timeout) \<and> badge AND mask ts \<noteq> 0 \<longleftrightarrow> False"
    using none(2) Cons.prems(4) by blast
  show ?case
    unfolding w none(1) poll_loop_wait [OF Cons.prems(2) _ t(1) _ arm, of False True, simplified]
      list.case prod.case same fired
    by (rule IH) (use Cons.prems(4) in blast)
qed

section \<open>Properties\<close>

abbreviation cleared :: "pollfd \<Rightarrow> pollfd" where
  "cleared p \<equiv> p\<lparr>prevents := 0\<rparr>"

lemma poll_fds_Some:
  "poll_fds ts put fk (Some l) nfds t r wakes =
    map_option (\<lambda>(n, ps', r', ops, ws). (Inr n, ps', r', ops, ws))
      (poll_loop ts put fk t (watches_stdin (map cleared (take nfds l))) (map cleared (take nfds l))
         False False r [] wakes)"
  by (simp add: poll_fds_def Let_def watches_stdin_def list_ex_iff)

lemma poll_one_cleared:
  "prevents (poll_one fk r (cleared p)) =
    (if pfd p < 0 then 0
     else (if readable fk r (pfd p) \<and> pevents p AND POLLIN \<noteq> 0 then POLLIN else 0) OR
       (if pevents p AND POLLOUT \<noteq> 0 then POLLOUT else 0))"
  by (simp add: poll_one_def Let_def)

text \<open>The entries and the number a poll returns, at the state of the ring it returns with.\<close>

lemma poll_fds_entries:
  assumes "poll_fds ts put fk (Some l) nfds t r wakes = Some (res, ps, r', ops, rest)"
  shows "ps = map (poll_one fk r') (map cleared (take nfds l))"
    and "res = Inr (snd (poll_pass fk r' (map cleared (take nfds l))))"
proof -
  let ?fds = "map cleared (take nfds l)"
  obtain n where n: "poll_loop ts put fk t (watches_stdin ?fds) ?fds False False r [] wakes
      = Some (n, ps, r', ops, rest)" "res = Inr n"
    using assms unfolding poll_fds_Some by auto
  show "ps = map (poll_one fk r') ?fds" "res = Inr (snd (poll_pass fk r' ?fds))"
    using poll_loop_result [OF n(1)] n(2) by auto
qed

lemma poll_reports_readiness_nth:
  assumes "poll_fds ts put fk (Some l) nfds t r wakes = Some (res, ps, r', ops, rest)" and "i < length ps"
  shows "prevents (ps ! i) =
    (if pfd (l ! i) < 0 then 0
     else (if readable fk r' (pfd (l ! i)) \<and> pevents (l ! i) AND POLLIN \<noteq> 0 then POLLIN else 0) OR
       (if pevents (l ! i) AND POLLOUT \<noteq> 0 then POLLOUT else 0))"
  using assms(2) unfolding poll_fds_entries(1) [OF assms(1)] by (simp add: poll_one_cleared)

text \<open>
  C10: what \<open>poll\<close> returns describes the moment it returns, however long it waited: every
  entry has exactly the events asked for that hold then, standard input being readable
  when the ring has a byte, an eventfd when its counter is not zero and any other
  descriptor always; an entry with a negative descriptor has none; and the result is the
  number of entries with an event. Input that arrives together with the timer counts.
\<close>

theorem poll_reports_readiness:
  assumes "poll_fds ts put fk (Some l) nfds t r wakes = Some (res, ps, r', ops, rest)"
  shows "res = Inr (length (filter (\<lambda>q. prevents q \<noteq> 0) ps)) \<and> length ps = min nfds (length l) \<and>
    (\<forall>i<length ps. pfd (ps ! i) = pfd (l ! i) \<and> pevents (ps ! i) = pevents (l ! i) \<and>
       prevents (ps ! i) =
         (if pfd (l ! i) < 0 then 0
          else (if readable fk r' (pfd (l ! i)) \<and> pevents (l ! i) AND POLLIN \<noteq> 0 then POLLIN else 0) OR
            (if pevents (l ! i) AND POLLOUT \<noteq> 0 then POLLOUT else 0)))"
proof -
  note ps = poll_fds_entries [OF assms]
  have len: "length ps = min nfds (length l)" using ps(1) by simp
  have nth: "ps ! i = poll_one fk r' (cleared (l ! i))" if "i < length ps" for i
    using that unfolding ps(1) by simp
  have "prevents q = 0" if "q \<in> set ps" "\<not> 0 \<le> pfd q" for q
    using that unfolding ps(1) by (auto simp: poll_one_cleared)
  then have "filter (\<lambda>q. 0 \<le> pfd q \<and> prevents q \<noteq> 0) ps = filter (\<lambda>q. prevents q \<noteq> 0) ps"
    by (intro filter_cong) auto
  then have "res = Inr (length (filter (\<lambda>q. prevents q \<noteq> 0) ps))"
    using ps unfolding poll_pass_count by simp
  then show ?thesis using len nth by (simp add: poll_one_cleared)
qed

text \<open>A time server that accepts every timer and signals it with the badge bit 16.\<close>

definition demo_time :: time_server where
  "demo_time = \<lparr>arm = \<lambda>_ _. True, mask = 0x10\<rparr>"

definition demo_poll_fds :: "pollfd list" where
  "demo_poll_fds = [\<lparr>pfd = 0, pevents = 1, prevents = 7\<rparr>, \<lparr>pfd = - 1, pevents = 5, prevents = 7\<rparr>]"

lemma demo_poll_once:
  "poll_fds demo_time demo_server (initial_fds ()) (Some demo_poll_fds) 2 0 empty_ring [] =
    Some (Inr 0, [\<lparr>pfd = 0, pevents = 1, prevents = 0\<rparr>, \<lparr>pfd = - 1, pevents = 5, prevents = 0\<rparr>],
      empty_ring, [], [])"
  unfolding poll_fds_Some
  by (subst poll_loop_stop)
    (simp_all add: demo_poll_fds_def poll_one_def readable_def serial_has_input_def empty_ring_def Let_def
      POLLIN_def POLLOUT_def)

theorem poll_reports_readiness_witness:
  "\<exists>res ps. poll_fds demo_time demo_server (initial_fds ()) (Some demo_poll_fds) 2 0 empty_ring [] =
     Some (res, ps, empty_ring, [], []) \<and> res = Inr (length (filter (\<lambda>q. prevents q \<noteq> 0) ps)) \<and> length ps = 2 \<and>
   \<not> readable (initial_fds ()) empty_ring 0"
  using poll_reports_readiness [OF demo_poll_once] demo_poll_once
  by (auto simp: readable_def serial_has_input_def empty_ring_def)

text \<open>A timed wait woken first for nothing and then by the timer.\<close>

lemma demo_poll_wait:
  "\<exists>res ps r' ops rest. poll_fds demo_time demo_server (initial_fds ()) (Some demo_poll_fds) 2 5 empty_ring
     [(0, []), (0x10, [])] = Some (res, ps, r', ops, rest)"
proof -
  let ?fds = "map cleared (take 2 demo_poll_fds)" and ?wakes = "[(0, []), (0x10, [])] :: wake list"
  have z: "\<forall>p\<in>set ?fds. prevents p = 0" "watches_stdin ?fds" "\<forall>w\<in>set ?wakes. length (snd w) < RING_SIZE"
    "1 < length ?wakes" "ends_wait demo_time 5 (?wakes ! 1)"
    by (auto simp: demo_poll_fds_def watches_stdin_def POLLIN_def RING_SIZE_def ends_wait_def demo_time_def)
  from poll_loop_returns [OF demo_server_ok z(1,2) empty_ring_ok z(3-5), where fk = "initial_fds ()" and
      armed = False and expired = False and ops = "[]" and watching = "watches_stdin ?fds"]
  show ?thesis unfolding poll_fds_Some by fastforce
qed

text \<open>
  A notification of the timer that was pending before the poll began: the first wait takes
  it for the timer it has just armed.
\<close>

lemma poll_stale_badge:
  assumes put: "server_ok put" "ring_ok r" and w: "watches_stdin (take nfds l)"
    and t: "0 < sint t" "arm ts RUBY_TIMER_ID t" and b: "badge AND mask ts \<noteq> 0"
    and idle: "snd (poll_pass fk r (map cleared (take nfds l))) = 0"
  shows "poll_fds ts put fk (Some l) nfds t r ((badge, []) # ws) =
    Some (Inr 0, map cleared (take nfds l), put [] r, [Timeout_oneshot_relative RUBY_TIMER_ID t], ws)"
proof -
  define fds where "fds = map cleared (take nfds l)"
  note idle = idle [folded fds_def]
  have watching: "watches_stdin fds" using w by (simp add: watches_stdin_def fds_def)
  have same: "map (poll_one fk r) fds = fds" by (rule poll_pass_idle [OF _ idle]) (auto simp: fds_def)
  have e: "ring_pending r = []"
    using input_is_ready [OF watching, of r fk] idle ring.has_iff [OF put(2)] by auto
  then have "ring_ok (put [] r)" "ring_pending (put [] r) = []"
    using put unfolding server_ok_def by (auto simp: RING_SIZE_def)
  then have "serial_has_input (put [] r) = serial_has_input r"
    using ring.has_iff e put(2) by simp
  note one = poll_one_ring [OF this, of fk]
  have "poll_loop ts put fk t True fds False False r [] ((badge, []) # ws) =
      poll_loop ts put fk t True fds False True (put [] r) [Timeout_oneshot_relative RUBY_TIMER_ID t] ws"
    by (subst poll_loop_wait) (use t b idle same in auto)
  also have "\<dots> = Some (0, fds, put [] r, [Timeout_oneshot_relative RUBY_TIMER_ID t], ws)"
    using idle same by (simp add: poll_loop_stop poll_pass_count one)
  finally show ?thesis using watching unfolding poll_fds_Some fds_def [symmetric] by simp
qed

text \<open>
  C19: a poll arms the timer at most once, only for a positive timeout: the calls to the
  time server are none, or one arming followed by one stop, or one arming alone, and then
  the timer was refused or a wake-up of this poll carried the timer's badge. That badge
  need not be for this timer. When a notification is pending from an earlier one, which
  fired before it was stopped, a poll that finds nothing ready reports its timeout at the
  first wake-up, however long it was asked to wait, and leaves its own timer running; the
  notification of that one is pending for the next poll.
\<close>

theorem poll_timer_discipline:
  assumes "poll_fds ts put fk (Some l) nfds t r wakes = Some (res, ps, r', ops, rest)"
  shows "(ops = [] \<or>
      ops = [Timeout_oneshot_relative RUBY_TIMER_ID t, Timeout_stop RUBY_TIMER_ID] \<or>
      (ops = [Timeout_oneshot_relative RUBY_TIMER_ID t] \<and>
         (\<not> arm ts RUBY_TIMER_ID t \<or> (\<exists>k<length wakes - length rest. fst (wakes ! k) AND mask ts \<noteq> 0)))) \<and>
    (\<forall>badge ws. wakes = (badge, []) # ws \<and> badge AND mask ts \<noteq> 0 \<and> server_ok put \<and> ring_ok r \<and>
       watches_stdin (take nfds l) \<and> 0 < sint t \<and> arm ts RUBY_TIMER_ID t \<and>
       snd (poll_pass fk r (map cleared (take nfds l))) = 0 \<longrightarrow>
       res = Inr 0 \<and> ops = [Timeout_oneshot_relative RUBY_TIMER_ID t] \<and> rest = ws)"
proof -
  let ?fds = "map cleared (take nfds l)"
  obtain n where n: "poll_loop ts put fk t (watches_stdin ?fds) ?fds False False r [] wakes
      = Some (n, ps, r', ops, rest)" using assms unfolding poll_fds_Some by auto
  have "res = Inr 0 \<and> ops = [Timeout_oneshot_relative RUBY_TIMER_ID t] \<and> rest = ws"
    if "wakes = (badge, []) # ws" "badge AND mask ts \<noteq> 0" "server_ok put" "ring_ok r" "watches_stdin (take nfds l)"
      "0 < sint t" "arm ts RUBY_TIMER_ID t" "snd (poll_pass fk r ?fds) = 0" for badge ws
    using poll_stale_badge [OF that(3-7,2,8), of ws] assms that(1) by simp
  with poll_loop_timer [OF n] show ?thesis by auto
qed

theorem poll_timer_discipline_witness:
  "\<exists>res ps r' ops rest. poll_fds demo_time demo_server (initial_fds ()) (Some demo_poll_fds) 2 5 empty_ring
     [(0, []), (0x10, [])] = Some (res, ps, r', ops, rest) \<and>
     length (filter (\<lambda>x. x = Timeout_oneshot_relative RUBY_TIMER_ID 5) ops) \<le> 1"
proof -
  obtain res ps r' ops rest where run: "poll_fds demo_time demo_server (initial_fds ()) (Some demo_poll_fds) 2 5
      empty_ring [(0, []), (0x10, [])] = Some (res, ps, r', ops, rest)" using demo_poll_wait by blast
  have "length (filter (\<lambda>x. x = Timeout_oneshot_relative RUBY_TIMER_ID 5) ops) \<le> 1"
    using poll_timer_discipline [OF run, THEN conjunct1] by auto
  with run show ?thesis by blast
qed

text \<open>A poll that has no reason to wait returns before it does.\<close>

lemma poll_at_once:
  assumes "t = 0 \<or> \<not> watches_stdin (take nfds l) \<or> 0 < snd (poll_pass fk r (map cleared (take nfds l))) \<or>
      (0 < sint t \<and> \<not> arm ts RUBY_TIMER_ID t)"
  shows "\<exists>n ps ops. poll_fds ts put fk (Some l) nfds t r wakes = Some (Inr n, ps, r, ops, wakes)"
proof -
  let ?fds = "map cleared (take nfds l)"
  have w: "watches_stdin ?fds = watches_stdin (take nfds l)" by (simp add: watches_stdin_def)
  have "\<exists>n ps ops. poll_loop ts put fk t (watches_stdin ?fds) ?fds False False r [] wakes
      = Some (n, ps, r, ops, wakes)"
    using assms unfolding w
    by (cases rule: poll_round [where fk = fk and r = r and fds = ?fds and expired = False and
          timeout = t and watching = "watches_stdin (take nfds l)" and armed = False and ts = ts])
      (auto simp: poll_loop_stop poll_loop_no_timer)
  then show ?thesis unfolding poll_fds_Some by auto
qed

text \<open>
  C20: when a poll ends. It returns without waiting, whatever happens afterwards, exactly
  for a reason it can see at once: a timeout of zero, standard input not watched for
  reading, an entry that is ready, or a positive timeout for which the time server refuses
  the timer. Otherwise it returns if and only if some wake-up brings a character or, for
  a positive timeout, the badge of the timer, and no later than the first such wake-up;
  woken for anything else it waits on.
\<close>

theorem poll_returns:
  assumes "server_ok put" and "ring_ok r" and "\<forall>w\<in>set wakes. length (snd w) < RING_SIZE"
    and "at_once \<longleftrightarrow> t = 0 \<or> \<not> watches_stdin (take nfds l) \<or>
      0 < snd (poll_pass fk r (map cleared (take nfds l))) \<or> (0 < sint t \<and> \<not> arm ts RUBY_TIMER_ID t)"
  shows "(poll_fds ts put fk (Some l) nfds t r wakes \<noteq> None \<longleftrightarrow>
      at_once \<or> (\<exists>w\<in>set wakes. ends_wait ts t w)) \<and>
    (at_once \<longrightarrow> (\<exists>n ps ops. poll_fds ts put fk (Some l) nfds t r wakes = Some (Inr n, ps, r, ops, wakes))) \<and>
    (\<not> at_once \<longrightarrow> (\<forall>k<length wakes. ends_wait ts t (wakes ! k) \<longrightarrow>
       (\<exists>n ps r' ops rest. poll_fds ts put fk (Some l) nfds t r wakes = Some (Inr n, ps, r', ops, rest) \<and>
          length wakes \<le> length rest + k + 1 \<and> length rest < length wakes)))"
proof (cases at_once)
  case True
  then show ?thesis using poll_at_once [of t nfds l fk r ts put wakes] assms(4) by auto
next
  case False
  let ?fds = "map cleared (take nfds l)"
  have w: "watches_stdin ?fds" "\<forall>p\<in>set ?fds. prevents p = 0"
    using False assms(4) by (auto simp: watches_stdin_def)
  have h: "t \<noteq> 0" "0 < sint t \<longrightarrow> arm ts RUBY_TIMER_ID t" "snd (poll_pass fk r ?fds) = 0"
    using False assms(4) by auto
  have ends: "\<exists>n ps r' ops rest. poll_fds ts put fk (Some l) nfds t r wakes = Some (Inr n, ps, r', ops, rest) \<and>
      length wakes \<le> length rest + k + 1 \<and> length rest < length wakes"
    if k: "k < length wakes" "ends_wait ts t (wakes ! k)" for k
  proof -
    from poll_loop_returns [OF assms(1) w(2,1) assms(2,3) k, where fk = fk and armed = False and
        expired = False and ops = "[]" and watching = True]
    obtain n ps r' ops rest where run: "poll_loop ts put fk t True ?fds False False r [] wakes
        = Some (n, ps, r', ops, rest)" "length wakes \<le> length rest + k + 1" by blast
    from poll_loop_waited [OF h this(1)] this show ?thesis unfolding poll_fds_Some using w(1) by simp
  qed
  have waits: "poll_fds ts put fk (Some l) nfds t r wakes = None" if "\<forall>w\<in>set wakes. \<not> ends_wait ts t w"
    using poll_loop_waits [OF assms(1) w(2,1) h(1,2) assms(2) h(3) that, of False "[]"] w(1)
    unfolding poll_fds_Some by simp
  have "poll_fds ts put fk (Some l) nfds t r wakes \<noteq> None \<longleftrightarrow> (\<exists>w\<in>set wakes. ends_wait ts t w)"
    using ends waits by (metis in_set_conv_nth option.distinct(1))
  then show ?thesis using False ends by simp
qed

lemma demo_poll_idle:
  "watches_stdin (take 2 demo_poll_fds)"
  "snd (poll_pass (initial_fds ()) empty_ring (map cleared (take 2 demo_poll_fds))) = 0"
  by (auto simp: demo_poll_fds_def watches_stdin_def POLLIN_def poll_one_def readable_def serial_has_input_def
      empty_ring_def Let_def POLLOUT_def)

theorem poll_returns_witness:
  "(\<exists>n ps ops. poll_fds demo_time demo_server (initial_fds ()) (Some demo_poll_fds) 2 0 empty_ring [] =
     Some (Inr n, ps, empty_ring, ops, [])) \<and>
   poll_fds demo_time demo_server (initial_fds ()) (Some demo_poll_fds) 2 5 empty_ring [(0, []), (4, [])] = None \<and>
   (\<exists>n ps r' ops rest. poll_fds demo_time demo_server (initial_fds ()) (Some demo_poll_fds) 2 5 empty_ring
     [(0, []), (0x10, []), (0, [65])] = Some (Inr n, ps, r', ops, rest) \<and> 1 \<le> length rest)"
proof -
  let ?wakes = "[(0, []), (0x10, []), (0, [65])] :: wake list" and ?idle = "[(0, []), (4, [])] :: wake list"
  have w: "\<forall>w\<in>set ([] :: wake list). length (snd w) < RING_SIZE" "\<forall>w\<in>set ?wakes. length (snd w) < RING_SIZE"
    "\<forall>w\<in>set ?idle. length (snd w) < RING_SIZE"
    by (auto simp: RING_SIZE_def)
  have e: "1 < length ?wakes" "ends_wait demo_time 5 (?wakes ! 1)" "\<not> (\<exists>w\<in>set ?idle. ends_wait demo_time 5 w)"
    by (auto simp: ends_wait_def demo_time_def)
  have no: "False \<longleftrightarrow> (5 :: u64) = 0 \<or> \<not> watches_stdin (take 2 demo_poll_fds) \<or>
      0 < snd (poll_pass (initial_fds ()) empty_ring (map cleared (take 2 demo_poll_fds))) \<or>
      (0 < sint (5 :: u64) \<and> \<not> arm demo_time RUBY_TIMER_ID 5)"
    using demo_poll_idle by (simp add: demo_time_def)
  have yes: "True \<longleftrightarrow> (0 :: u64) = 0 \<or> \<not> watches_stdin (take 2 demo_poll_fds) \<or>
      0 < snd (poll_pass (initial_fds ()) empty_ring (map cleared (take 2 demo_poll_fds))) \<or>
      (0 < sint (0 :: u64) \<and> \<not> arm demo_time RUBY_TIMER_ID 0)" by simp
  have "\<exists>n ps ops. poll_fds demo_time demo_server (initial_fds ()) (Some demo_poll_fds) 2 0 empty_ring [] =
      Some (Inr n, ps, empty_ring, ops, [])"
    using poll_returns [OF demo_server_ok empty_ring_ok w(1) yes] by simp
  moreover have "poll_fds demo_time demo_server (initial_fds ()) (Some demo_poll_fds) 2 5 empty_ring ?idle = None"
    using poll_returns [OF demo_server_ok empty_ring_ok w(3) no, THEN conjunct1] e(3) by blast
  moreover have "\<exists>n ps r' ops rest. poll_fds demo_time demo_server (initial_fds ()) (Some demo_poll_fds) 2 5 empty_ring ?wakes
      = Some (Inr n, ps, r', ops, rest) \<and> length ?wakes \<le> length rest + 1 + 1 \<and> length rest < length ?wakes"
    using poll_returns [OF demo_server_ok empty_ring_ok w(2) no, THEN conjunct2, THEN conjunct2] e(1,2) by blast
  ultimately show ?thesis by fastforce
qed

lemma poll_ms_exact:
  "sint (poll_timeout_ns ms) = (if sint ms < 0 then - 1 else sint ms * 1000000)"
proof (cases "sint ms < 0")
  case True
  then show ?thesis by (simp add: poll_timeout_ns_def)
next
  case False
  have "sint ms < 2 ^ 31" using sint_lt [of ms] by simp
  with False have b: "- (2 ^ 63) \<le> sint ms * 1000000" "sint ms * 1000000 < 2 ^ 63" by simp_all
  have "sint (scast ms :: u64) = sint ms"
    using False b by (simp add: signed_scast_eq signed_take_bit_int_eq_self)
  then show ?thesis
    using False b by (simp add: poll_timeout_ns_def sint_word_ariths signed_take_bit_int_eq_self)
qed

text \<open>
  C40: the timeouts in nanoseconds. The conversion of \<open>poll\<close>'s milliseconds never
  overflows: a negative one blocks and every other one is exact. That of \<open>ppoll\<close> is exact
  precisely as long as the nanoseconds fit a signed 64-bit word, a null pointer blocks,
  and the first second past the limit turns into a negative timeout, which blocks for
  ever instead of for 292 years.
\<close>

theorem poll_timeouts_exact:
  "sint (poll_timeout_ns ms) = (if sint ms < 0 then - 1 else sint ms * 1000000) \<and>
   sint (ppoll_timeout_ns None) = - 1 \<and>
   (sint (ppoll_timeout_ns (Some (sec, nsec))) = sint sec * 1000000000 + sint nsec \<longleftrightarrow>
     - (2 ^ 63) \<le> sint sec * 1000000000 + sint nsec \<and> sint sec * 1000000000 + sint nsec < 2 ^ 63) \<and>
   sint (ppoll_timeout_ns (Some (9223372037, 0))) < 0"
proof (intro conjI)
  show "sint (poll_timeout_ns ms) = (if sint ms < 0 then - 1 else sint ms * 1000000)" by (rule poll_ms_exact)
  have "sint (sec * 1000000000 + nsec) = signed_take_bit 63 (sint sec * 1000000000 + sint nsec)"
    using signed_take_bit_add [of 63 "sint sec * 1000000000" "sint nsec"]
    by (simp add: sint_word_ariths) (simp add: sint_uint)
  then show "sint (ppoll_timeout_ns (Some (sec, nsec))) = sint sec * 1000000000 + sint nsec \<longleftrightarrow>
     - (2 ^ 63) \<le> sint sec * 1000000000 + sint nsec \<and> sint sec * 1000000000 + sint nsec < 2 ^ 63"
    by (simp add: ppoll_timeout_ns_def signed_take_bit_int_eq_self_iff)
qed (simp_all add: ppoll_timeout_ns_def)

end
