(* ===== verification/Console_Tty.thy ===== *)
theory Console_Tty
  imports Poll_Wait
begin

text \<open>
  The console shims of \<^verbatim>\<open>stub/ruby_syscall_tty.c\<close>: the stored terminal attributes, the
  parser of cursor position reports, and the one measurement of the screen behind
  \<open>ioctl (TIOCGWINSZ)\<close>.

  The measurement talks to the terminal through \<open>poll\<close>, \<open>read\<close> and \<open>write\<close>. It is
  modelled over any world \<open>'w\<close> with a \<open>poll\<close> and a one-byte \<open>read\<close> of standard input;
  \<open>own_poll\<close> and \<open>own_read\<close> are the ones this component links. The bytes written are
  the result. Characters are bytes.
\<close>

section \<open>State\<close>

record termios =
  c_iflag :: u32
  c_oflag :: u32
  c_cflag :: u32
  c_lflag :: u32
  c_line :: byte
  c_cc :: "byte list"
  c_ispeed :: u32
  c_ospeed :: u32

record console =
  console_termios :: termios
  console_termios_ready :: bool
  console_rows :: u16
  console_cols :: u16
  console_size_known :: bool

definition CONSOLE_ROWS :: u16 where "CONSOLE_ROWS = 24"
definition CONSOLE_COLS :: u16 where "CONSOLE_COLS = 80"
definition CONSOLE_QUERY_TIMEOUT_MS :: u32 where "CONSOLE_QUERY_TIMEOUT_MS = 200"

definition zero_termios :: termios where
  "zero_termios = \<lparr>c_iflag = 0, c_oflag = 0, c_cflag = 0, c_lflag = 0, c_line = 0,
     c_cc = replicate 32 0, c_ispeed = 0, c_ospeed = 0\<rparr>"

definition initial_console :: console where
  "initial_console = \<lparr>console_termios = zero_termios, console_termios_ready = False,
     console_rows = CONSOLE_ROWS, console_cols = CONSOLE_COLS, console_size_known = False\<rparr>"

definition is_console :: "int \<Rightarrow> bool" where
  "is_console fd \<longleftrightarrow> fd = 0 \<or> fd = 1 \<or> fd = 2"

definition ICRNL :: u32 where "ICRNL = 0x100"
definition OPOST :: u32 where "OPOST = 1"
definition ONLCR :: u32 where "ONLCR = 4"
definition CS8 :: u32 where "CS8 = 0x30"
definition CREAD :: u32 where "CREAD = 0x80"
definition ISIG :: u32 where "ISIG = 1"
definition ICANON :: u32 where "ICANON = 2"
definition ECHO :: u32 where "ECHO = 8"
definition VTIME :: nat where "VTIME = 5"
definition VMIN :: nat where "VMIN = 6"

definition console_termios_init :: "console \<Rightarrow> console" where
  "console_termios_init c =
     (if console_termios_ready c then c
      else c\<lparr>console_termios := zero_termios\<lparr>c_iflag := ICRNL, c_oflag := OPOST OR ONLCR,
               c_cflag := CS8 OR CREAD, c_lflag := ISIG OR ICANON OR ECHO,
               c_cc := ((c_cc zero_termios)[VMIN := 1])[VTIME := 0]\<rparr>,
             console_termios_ready := True\<rparr>)"

section \<open>Cursor position reports\<close>

text \<open>The first loop: skip to just after the first \<open>ESC [\<close>.\<close>

fun skip_to_csi :: "byte list \<Rightarrow> byte list option" where
  "skip_to_csi (a # b # bs) = (if a = 0x1b \<and> b = 0x5b then Some bs else skip_to_csi (b # bs))"
| "skip_to_csi [a] = None"
| "skip_to_csi [] = None"

text \<open>
  The second loop: \<open>v0\<close> and \<open>v1\<close> are the two values, \<open>field\<close> says whether the second is
  being read, \<open>digits\<close> counts the digits of the current one.
\<close>

fun parse_fields :: "u32 \<Rightarrow> u32 \<Rightarrow> bool \<Rightarrow> nat \<Rightarrow> byte list \<Rightarrow> (u32 \<times> u32) option" where
  "parse_fields v0 v1 field digits [] = None"
| "parse_fields v0 v1 field digits (c # cs) =
     (if 0x30 \<le> c \<and> c \<le> 0x39
      then (if field then parse_fields v0 (v1 * 10 + ucast (c - 0x30)) field (digits + 1) cs
            else parse_fields (v0 * 10 + ucast (c - 0x30)) v1 field (digits + 1) cs)
      else if c = 0x3b \<and> \<not> field \<and> 0 < digits then parse_fields v0 v1 True 0 cs
      else if c = 0x52 \<and> field \<and> 0 < digits then Some (v0, v1)
      else None)"

definition parse_cursor_report :: "byte list \<Rightarrow> (u32 \<times> u32) option" where
  "parse_cursor_report buf =
     (case skip_to_csi buf of None \<Rightarrow> None | Some bs \<Rightarrow> parse_fields 0 0 False 0 bs)"

section \<open>Measuring the console\<close>

definition query :: "byte list" where
  "query = [0x1b, 0x5b, 0x73, 0x1b, 0x5b, 0x39, 0x39, 0x39, 0x3b, 0x39, 0x39, 0x39, 0x48,
     0x1b, 0x5b, 0x36, 0x6e]"

definition restore :: "byte list" where "restore = [0x1b, 0x5b, 0x75]"

text \<open>
  The read loop with \<open>n\<close> free bytes left in the buffer of 31. A \<open>read\<close> gives a byte, end
  of file (\<open>Inr None\<close>) or an error. \<open>None\<close> is a \<open>poll\<close> that never returns.
\<close>

fun query_loop ::
    "('w \<Rightarrow> (int \<times> 'w) option) \<Rightarrow> ('w \<Rightarrow> byte option result \<times> 'w) \<Rightarrow> nat \<Rightarrow> byte list \<Rightarrow> 'w \<Rightarrow>
       (byte list \<times> 'w) option" where
  "query_loop poll1 read1 0 buf w = Some (buf, w)"
| "query_loop poll1 read1 (Suc n) buf w =
     (case poll1 w of
        None \<Rightarrow> None
      | Some (ready, w1) \<Rightarrow>
          if ready \<le> 0 then Some (buf, w1)
          else let (r, w2) = read1 w1 in
            (case r of
               Inr (Some b) \<Rightarrow>
                 if b = 0x52 then Some (buf @ [b], w2)
                 else query_loop poll1 read1 n (buf @ [b]) w2
             | Inr None \<Rightarrow> Some (buf, w2)
             | Inl e \<Rightarrow> Some (buf, w2)))"

text \<open>The bytes written to standard output come second in the result.\<close>

definition measure_console ::
    "('w \<Rightarrow> (int \<times> 'w) option) \<Rightarrow> ('w \<Rightarrow> byte option result \<times> 'w) \<Rightarrow> console \<Rightarrow> 'w \<Rightarrow>
       (console \<times> byte list list \<times> 'w) option" where
  "measure_console poll1 read1 c w =
     (let c1 = c\<lparr>console_size_known := True\<rparr> in
      case query_loop poll1 read1 31 [] w of
        None \<Rightarrow> None
      | Some (buf, w1) \<Rightarrow>
          let c2 = (case parse_cursor_report buf of
                      Some (rows, cols) \<Rightarrow>
                        if rows > 0 \<and> cols > 0
                        then c1\<lparr>console_rows := ucast rows, console_cols := ucast cols\<rparr> else c1
                    | None \<Rightarrow> c1)
          in Some (c2, [query, restore], w1))"

section \<open>Terminal calls\<close>

definition isatty :: "int \<Rightarrow> int result" where
  "isatty fd = (if is_console fd then Inr 1 else Inl ENOTTY)"

definition tcgetattr :: "int \<Rightarrow> bool \<Rightarrow> console \<Rightarrow> termios result \<times> console" where
  "tcgetattr fd t_null c =
     (if \<not> is_console fd then (Inl ENOTTY, c)
      else if t_null then (Inl EFAULT, c)
      else let c1 = console_termios_init c in (Inr (console_termios c1), c1))"

definition tcsetattr :: "int \<Rightarrow> int \<Rightarrow> termios option \<Rightarrow> console \<Rightarrow> int result \<times> console" where
  "tcsetattr fd optional_actions t c =
     (if \<not> is_console fd then (Inl ENOTTY, c)
      else case t of
        None \<Rightarrow> (Inl EFAULT, c)
      | Some v \<Rightarrow> let c1 = console_termios_init c in (Inr 0, c1\<lparr>console_termios := v\<rparr>))"

record winsize =
  ws_row :: u16
  ws_col :: u16
  ws_xpixel :: u16
  ws_ypixel :: u16

datatype tty_request = TIOCGWINSZ | TIOCSWINSZ | Request_other int

definition tty_request_of :: "int \<Rightarrow> tty_request" where
  "tty_request_of n = (if n = 0x5413 then TIOCGWINSZ else if n = 0x5414 then TIOCSWINSZ else Request_other n)"

text \<open>The window size stored through the argument, when the request is for it.\<close>

definition ioctl ::
    "('w \<Rightarrow> (int \<times> 'w) option) \<Rightarrow> ('w \<Rightarrow> byte option result \<times> 'w) \<Rightarrow> int \<Rightarrow> int \<Rightarrow> bool \<Rightarrow> console \<Rightarrow> 'w \<Rightarrow>
       (winsize option result \<times> console \<times> byte list list \<times> 'w) option" where
  "ioctl poll1 read1 fd request arg_null c w =
     (if \<not> is_console fd then Some (Inl ENOTTY, c, [], w)
      else case tty_request_of request of
        TIOCGWINSZ \<Rightarrow>
          if arg_null then Some (Inl EFAULT, c, [], w)
          else (case (if fd = 0 \<and> \<not> console_size_known c
                      then measure_console poll1 read1 c w else Some (c, [], w)) of
                  None \<Rightarrow> None
                | Some (c1, out, w1) \<Rightarrow>
                    Some (Inr (Some \<lparr>ws_row = console_rows c1, ws_col = console_cols c1,
                      ws_xpixel = 0, ws_ypixel = 0\<rparr>), c1, out, w1))
      | TIOCSWINSZ \<Rightarrow> Some (Inr None, c, [], w)
      | Request_other n \<Rightarrow> Some (Inl ENOTTY, c, [], w))"

section \<open>The calls this component links\<close>

text \<open>
  \<open>poll\<close> of standard input and \<open>read\<close> of one byte from it, as defined in
  \<^verbatim>\<open>ruby_syscall_poll.c\<close>. The world is the descriptor tables, the ring and the wake-ups
  still to come.
\<close>

definition own_poll ::
    "time_server \<Rightarrow> (byte list \<Rightarrow> serial_ring \<Rightarrow> serial_ring) \<Rightarrow> 'w fake_fds \<times> serial_ring \<times> wake list \<Rightarrow>
       (int \<times> ('w fake_fds \<times> serial_ring \<times> wake list)) option" where
  "own_poll ts put w =
     (let (fk, r, wakes) = w in
      case ruby_sys_poll ts put fk (Some [\<lparr>pfd = 0, pevents = POLLIN, prevents = 0\<rparr>]) 1
             CONSOLE_QUERY_TIMEOUT_MS r wakes of
        None \<Rightarrow> None
      | Some (Inl e, _, r1, _, ws) \<Rightarrow> Some (- 1, (fk, r1, ws))
      | Some (Inr n, _, r1, _, ws) \<Rightarrow> Some (int n, (fk, r1, ws)))"

definition own_read ::
    "'w os_calls \<Rightarrow> 'w fake_fds \<times> serial_ring \<times> wake list \<Rightarrow>
       byte option result \<times> ('w fake_fds \<times> serial_ring \<times> wake list)" where
  "own_read os w =
     (let (fk, r, wakes) = w in
      case read_fd os 0 False 1 fk of
        (Inl e, fk1) \<Rightarrow> (Inl e, (fk1, r, wakes))
      | (Inr [], fk1) \<Rightarrow> (Inr None, (fk1, r, wakes))
      | (Inr (b # _), fk1) \<Rightarrow> (Inr (Some b), (fk1, r, wakes)))"

section \<open>Printing and parsing a report\<close>

fun dec_bytes :: "nat \<Rightarrow> byte list" where
  "dec_bytes n = (if n < 10 then [of_nat (48 + n)] else dec_bytes (n div 10) @ [of_nat (48 + n mod 10)])"

declare dec_bytes.simps [simp del]

definition report_bytes :: "nat \<Rightarrow> nat \<Rightarrow> byte list" where
  "report_bytes rows cols = [0x1b, 0x5b] @ dec_bytes rows @ [0x3b] @ dec_bytes cols @ [0x52]"

lemma digit_byte:
  assumes "k < 10"
  shows "0x30 \<le> (of_nat (48 + k) :: byte)" and "(of_nat (48 + k) :: byte) \<le> 0x39"
    and "ucast ((of_nat (48 + k) :: byte) - 0x30) = (of_nat k :: u32)"
    and "of_nat (48 + k) \<noteq> (0x52 :: byte)"
proof -
  have "k = 0 \<or> k = 1 \<or> k = 2 \<or> k = 3 \<or> k = 4 \<or> k = 5 \<or> k = 6 \<or> k = 7 \<or> k = 8 \<or> k = 9"
    using assms by presburger
  then show "0x30 \<le> (of_nat (48 + k) :: byte)" "(of_nat (48 + k) :: byte) \<le> 0x39"
    "ucast ((of_nat (48 + k) :: byte) - 0x30) = (of_nat k :: u32)" "of_nat (48 + k) \<noteq> (0x52 :: byte)"
    by (elim disjE; simp)+
qed

lemma dec_bytes_nonempty: "0 < length (dec_bytes n)"
  by (subst dec_bytes.simps) simp

lemma dec_step: "of_nat (n div 10) * 10 + of_nat (n mod 10) = (of_nat n :: u32)"
  by (metis div_mult_mod_eq of_nat_add of_nat_mult of_nat_numeral)

lemma parse_first:
  "parse_fields 0 v1 False d (dec_bytes n @ rest) =
     parse_fields (of_nat n) v1 False (d + length (dec_bytes n)) rest"
proof (induction n arbitrary: rest rule: dec_bytes.induct)
  case (1 n)
  show ?case
  proof (cases "n < 10")
    case True
    then show ?thesis using digit_byte [OF True] by (simp add: dec_bytes.simps [of n])
  next
    case False
    have "n mod 10 < 10" by simp
    note D = digit_byte [OF this]
    have eq: "dec_bytes n = dec_bytes (n div 10) @ [of_nat (48 + n mod 10)]"
      using False by (simp add: dec_bytes.simps [of n])
    show ?thesis unfolding eq append_assoc "1.IH" [OF False]
      using D by (simp add: dec_step del: of_nat_add)
  qed
qed

lemma parse_second:
  "parse_fields v0 0 True d (dec_bytes n @ rest) =
     parse_fields v0 (of_nat n) True (d + length (dec_bytes n)) rest"
proof (induction n arbitrary: rest rule: dec_bytes.induct)
  case (1 n)
  show ?case
  proof (cases "n < 10")
    case True
    then show ?thesis using digit_byte [OF True] by (simp add: dec_bytes.simps [of n])
  next
    case False
    have "n mod 10 < 10" by simp
    note D = digit_byte [OF this]
    have eq: "dec_bytes n = dec_bytes (n div 10) @ [of_nat (48 + n mod 10)]"
      using False by (simp add: dec_bytes.simps [of n])
    show ?thesis unfolding eq append_assoc "1.IH" [OF False]
      using D by (simp add: dec_step del: of_nat_add)
  qed
qed

lemma skip_junk: "skip_to_csi junk = None \<Longrightarrow> skip_to_csi (junk @ 0x1b # 0x5b # bs) = Some bs"
  by (induction junk rule: skip_to_csi.induct) (auto split: if_splits)

text \<open>
  C23: a cursor position report is read back: for any two numbers, the bytes
  \<open>ESC [ rows ; cols R\<close> parse to them, modulo the width of \<open>unsigned int\<close>, whatever
  follows the report and whatever comes before it that is not itself an \<open>ESC [\<close>.
\<close>

theorem cursor_report_roundtrip:
  assumes "skip_to_csi junk = None"
  shows "parse_cursor_report (junk @ report_bytes rows cols @ rest) = Some (of_nat rows, of_nat cols)"
  using skip_junk [OF assms, of "dec_bytes rows @ 0x3b # dec_bytes cols @ 0x52 # rest"]
    dec_bytes_nonempty [of rows] dec_bytes_nonempty [of cols]
  by (simp add: parse_cursor_report_def report_bytes_def parse_first parse_second)

theorem cursor_report_roundtrip_witness:
  "parse_cursor_report ([0x71, 0x1b] @ report_bytes 50 132 @ [0x78]) = Some (50, 132)"
  using cursor_report_roundtrip [of "[0x71, 0x1b]" 50 132] by simp

section \<open>The measurement\<close>








lemma own_poll_stream:
  assumes "server_ok put" and "ring_ok r"
    and "length (ring_pending r) + length (concat (map snd wakes)) < RING_SIZE"
    and "own_poll ts put (fk, r, wakes) = Some (n, (fk', r', rest))"
  shows "fk' = fk" and "\<exists>seen. wakes = seen @ rest \<and> ring_pending r' = ring_pending r @ concat (map snd seen)"
    and "ring_ok r'"
proof -
  let ?p = "[\<lparr>pfd = 0, pevents = POLLIN, prevents = 0\<rparr>] :: pollfd list"
  show "fk' = fk" using assms(4) unfolding own_poll_def by (auto simp: Let_def split: option.splits sum.splits)
  obtain k ps ops where "poll_loop ts put fk (poll_timeout_ns CONSOLE_QUERY_TIMEOUT_MS)
      (watches_stdin (map cleared (take 1 ?p))) (map cleared (take 1 ?p)) False False r [] wakes
      = Some (k, ps, r', ops, rest)"
    using assms(4) unfolding own_poll_def ruby_sys_poll_def poll_fds_Some
    by (auto split: option.splits)
  from poll_loop_stream [OF assms(1-3) this]
  show "\<exists>seen. wakes = seen @ rest \<and> ring_pending r' = ring_pending r @ concat (map snd seen)" "ring_ok r'"
    by blast+
qed

lemma own_poll_now:
  assumes "serial_has_input r"
  shows "\<exists>n>0. own_poll ts put (fk, r, wakes) = Some (n, (fk, r, wakes))"
proof -
  let ?p = "[\<lparr>pfd = 0, pevents = POLLIN, prevents = 0\<rparr>] :: pollfd list"
  have "watches_stdin (map cleared (take 1 ?p))" by (simp add: watches_stdin_def POLLIN_def)
  note ready = input_is_ready [OF this assms, of fk]
  have "\<exists>n>0. \<exists>ps ops. ruby_sys_poll ts put fk (Some ?p) 1 CONSOLE_QUERY_TIMEOUT_MS r wakes =
      Some (Inr n, ps, r, ops, wakes)"
    unfolding ruby_sys_poll_def poll_fds_Some by (subst poll_loop_stop) (use ready in auto)
  then show ?thesis by (auto simp: own_poll_def)
qed









lemma demo_measure:
  assumes "serial_has_input r"
  shows "measure_console (own_poll demo_time demo_server) (own_read no_os) c (initial_fds (), r, []) =
    Some (c\<lparr>console_size_known := True\<rparr>, [query, restore], (initial_fds (), r, []))"
proof -
  obtain n where p: "own_poll demo_time demo_server (initial_fds (), r, []) = Some (n, (initial_fds (), r, []))"
    using own_poll_now [OF assms] by blast
  have "fake_eventfd_from_fd (initial_fds ()) 0 = None"
    by (simp add: fake_eventfd_from_fd_def initial_fds_def first_index_None)
  then have "own_read no_os (initial_fds (), r, []) = (Inl EBADF, (initial_fds (), r, []))"
    by (simp add: own_read_def read_fd_def syscall_def no_os_def)
  with p show ?thesis by (simp add: measure_console_def eval_nat_numeral Let_def parse_cursor_report_def)
qed

text \<open>
  C36: with the calls this component links, the measurement learns nothing. Its \<open>read\<close> of
  standard input is the system call, since only \<open>readv\<close> is connected to the ring; when
  that call fails, as it does where the system installs no handler for it, the size stays
  as it was and is marked known for good, and every byte of the terminal's answer is
  still pending, to be read as if it had been typed.
\<close>

theorem measure_console_leaves_reply:
  assumes "server_ok put" and "ring_ok r"
    and "length (ring_pending r) + length (concat (map snd wakes)) < RING_SIZE"
    and "fake_eventfd_from_fd fk 0 = None" and "\<And>w. \<exists>e w'. os_read os 0 False 1 w = (Inl e, w')"
    and "measure_console (own_poll ts put) (own_read os) c (fk, r, wakes) = Some (c', out, (fk', r', rest))"
  shows "c' = c\<lparr>console_size_known := True\<rparr> \<and> out = [query, restore] \<and>
    (\<exists>seen. wakes = seen @ rest \<and> ring_pending r' = ring_pending r @ concat (map snd seen))"
proof -
  obtain n fk1 r1 ws where p: "own_poll ts put (fk, r, wakes) = Some (n, (fk1, r1, ws))"
    using assms(6) by (auto simp: measure_console_def eval_nat_numeral Let_def split: option.splits)
  note S = own_poll_stream [OF assms(1-3) p]
  obtain e fk2 where rd: "own_read os (fk1, r1, ws) = (Inl e, (fk2, r1, ws))"
    using assms(4) assms(5) [of "os_world fk"] S(1) by (auto simp: own_read_def read_fd_def syscall_def)
  have q: "query_loop (own_poll ts put) (own_read os) 31 [] (fk, r, wakes) =
      Some ([], (if n \<le> 0 then fk1 else fk2, r1, ws))"
    using p rd by (simp add: eval_nat_numeral)
  have "c' = c\<lparr>console_size_known := True\<rparr>" "out = [query, restore]" "r' = r1" "rest = ws"
    using assms(6) unfolding measure_console_def q by (simp_all add: Let_def parse_cursor_report_def)
  with S(2) show ?thesis by blast
qed

theorem measure_console_leaves_reply_witness:
  "ring_pending (demo_server (report_bytes 50 132) empty_ring) = report_bytes 50 132 \<and>
   (\<exists>c out fk' r' rest. measure_console (own_poll demo_time demo_server) (own_read no_os)
       initial_console (initial_fds (), demo_server (report_bytes 50 132) empty_ring, []) = Some (c, out, (fk', r', rest)) \<and>
     console_rows c = 24 \<and> console_cols c = 80 \<and> ring_pending r' = report_bytes 50 132)"
proof -
  let ?r = "demo_server (report_bytes 50 132) empty_ring"
  have len: "length (report_bytes 50 132) = 9" by (simp add: report_bytes_def dec_bytes.simps)
  have r: "ring_ok ?r" "ring_pending ?r = report_bytes 50 132"
    using demo_server_ok empty_ring_ok len unfolding server_ok_def by (auto simp: empty_ring_pending RING_SIZE_def)
  have h: "length (ring_pending ?r) + length (concat (map snd ([] :: wake list))) < RING_SIZE"
    "fake_eventfd_from_fd (initial_fds ()) 0 = None" "\<exists>e w'. os_read no_os 0 False 1 w = (Inl e, w')" for w :: unit
    using r(2) len by (simp_all add: RING_SIZE_def fake_eventfd_from_fd_def initial_fds_def first_index_None no_os_def)
  have has: "serial_has_input ?r" using ring.has_iff [OF r(1)] r(2) len by auto
  obtain c out fk' r' rest where run: "measure_console (own_poll demo_time demo_server) (own_read no_os)
       initial_console (initial_fds (), ?r, []) = Some (c, out, (fk', r', rest))"
    using demo_measure [OF has] by blast
  from measure_console_leaves_reply [OF demo_server_ok r(1) h run]
  have "c = initial_console\<lparr>console_size_known := True\<rparr>" "ring_pending r' = report_bytes 50 132"
    using r(2) by auto
  with run r(2) show ?thesis by (auto simp: initial_console_def CONSOLE_ROWS_def CONSOLE_COLS_def)
qed

text \<open>
  Terminal attributes are stored and handed back: after \<open>tcsetattr\<close> on any of the
  three console descriptors, \<open>tcgetattr\<close> on any of them returns the value set, before any
  \<open>tcsetattr\<close> it returns the cooked default with one-byte reads, and on any other
  descriptor both fail with \<open>ENOTTY\<close> and change nothing.
\<close>

lemma termios_roundtrip:
  "(is_console fd \<and> is_console fd' \<longrightarrow>
      fst (tcgetattr fd' False (snd (tcsetattr fd act (Some t) c))) = Inr t \<and>
      (\<exists>d. fst (tcgetattr fd False initial_console) = Inr d \<and> c_lflag d = 11 \<and> c_cc d ! 6 = 1)) \<and>
   (\<not> is_console fd \<longrightarrow>
      tcsetattr fd act (Some t) c = (Inl ENOTTY, c) \<and> tcgetattr fd False c = (Inl ENOTTY, c))"
  by (simp add: tcgetattr_def tcsetattr_def console_termios_init_def initial_console_def zero_termios_def
      ISIG_def ICANON_def ECHO_def VMIN_def VTIME_def Let_def)

end
