(* ===== verification/Console_Session.thy ===== *)
theory Console_Session
  imports Console_Tty
begin

text \<open>
  The console over a whole session. A state is the console of \<^verbatim>\<open>stub/ruby_syscall_tty.c\<close>, the
  fake descriptors and the ring of \<^verbatim>\<open>stub/ruby_syscall_poll.c\<close>, with the history the
  program can observe: the bytes \<open>readv\<close> has handed out, the bytes the server has stored,
  the sequences the measurement has written, and the terminal attributes last set. The
  steps are the calls of both files in any order, each with what arrives while it runs, and
  the arrival of bytes between them.
\<close>

section \<open>Steps\<close>

record 'w session =
  s_console :: console
  s_fds :: "'w fake_fds"
  s_ring :: serial_ring
  s_got :: "byte list"
  s_came :: "byte list"
  s_out :: "byte list list"
  s_attrs :: termios

definition room_for :: "serial_ring \<Rightarrow> byte list \<Rightarrow> bool" where
  "room_for r bs \<longleftrightarrow> length (ring_pending r) + length bs < RING_SIZE"

abbreviation stored :: "wake list \<Rightarrow> byte list" where
  "stored wakes \<equiv> concat (map snd wakes)"

inductive console_call ::
    "time_server \<Rightarrow> (byte list \<Rightarrow> serial_ring \<Rightarrow> serial_ring) \<Rightarrow> 'w os_calls \<Rightarrow>
       'w session \<Rightarrow> 'w session \<Rightarrow> bool"
  for ts :: time_server and put :: "byte list \<Rightarrow> serial_ring \<Rightarrow> serial_ring" and os :: "'w os_calls" where
  arrival: "room_for (s_ring s) bs \<Longrightarrow>
    console_call ts put os s (s\<lparr>s_ring := put bs (s_ring s), s_came := s_came s @ bs\<rparr>)"
| polling: "room_for (s_ring s) (stored (seen @ rest)) \<Longrightarrow>
    ruby_sys_poll ts put (s_fds s) fds nfds ms (s_ring s) (seen @ rest) = Some (res, ps, r, ops, rest) \<Longrightarrow>
    console_call ts put os s (s\<lparr>s_ring := r, s_came := s_came s @ stored seen\<rparr>)"
| ppolling: "room_for (s_ring s) (stored (seen @ rest)) \<Longrightarrow>
    ruby_sys_ppoll ts put (s_fds s) fds nfds tmo (s_ring s) (seen @ rest) = Some (res, ps, r, ops, rest) \<Longrightarrow>
    console_call ts put os s (s\<lparr>s_ring := r, s_came := s_came s @ stored seen\<rparr>)"
| reading: "room_for (s_ring s) (concat (seen @ rest)) \<Longrightarrow>
    readv os put 0 iov iovcnt (s_fds s) (s_ring s) (seen @ rest) = Some (res, fk, r, rest) \<Longrightarrow>
    console_call ts put os s (s\<lparr>s_fds := fk, s_ring := r, s_got := s_got s @ handed_out res,
      s_came := s_came s @ concat seen\<rparr>)"
| get_attrs: "console_call ts put os s (s\<lparr>s_console := snd (tcgetattr fd t_null (s_console s))\<rparr>)"
| set_attrs: "tcsetattr fd act t (s_console s) = (res, c) \<Longrightarrow>
    console_call ts put os s (s\<lparr>s_console := c,
      s_attrs := (if res = Inr 0 then the t else s_attrs s)\<rparr>)"
| control: "room_for (s_ring s) (stored (seen @ rest)) \<Longrightarrow>
    ioctl (own_poll ts put) (own_read os) fd request arg_null (s_console s) (s_fds s, s_ring s, seen @ rest) =
      Some (res, c, out, (fk, r, rest)) \<Longrightarrow>
    console_call ts put os s (s\<lparr>s_console := c, s_fds := fk, s_ring := r,
      s_came := s_came s @ stored seen, s_out := s_out s @ out\<rparr>)"

text \<open>
  A session: these calls, and anything else the program does with the fake descriptors and
  the world behind them.
\<close>

inductive session_step ::
    "time_server \<Rightarrow> (byte list \<Rightarrow> serial_ring \<Rightarrow> serial_ring) \<Rightarrow> 'w os_calls \<Rightarrow>
       'w session \<Rightarrow> 'w session \<Rightarrow> bool"
  for ts :: time_server and put :: "byte list \<Rightarrow> serial_ring \<Rightarrow> serial_ring" and os :: "'w os_calls" where
  here: "console_call ts put os s s' \<Longrightarrow> session_step ts put os s s'"
| elsewhere: "fds_ok fk \<Longrightarrow> session_step ts put os s (s\<lparr>s_fds := fk\<rparr>)"

definition cooked :: termios where
  "cooked = console_termios (console_termios_init initial_console)"

definition initial_session :: "'w \<Rightarrow> serial_ring \<Rightarrow> 'w session" where
  "initial_session w r = \<lparr>s_console = initial_console, s_fds = initial_fds w, s_ring = r,
     s_got = [], s_came = ring_pending r, s_out = [], s_attrs = cooked\<rparr>"

section \<open>The stream\<close>

text \<open>Where the calls stand in the stream: what they saw arrive is pending, and nothing else changed.\<close>

lemma poll_fds_stream:
  assumes "server_ok put" and "ring_ok r" and "room_for r (stored wakes)"
    and "poll_fds ts put fk fds nfds t r wakes = Some (res, ps, r', ops, rest)"
  shows "ring_ok r' \<and> (\<exists>seen. wakes = seen @ rest \<and> ring_pending r' = ring_pending r @ stored seen)"
proof (cases "fds = None \<and> nfds \<noteq> 0")
  case True
  then show ?thesis using assms(2,4) by (auto simp: poll_fds_def)
next
  case False
  with assms(4) obtain w l n where
    "poll_loop ts put fk t w l False False r [] wakes = Some (n, ps, r', ops, rest)"
    by (auto simp: poll_fds_def Let_def)
  from poll_loop_stream [OF assms(1,2) assms(3) [unfolded room_for_def] this] show ?thesis by blast
qed

lemma query_loop_stream:
  assumes put: "server_ok put"
    and "ring_ok r" and "fds_ok fk" and "room_for r (stored wakes)"
    and "query_loop (own_poll ts put) (own_read os) n buf (fk, r, wakes) = Some (buf', (fk', r', rest))"
  shows "fds_ok fk' \<and> ring_ok r' \<and> (\<exists>seen. wakes = seen @ rest \<and> ring_pending r' = ring_pending r @ stored seen)"
  using assms(2-)
proof (induction n arbitrary: buf fk r wakes)
  case 0
  then show ?case by simp
next
  case (Suc n)
  obtain k fk1 r1 ws where p: "own_poll ts put (fk, r, wakes) = Some (k, (fk1, r1, ws))"
    using Suc.prems(4) by (auto split: option.splits)
  note S = own_poll_stream [OF put Suc.prems(1) Suc.prems(3) [unfolded room_for_def] p]
  obtain seen1 where seen1: "wakes = seen1 @ ws" "ring_pending r1 = ring_pending r @ stored seen1"
    using S(2) by blast
  obtain x fk2 where rd: "own_read os (fk1, r1, ws) = (x, (fk2, r1, ws))" "fds_ok fk2"
    using read_fd_ok [OF Suc.prems(2), of os 0 False 1] S(1)
    by (fastforce simp: own_read_def split: prod.splits sum.splits list.splits)
  have room: "room_for r1 (stored ws)" using Suc.prems(3) seen1 by (simp add: room_for_def)
  show ?case
  proof (cases "0 < k \<and> (\<exists>b. x = Inr (Some b) \<and> b \<noteq> 0x52)")
    case True
    then obtain b where "query_loop (own_poll ts put) (own_read os) n (buf @ [b]) (fk2, r1, ws) =
        Some (buf', (fk', r', rest))"
      using Suc.prems(4) p rd by auto
    from Suc.IH [OF S(3) rd(2) room this] obtain seen2 where
      "fds_ok fk'" "ring_ok r'" "ws = seen2 @ rest" "ring_pending r' = ring_pending r1 @ stored seen2" by blast
    then show ?thesis using seen1 by (intro conjI exI [of _ "seen1 @ seen2"]) simp_all
  next
    case False
    then have "r' = r1 \<and> rest = ws \<and> (fk' = fk1 \<or> fk' = fk2)"
      using Suc.prems(4) p rd by (auto split: if_splits sum.splits option.splits)
    then show ?thesis using S(1,3) rd(2) seen1 Suc.prems(2) by auto
  qed
qed

text \<open>A request to the terminal measures it or leaves everything as it is.\<close>

definition measures :: "int \<Rightarrow> int \<Rightarrow> bool \<Rightarrow> console \<Rightarrow> bool" where
  "measures fd request arg_null c \<longleftrightarrow>
     fd = 0 \<and> tty_request_of request = TIOCGWINSZ \<and> \<not> arg_null \<and> \<not> console_size_known c"

lemma ioctl_idle:
  assumes "\<not> measures fd request arg_null c"
  shows "\<exists>res. ioctl poll1 read1 fd request arg_null c w = Some (res, c, [], w)"
  using assms by (auto simp: ioctl_def measures_def is_console_def split: tty_request.splits)

lemma ioctl_measures:
  assumes "measures fd request arg_null c"
    and "ioctl poll1 read1 fd request arg_null c w = Some (res, c', out, w')"
  shows "measure_console poll1 read1 c w = Some (c', out, w')"
  using assms by (auto simp: ioctl_def measures_def is_console_def split: option.splits)

lemma measure_stream:
  assumes "server_ok put" and "ring_ok r" and "fds_ok fk" and "room_for r (stored wakes)"
    and "measure_console (own_poll ts put) (own_read os) c (fk, r, wakes) = Some (c', out, (fk', r', rest))"
  shows "fds_ok fk' \<and> ring_ok r' \<and> (\<exists>seen. wakes = seen @ rest \<and> ring_pending r' = ring_pending r @ stored seen)"
proof -
  obtain buf where "query_loop (own_poll ts put) (own_read os) 31 [] (fk, r, wakes) = Some (buf, (fk', r', rest))"
    using assms(5) by (auto simp: measure_console_def Let_def split: option.splits)
  from query_loop_stream [OF assms(1-4) this] show ?thesis .
qed

lemma ioctl_stream:
  assumes "server_ok put" and "ring_ok r" and "fds_ok fk" and "room_for r (stored wakes)"
    and run: "ioctl (own_poll ts put) (own_read os) fd request arg_null c (fk, r, wakes) =
      Some (res, c', out, (fk', r', rest))"
  shows "fds_ok fk' \<and> ring_ok r' \<and> (\<exists>seen. wakes = seen @ rest \<and> ring_pending r' = ring_pending r @ stored seen)"
proof (cases "measures fd request arg_null c")
  case True
  from measure_stream [OF assms(1-4) ioctl_measures [OF True run]] show ?thesis .
next
  case False
  from ioctl_idle [OF this, of "own_poll ts put" "own_read os" "(fk, r, wakes)"] run assms(2,3)
  show ?thesis by auto
qed

definition stream_ok :: "'w session \<Rightarrow> bool" where
  "stream_ok s \<longleftrightarrow> fds_ok (s_fds s) \<and> ring_ok (s_ring s) \<and> s_got s @ ring_pending (s_ring s) = s_came s"

lemma console_call_stream:
  assumes "console_call ts put os s s'" and "server_ok put" and "stream_ok s"
  shows "stream_ok s'"
  using assms(1,3)
proof (induction rule: console_call.induct)
  case (arrival s bs)
  then have "ring_ok (put bs (s_ring s))" "ring_pending (put bs (s_ring s)) = ring_pending (s_ring s) @ bs"
    using assms(2) unfolding server_ok_def stream_ok_def room_for_def by blast+
  then show ?case using arrival(2) by (auto simp: stream_ok_def)
next
  case (polling s seen rest fds nfds ms res ps r ops)
  from poll_fds_stream [OF assms(2) _ polling(1)] polling(2,3) show ?case
    by (fastforce simp: stream_ok_def ruby_sys_poll_def)
next
  case (ppolling s seen rest fds nfds tmo res ps r ops)
  from poll_fds_stream [OF assms(2) _ ppolling(1)] ppolling(2,3) show ?case
    by (fastforce simp: stream_ok_def ruby_sys_ppoll_def)
next
  case (reading s seen rest iov iovcnt res fk r)
  then have ok: "ring_ok (s_ring s)" "s_came s = s_got s @ ring_pending (s_ring s)" by (simp_all add: stream_ok_def)
  have R: "fk = s_fds s" "ring_ok r" "ring_pending (s_ring s) @ concat seen = handed_out res @ ring_pending r"
    using readv_stdin_stream [OF assms(2) ok(1) reading(1) [unfolded room_for_def] reading(2)] by auto
  have "s_got s @ handed_out res @ ring_pending r = s_came s @ concat seen"
    unfolding ok(2) append_assoc R(3) ..
  then show ?case using R(1,2) reading(3) by (simp add: stream_ok_def)
next
  case (control s seen rest fd request arg_null res c out fk r)
  from ioctl_stream [OF assms(2) _ _ control(1,2)] control(3) show ?case by (auto simp: stream_ok_def)
qed (simp_all add: stream_ok_def)


section \<open>The terminal\<close>

text \<open>
  The attributes that a call reads are those last set, cooked at first. The measurement has
  been made once or not at all, and the size is the default until then, and for good where
  the system offers no \<open>read\<close> of standard input.
\<close>

definition terminal_ok :: "'w session \<Rightarrow> bool" where
  "terminal_ok s \<longleftrightarrow>
     console_termios (console_termios_init (s_console s)) = s_attrs s \<and>
     s_out s = (if console_size_known (s_console s) then [query, restore] else []) \<and>
     (\<not> console_size_known (s_console s) \<longrightarrow>
        console_rows (s_console s) = CONSOLE_ROWS \<and> console_cols (s_console s) = CONSOLE_COLS)"

definition default_size :: "'w session \<Rightarrow> bool" where
  "default_size s \<longleftrightarrow> console_rows (s_console s) = CONSOLE_ROWS \<and> console_cols (s_console s) = CONSOLE_COLS"

definition no_read :: "'w os_calls \<Rightarrow> bool" where
  "no_read os \<longleftrightarrow> (\<forall>w. \<exists>e w'. os_read os 0 False 1 w = (Inl e, w'))"

lemma termios_init_props [simp]:
  "console_termios_init (console_termios_init c) = console_termios_init c"
  "console_size_known (console_termios_init c) = console_size_known c"
  "console_rows (console_termios_init c) = console_rows c"
  "console_cols (console_termios_init c) = console_cols c"
  "console_termios_ready (console_termios_init c)"
  by (simp_all add: console_termios_init_def)

lemma termios_ready_init: "console_termios_ready c \<Longrightarrow> console_termios_init c = c"
  by (simp add: console_termios_init_def)

lemma measure_console_fields:
  assumes "measure_console poll1 read1 c w = Some (c', out, w')"
  shows "console_size_known c'" and "out = [query, restore]"
    and "console_termios c' = console_termios c" and "console_termios_ready c' = console_termios_ready c"
  using assms by (auto simp: measure_console_def Let_def split: option.splits if_splits)

text \<open>When the system call fails, a measurement learns nothing and moves the world as that call does.\<close>

lemma measure_console_blind:
  assumes "fds_ok fk" and "os_read os 0 False 1 (os_world fk) = (Inl e, v)"
    and "measure_console (own_poll ts put) (own_read os) c (fk, r, wakes) = Some (c', out, (fk', w'))"
  shows "c' = c\<lparr>console_size_known := True\<rparr>" and "fk' = fk \<or> fk' = fk\<lparr>os_world := v\<rparr>"
proof -
  obtain k fk1 r1 ws where p: "own_poll ts put (fk, r, wakes) = Some (k, (fk1, r1, ws))"
    using assms(3) by (auto simp: measure_console_def eval_nat_numeral Let_def split: option.splits)
  have fk1: "fk1 = fk" using p unfolding own_poll_def by (auto simp: Let_def split: option.splits sum.splits)
  have nf: "fake_eventfd_from_fd fk 0 = None" using not_fake(1) [OF assms(1), of 0] by simp
  have "own_read os (fk1, r1, ws) = (Inl e, (fk\<lparr>os_world := v\<rparr>, r1, ws))"
    using nf assms(2) by (simp add: fk1 own_read_def read_fd_def syscall_def)
  with p have "query_loop (own_poll ts put) (own_read os) 31 [] (fk, r, wakes) =
      Some ([], (if k \<le> 0 then fk else fk\<lparr>os_world := v\<rparr>, r1, ws))"
    by (simp add: eval_nat_numeral fk1)
  then show "c' = c\<lparr>console_size_known := True\<rparr>" "fk' = fk \<or> fk' = fk\<lparr>os_world := v\<rparr>"
    using assms(3) by (auto simp: measure_console_def Let_def parse_cursor_report_def)
qed

lemma console_call_terminal:
  assumes "console_call ts put os s s'" and "terminal_ok s"
  shows "terminal_ok s'"
  using assms
proof (induction rule: console_call.induct)
  case (get_attrs s fd t_null)
  then show ?case by (auto simp: terminal_ok_def tcgetattr_def Let_def)
next
  case (set_attrs fd act t s res c)
  then show ?case
    by (auto simp: terminal_ok_def tcsetattr_def Let_def termios_ready_init split: if_splits option.splits)
next
  case (control s seen rest fd request arg_null res c out fk r)
  show ?case
  proof (cases "measures fd request arg_null (s_console s)")
    case True
    note F = measure_console_fields [OF ioctl_measures [OF True control(2)]]
    have "console_termios (console_termios_init c) = console_termios (console_termios_init (s_console s))"
      using F(3,4) by (simp add: console_termios_init_def)
    moreover have "s_out s = []" using True control(3) by (simp add: terminal_ok_def measures_def)
    ultimately show ?thesis using F(1,2) control(3) by (simp add: terminal_ok_def)
  next
    case False
    from ioctl_idle [OF this, of "own_poll ts put" "own_read os" "(s_fds s, s_ring s, seen @ rest)"] control(2,3)
    show ?thesis by (auto simp: terminal_ok_def)
  qed
qed (simp_all add: terminal_ok_def)

text \<open>What a call does to the descriptors and the size where \<open>read\<close> of standard input fails.\<close>

lemma console_call_blind:
  assumes "console_call ts put os s s'" and "fds_ok (s_fds s)"
    and "os_read os 0 False 1 (os_world (s_fds s)) = (Inl e, v)"
  shows "(s_fds s' = s_fds s \<or> s_fds s' = (s_fds s)\<lparr>os_world := v\<rparr>) \<and> (default_size s \<longrightarrow> default_size s')"
  using assms
proof (induction rule: console_call.induct)
  case (reading s seen rest iov iovcnt res fk r)
  then show ?case by (auto simp: readv_def default_size_def split: option.splits if_splits)
next
  case (get_attrs s fd t_null)
  then show ?case by (auto simp: default_size_def tcgetattr_def Let_def)
next
  case (set_attrs fd act t s res c)
  then show ?case by (auto simp: default_size_def tcsetattr_def Let_def split: if_splits option.splits)
next
  case (control s seen rest fd request arg_null res c out fk r)
  show ?case
  proof (cases "measures fd request arg_null (s_console s)")
    case True
    from measure_console_blind [OF control(3,4) ioctl_measures [OF True control(2)]] show ?thesis
      by (simp add: default_size_def)
  next
    case False
    from ioctl_idle [OF this, of "own_poll ts put" "own_read os" "(s_fds s, s_ring s, seen @ rest)"] control(2)
    show ?thesis by (auto simp: default_size_def)
  qed
qed (simp_all add: default_size_def)

definition session_ok :: "'w os_calls \<Rightarrow> 'w session \<Rightarrow> bool" where
  "session_ok os s \<longleftrightarrow> stream_ok s \<and> terminal_ok s \<and> (no_read os \<longrightarrow> default_size s)"

lemma session_step_ok:
  assumes "session_step ts put os s s'" and "server_ok put" and "session_ok os s"
  shows "session_ok os s'"
  using assms(1)
proof (cases rule: session_step.cases)
  case here
  have ok: "stream_ok s" "terminal_ok s" "no_read os \<longrightarrow> default_size s" "fds_ok (s_fds s)"
    using assms(3) by (simp_all add: session_ok_def stream_ok_def)
  have "no_read os \<longrightarrow> default_size s'"
    using console_call_blind [OF here ok(4)] ok(3) unfolding no_read_def by blast
  then show ?thesis
    using console_call_stream [OF here assms(2) ok(1)] console_call_terminal [OF here ok(2)] by (simp add: session_ok_def)
next
  case (elsewhere fk)
  then show ?thesis using assms(3) by (simp add: session_ok_def stream_ok_def terminal_ok_def default_size_def)
qed

lemma initial_session_ok: "ring_ok r \<Longrightarrow> session_ok os (initial_session w r)"
  using initial_fds_ok
  by (simp add: initial_session_def session_ok_def stream_ok_def terminal_ok_def cooked_def default_size_def)
    (simp add: initial_console_def)

lemma session_reach_ok:
  assumes "(session_step ts put os)\<^sup>*\<^sup>* (initial_session w r) s" and "server_ok put" and "ring_ok r"
  shows "session_ok os s"
  by (rule steps_preserve [where I = "session_ok os", OF assms(1) initial_session_ok [OF assms(3)] session_step_ok [OF _ assms(2)]])

section \<open>What the next calls return\<close>

lemma pending_room: "ring_ok r \<Longrightarrow> room_for r []"
  by (simp add: room_for_def ring_pending_def RING_SIZE_def)

lemma next_read:
  assumes "ring_ok r" and "ring_pending r \<noteq> []" and "0 \<le> cnt"
    and "find (\<lambda>(base_null, len). len \<noteq> 0) (take (nat cnt) vs) = Some (False, capacity)"
  shows "\<exists>r'. readv os put 0 (Some vs) cnt fk r [] = Some (Inr (take (unat capacity) (ring_pending r)), fk, r', [])"
  using serial_readv_quiet [OF assms(1,4), of put] assms(2,3) by (auto simp: readv_def)

lemma next_poll:
  assumes "ms = 0 \<or> serial_has_input r"
  shows "\<exists>ps. ruby_sys_poll ts put fk (Some [\<lparr>pfd = 0, pevents = POLLIN, prevents = 0\<rparr>]) 1 ms r wakes =
    Some (Inr (if serial_has_input r then 1 else 0), ps, r, [], wakes)"
proof -
  let ?p = "[\<lparr>pfd = 0, pevents = POLLIN, prevents = 0\<rparr>] :: pollfd list"
  have pass: "snd (poll_pass fk r (map cleared (take 1 ?p))) = (if serial_has_input r then 1 else 0)"
    by (simp add: poll_one_def readable_def POLLIN_def POLLOUT_def Let_def)
  have "0 < snd (poll_pass fk r (map cleared (take 1 ?p))) \<or> False \<or> poll_timeout_ns ms = 0 \<or>
      \<not> watches_stdin (map cleared (take 1 ?p))"
    using assms unfolding pass by (auto simp: poll_timeout_ns_def)
  from poll_loop_stop [OF this] show ?thesis unfolding ruby_sys_poll_def poll_fds_Some pass by simp
qed

section \<open>Properties\<close>

text \<open>
  C8: standard input is a stream, however the program and the server interleave. Whatever
  sequence of \<open>poll\<close>, \<open>ppoll\<close>, \<open>readv\<close>, terminal calls and arrivals has led there, the bytes
  \<open>readv\<close> has handed out so far followed by those pending are exactly the bytes that came:
  none lost, repeated or reordered, by a wait or by the measurement of the screen either.
  When some are left, the next \<open>readv\<close> returns the oldest of them at once, as many as its
  first buffer holds, and a \<open>poll\<close> with any timeout reports them at once; when none are
  left, a \<open>poll\<close> that does not wait reports nothing.
\<close>

theorem stdin_session_stream:
  assumes "(session_step ts put os)\<^sup>*\<^sup>* (initial_session w r) s" and "server_ok put" and "ring_ok r"
  shows "s_got s @ ring_pending (s_ring s) = s_came s \<and>
    (\<forall>vs cnt capacity bs. length (s_got s) < length (s_came s) \<and> 0 \<le> cnt \<and>
       find (\<lambda>(base_null, len). len \<noteq> 0) (take (nat cnt) vs) = Some (False, capacity) \<and>
       bs = take (unat capacity) (drop (length (s_got s)) (s_came s)) \<longrightarrow>
       (\<exists>r'. readv os put 0 (Some vs) cnt (s_fds s) (s_ring s) [] = Some (Inr bs, s_fds s, r', []) \<and>
          session_step ts put os s (s\<lparr>s_ring := r', s_got := s_got s @ bs\<rparr>))) \<and>
    (\<forall>ms wakes. ms = 0 \<or> length (s_got s) < length (s_came s) \<longrightarrow>
       (\<exists>ps. ruby_sys_poll ts put (s_fds s) (Some [\<lparr>pfd = 0, pevents = POLLIN, prevents = 0\<rparr>]) 1 ms
          (s_ring s) wakes =
          Some (Inr (if length (s_got s) < length (s_came s) then 1 else 0), ps, s_ring s, [], wakes)))"
proof -
  have ok: "ring_ok (s_ring s)" "s_got s @ ring_pending (s_ring s) = s_came s"
    using session_reach_ok [OF assms] by (simp_all add: session_ok_def stream_ok_def)
  have pend: "ring_pending (s_ring s) = drop (length (s_got s)) (s_came s)" unfolding ok(2) [symmetric] by simp
  have some: "length (s_got s) < length (s_came s) \<longleftrightarrow> ring_pending (s_ring s) \<noteq> []" unfolding pend by auto
  then have has: "length (s_got s) < length (s_came s) \<longleftrightarrow> serial_has_input (s_ring s)"
    using ring.has_iff [OF ok(1)] by simp
  have "\<exists>r'. readv os put 0 (Some vs) cnt (s_fds s) (s_ring s) [] = Some (Inr bs, s_fds s, r', []) \<and>
      session_step ts put os s (s\<lparr>s_ring := r', s_got := s_got s @ bs\<rparr>)"
    if h: "length (s_got s) < length (s_came s)" "0 \<le> cnt"
      "find (\<lambda>(base_null, len). len \<noteq> 0) (take (nat cnt) vs) = Some (False, capacity)"
      "bs = take (unat capacity) (drop (length (s_got s)) (s_came s))" for vs cnt capacity bs
  proof -
    obtain r' where r': "readv os put 0 (Some vs) cnt (s_fds s) (s_ring s) [] = Some (Inr bs, s_fds s, r', [])"
      using next_read [OF ok(1) _ h(2,3)] h(1,4) some pend by fastforce
    from here [OF reading, of s "[]" "[]" os put "Some vs" cnt "Inr bs" "s_fds s" r' ts] r' pending_room [OF ok(1)]
    show ?thesis by (cases s) (simp add: handed_out_def)
  qed
  moreover note next_poll [of _ "s_ring s" ts put "s_fds s"]
  ultimately show ?thesis unfolding has by (intro conjI ok(2); blast)
qed

lemma reaches_one: "session_step ts put os a b \<Longrightarrow> (session_step ts put os)\<^sup>*\<^sup>* a b"
  by (rule r_into_rtranclp)

definition demo_session :: "byte list \<Rightarrow> unit session" where
  "demo_session bs = (initial_session () empty_ring)\<lparr>s_ring := demo_server bs empty_ring, s_came := bs\<rparr>"

lemma demo_arrival:
  assumes "length bs < RING_SIZE"
  shows "session_step demo_time demo_server no_os (initial_session () empty_ring) (demo_session bs)"
  using here [OF arrival, of "initial_session () empty_ring" bs demo_time demo_server no_os] assms
  by (simp add: initial_session_def demo_session_def room_for_def empty_ring_pending)

theorem stdin_session_stream_witness:
  "\<exists>r'. readv no_os demo_server 0 (Some [(False, 2)]) 1 (initial_fds ()) (demo_server [104, 105, 33] empty_ring) [] =
      Some (Inr [104, 105], initial_fds (), r', [])"
proof -
  have "session_step demo_time demo_server no_os (initial_session () empty_ring) (demo_session [104, 105, 33])"
    by (rule demo_arrival) (simp add: RING_SIZE_def)
  note S = stdin_session_stream [OF reaches_one [OF this] demo_server_ok empty_ring_ok]
  from S [THEN conjunct2, THEN conjunct1, rule_format, of 1 "[(False, 2)]" 2 "[104, 105]"]
  show ?thesis by (auto simp: demo_session_def initial_session_def)
qed

text \<open>
  C16: the terminal over a session. \<open>tcgetattr\<close> on any console descriptor returns the
  attributes last set on any of them, or the cooked default. The screen is measured at most
  once: the query is written once or never, until then the size is 24 by 80, only
  \<open>ioctl (0, TIOCGWINSZ)\<close> can start it, and afterwards, or on another console descriptor,
  the request returns the recorded size and disturbs nothing. Where the system offers no
  \<open>read\<close> of standard input, as here, the size is 24 by 80 for good.
\<close>

theorem terminal_session:
  assumes "(session_step ts put os)\<^sup>*\<^sup>* (initial_session w r) s" and "server_ok put" and "ring_ok r"
  shows "(\<forall>fd. is_console fd \<longrightarrow> fst (tcgetattr fd False (s_console s)) = Inr (s_attrs s)) \<and>
    (s_out s = [] \<or> s_out s = [query, restore]) \<and>
    (s_out s = [] \<or> no_read os \<longrightarrow> console_rows (s_console s) = 24 \<and> console_cols (s_console s) = 80) \<and>
    (\<forall>fd poll1 read1 v. is_console fd \<and> (fd \<noteq> 0 \<or> s_out s \<noteq> []) \<longrightarrow>
       ioctl poll1 read1 fd 0x5413 False (s_console s) v =
         Some (Inr (Some \<lparr>ws_row = console_rows (s_console s), ws_col = console_cols (s_console s),
           ws_xpixel = 0, ws_ypixel = 0\<rparr>), s_console s, [], v))"
proof -
  have ok: "terminal_ok s" "no_read os \<longrightarrow> default_size s"
    using session_reach_ok [OF assms] by (simp_all add: session_ok_def)
  have "fst (tcgetattr fd False (s_console s)) = Inr (s_attrs s)" if "is_console fd" for fd
    using ok that by (simp add: terminal_ok_def tcgetattr_def Let_def)
  moreover have "ioctl poll1 read1 fd 0x5413 False (s_console s) v =
      Some (Inr (Some \<lparr>ws_row = console_rows (s_console s), ws_col = console_cols (s_console s),
        ws_xpixel = 0, ws_ypixel = 0\<rparr>), s_console s, [], v)"
    if "is_console fd" "fd \<noteq> 0 \<or> s_out s \<noteq> []" for fd poll1 read1 and v :: 'b
    using ok that by (auto simp: terminal_ok_def ioctl_def tty_request_of_def split: if_splits)
  ultimately show ?thesis
    using ok by (auto simp: terminal_ok_def default_size_def CONSOLE_ROWS_def CONSOLE_COLS_def split: if_splits)
qed

text \<open>The attributes are set, the terminal has answered, and the screen is asked for.\<close>

theorem terminal_session_witness:
  "\<exists>s :: unit session. s_attrs s = zero_termios \<and> fst (tcgetattr 2 False (s_console s)) = Inr zero_termios \<and>
     s_out s = [query, restore] \<and> console_rows (s_console s) = 24 \<and>
     s_came s = report_bytes 50 132"
proof -
  let ?bs = "report_bytes 50 132"
  let ?step = "session_step demo_time demo_server (no_os :: unit os_calls)"
  have len: "length ?bs = 9" by (simp add: report_bytes_def dec_bytes.simps)
  then have room: "length ?bs < RING_SIZE" by (simp add: RING_SIZE_def)
  then have r: "ring_ok (demo_server ?bs empty_ring)" "ring_pending (demo_server ?bs empty_ring) = ?bs"
    using demo_server_ok empty_ring_ok unfolding server_ok_def by (auto simp: empty_ring_pending)
  then have has: "serial_has_input (demo_server ?bs empty_ring)" using ring.has_iff [OF r(1)] len by auto
  define s1 where "s1 = demo_session ?bs"
  define s2 where "s2 = s1\<lparr>s_console := snd (tcsetattr 1 0 (Some zero_termios) (s_console s1)), s_attrs := zero_termios\<rparr>"
  define s3 where "s3 = s2\<lparr>s_console := (s_console s2)\<lparr>console_size_known := True\<rparr>, s_out := [query, restore]\<rparr>"
  have st2: "?step s1 s2"
    using here [OF set_attrs, of 1 0 "Some zero_termios" s1 "Inr 0" "s_console s2" demo_time demo_server no_os]
    by (simp add: s2_def tcsetattr_def is_console_def Let_def)
  have f: "s_fds s2 = initial_fds ()" "s_ring s2 = demo_server ?bs empty_ring" "s_out s2 = []" "s_came s2 = ?bs"
    "\<not> console_size_known (s_console s2)"
    by (simp_all add: s2_def s1_def demo_session_def initial_session_def tcsetattr_def is_console_def Let_def
        initial_console_def)
  have "\<exists>x. ioctl (own_poll demo_time demo_server) (own_read no_os) 0 0x5413 False (s_console s2)
      (initial_fds (), demo_server ?bs empty_ring, []) =
      Some (x, s_console s3, [query, restore], (initial_fds (), demo_server ?bs empty_ring, []))"
    using f(5) by (simp add: ioctl_def is_console_def tty_request_of_def demo_measure [OF has] s3_def)
  then obtain x where "ioctl (own_poll demo_time demo_server) (own_read no_os) 0 0x5413 False (s_console s2)
      (s_fds s2, s_ring s2, [] @ []) = Some (x, s_console s3, [query, restore], (s_fds s2, s_ring s2, []))"
    unfolding f by auto
  from here [OF control [OF _ this]] have st3: "?step s2 s3"
    using pending_room [OF r(1)] f by (cases s2) (simp add: s3_def)
  have "?step\<^sup>*\<^sup>* (initial_session () empty_ring) s3"
    using demo_arrival [OF room] st2 st3 unfolding s1_def by (meson rtranclp.rtrancl_refl rtranclp.rtrancl_into_rtrancl)
  note T = terminal_session [OF this demo_server_ok empty_ring_ok]
  have "fst (tcgetattr 2 False (s_console s3)) = Inr zero_termios"
    using T [THEN conjunct1, rule_format, of 2] by (simp add: is_console_def s3_def s2_def)
  moreover have "console_rows (s_console s3) = 24"
    using T [THEN conjunct2, THEN conjunct2, THEN conjunct1] by (simp add: no_read_def no_os_def)
  ultimately show ?thesis
    by (intro exI [of _ s3]) (simp add: s3_def f, simp add: s2_def)
qed

end
