(* ===== verification/Whole_Component.thy ===== *)
theory Whole_Component
  imports Component_Machine Console_Session
begin

text \<open>
  All of the component at once: the machine of \<open>Component_Machine\<close>, with the archive files,
  the heap and the fake descriptors, and the console calls of \<open>Console_Session\<close>, with the ring
  and the terminal, taking turns in any order over one set of descriptor tables and one
  heap. A \<open>readv\<close> of standard input stores what it takes from the ring in a block the
  program holds. What \<open>poll\<close>, \<open>tcgetattr\<close> and \<open>ioctl\<close> store through their pointers is left to
  the write steps of the heap.
\<close>

section \<open>Steps\<close>

inductive whole_step ::
    "addr \<Rightarrow> cpio_layout \<Rightarrow> 'f fdlib \<Rightarrow> cpio \<Rightarrow> ('f \<times> heap) os_calls \<Rightarrow> time_server \<Rightarrow>
       (byte list \<Rightarrow> serial_ring \<Rightarrow> serial_ring) \<Rightarrow>
       ('f \<times> heap) session \<times> files \<times> addr set \<Rightarrow> ('f \<times> heap) session \<times> files \<times> addr set \<Rightarrow> bool"
  for A :: addr and ly :: cpio_layout and lib :: "'f fdlib" and ar :: cpio and os :: "('f \<times> heap) os_calls"
    and ts :: time_server and put :: "byte list \<Rightarrow> serial_ring \<Rightarrow> serial_ring" where
  on_component: "component_step A ly lib ar os (s_fds s, F, H) (w, F', H') \<Longrightarrow>
    whole_step A ly lib ar os ts put (s, F, H) (s\<lparr>s_fds := w\<rparr>, F', H')"
| on_console: "console_call ts put os s s' \<Longrightarrow> s_got s' = s_got s \<Longrightarrow>
    whole_step A ly lib ar os ts put (s, F, H) (s', F, H)"
| on_input: "room_for (s_ring s) (concat (seen @ rest)) \<Longrightarrow>
    q \<in> H \<Longrightarrow> unat q \<le> unat p \<Longrightarrow>
    unat p + unat capacity \<le> unat q + unat (malloc_usable_size q (comp_heap (s_fds s))) \<Longrightarrow>
    find (\<lambda>(base_null, len). len \<noteq> 0) (take (nat iovcnt) vs) = Some (False, capacity) \<Longrightarrow>
    readv os put 0 (Some vs) iovcnt (s_fds s) (s_ring s) (seen @ rest) = Some (Inr bs, fk, r, rest) \<Longrightarrow>
    whole_step A ly lib ar os ts put (s, F, H)
      (s\<lparr>s_fds := store_bytes p bs fk, s_ring := r, s_got := s_got s @ bs, s_came := s_came s @ concat seen\<rparr>, F, H)"

text \<open>
  What is relied on of the system: it has no \<open>read\<close> of standard input, and says so without
  doing anything else.
\<close>

definition quiet_stdin :: "('f \<times> heap) os_calls \<Rightarrow> ('f \<Rightarrow> bool) \<Rightarrow> bool" where
  "quiet_stdin os good \<longleftrightarrow> (\<forall>f s. good f \<longrightarrow> (\<exists>e. os_read os 0 False 1 (f, s) = (Inl e, (f, s))))"

section \<open>Every step preserves the invariants of both machines\<close>

definition whole_ok ::
    "addr \<Rightarrow> cpio_layout \<Rightarrow> 'f fdlib \<Rightarrow> cpio \<Rightarrow> ('f \<Rightarrow> bool) \<Rightarrow> ('f \<Rightarrow> int set) \<Rightarrow> mem \<Rightarrow>
       ('f \<times> heap) session \<times> files \<times> addr set \<Rightarrow> bool" where
  "whole_ok A ly lib ar good used m c \<longleftrightarrow>
     (case c of (s, F, H) \<Rightarrow> component_ok A ly lib ar good used m (s_fds s, F, H) \<and>
        stream_ok s \<and> terminal_ok s \<and> default_size s)"

lemma console_keeps_fds:
  assumes "console_call ts put os s s'" and "quiet_stdin os good"
    and "fds_ok (s_fds s)" and "good (fst (os_world (s_fds s)))"
  shows "s_fds s' = s_fds s" and "default_size s \<Longrightarrow> default_size s'"
proof -
  obtain e where "os_read os 0 False 1 (os_world (s_fds s)) = (Inl e, os_world (s_fds s))"
    using assms(2,4) unfolding quiet_stdin_def by (metis prod.collapse)
  from console_call_blind [OF assms(1,3) this]
  show "s_fds s' = s_fds s" "default_size s \<Longrightarrow> default_size s'" by auto
qed

lemma readv_stdin_bound:
  assumes "server_ok put" and "ring_ok r" and "room_for r (concat env)"
    and "find (\<lambda>(base_null, len). len \<noteq> 0) (take (nat cnt) vs) = Some (False, capacity)"
    and "readv os put 0 (Some vs) cnt fk r env = Some (Inr bs, fk', r', env')"
  shows "length bs \<le> unat capacity"
proof -
  have "serial_readv put (take (nat cnt) vs) r env = Some (Inr bs, r', env')"
    using assms(5) by (auto simp: readv_def split: if_splits)
  with serial_readv_reads [OF assms(1,2) assms(3) [unfolded room_for_def] assms(4)] show ?thesis by auto
qed

lemma whole_step_ok:
  assumes laws: "component_laws A ly lib ar os good used" and quiet: "quiet_stdin os good"
    and put: "server_ok put" and ok: "whole_ok A ly lib ar good used m (s, F, H)"
    and step: "whole_step A ly lib ar os ts put (s, F, H) (s', F', H')"
  shows "whole_ok A ly lib ar good used m (s', F', H')"
proof -
  have comp: "component_ok A ly lib ar good used m (s_fds s, F, H)" and str: "stream_ok s"
    and tty: "terminal_ok s" and size: "default_size s" using ok by (simp_all add: whole_ok_def)
  have fds: "fds_ok (s_fds s)" and good: "good (fst (os_world (s_fds s)))"
    using comp by (simp_all add: component_ok_def)
  from step show ?thesis
  proof (cases rule: whole_step.cases)
    case (on_component w)
    have C: "component_ok A ly lib ar good used m (w, F', H')" by (rule component_step_ok [OF laws comp on_component(2)])
    then have "fds_ok w" by (simp add: component_ok_def)
    with C on_component(1) str tty size show ?thesis
      by (simp add: whole_ok_def stream_ok_def terminal_ok_def default_size_def)
  next
    case on_console
    note K = console_keeps_fds [OF on_console(3) quiet fds good]
    from console_call_stream [OF on_console(3) put str] console_call_terminal [OF on_console(3) tty] K(2) [OF size] K(1)
    show ?thesis using comp on_console(1,2) by (simp add: whole_ok_def)
  next
    case (on_input seen rest q p capacity iovcnt vs bs fk r)
    have ring: "ring_ok (s_ring s)" using str by (simp add: stream_ok_def)
    note R = readv_stdin_stream [OF put ring on_input(4) [unfolded room_for_def] on_input(9)]
    then have fk: "fk = s_fds s" by blast
    have "length bs \<le> unat capacity" by (rule readv_stdin_bound [OF put ring on_input(4,8,9)])
    then have "unat p + length bs \<le> unat q + unat (malloc_usable_size q (comp_heap (s_fds s)))" using on_input(7) by simp
    note S = store_keeps_ok(1) [OF laws comp on_input(5,6) this]
    have "console_call ts put os s (s\<lparr>s_fds := fk, s_ring := r, s_got := s_got s @ handed_out (Inr bs),
        s_came := s_came s @ concat seen\<rparr>)" by (rule reading [OF on_input(4,9)])
    from console_call_stream [OF this put str] fds tty size S on_input(1-3)
    show ?thesis by (simp add: whole_ok_def stream_ok_def terminal_ok_def default_size_def handed_out_def fk store_bytes_def)
  qed
qed

lemma whole_steps_ok:
  assumes "component_laws A ly lib ar os good used" and "quiet_stdin os good" and "server_ok put"
    and "(whole_step A ly lib ar os ts put)\<^sup>*\<^sup>* c c'" and "whole_ok A ly lib ar good used m c"
  shows "whole_ok A ly lib ar good used m c'"
  using assms(4,5)
proof (rule steps_preserve)
  show "whole_ok A ly lib ar good used m c'"
    if "whole_step A ly lib ar os ts put c c'" "whole_ok A ly lib ar good used m c" for c c'
    using whole_step_ok [OF assms(1-3), of m "fst c" "fst (snd c)" "snd (snd c)" ts "fst c'" "fst (snd c')" "snd (snd c')"]
      that by simp
qed

lemma initial_whole_ok:
  assumes "arena_at A" and "good f0" and "ring_ok r"
  shows "whole_ok A ly lib ar good used m (initial_session (f0, initial_heap m) r, Map.empty, {})"
proof -
  have i: "s_fds (initial_session (f0, initial_heap m) r) = initial_fds (f0, initial_heap m)"
    "default_size (initial_session (f0, initial_heap m) r)"
    by (simp_all add: initial_session_def default_size_def initial_console_def)
  show ?thesis
    using initial_session_ok [OF assms(3), of no_os "(f0, initial_heap m)"] component_initial [where good = good, OF assms(1,2)] i
    by (simp add: whole_ok_def session_ok_def)
qed

lemma whole_reach_ok:
  assumes "component_laws A ly lib ar os good used" and "arena_at A" and "good f0"
    and "quiet_stdin os good" and "server_ok put" and "ring_ok r"
    and "(whole_step A ly lib ar os ts put)\<^sup>*\<^sup>* (initial_session (f0, initial_heap m) r, Map.empty, {}) c"
  shows "whole_ok A ly lib ar good used m c"
  by (rule whole_steps_ok [OF assms(1,4,5,7) initial_whole_ok [where good = good, OF assms(2,3,6)]])

section \<open>Properties\<close>

lemma input_stored:
  fixes vs :: "iov list"
  assumes laws: "component_laws A ly lib ar os good used" and ok: "whole_ok A ly lib ar good used m (s, F, H)"
    and iov: "0 \<le> cnt" "find (\<lambda>(base_null, len). len \<noteq> 0) (take (nat cnt) vs) = Some (False, capacity)"
    and q: "q \<in> H" "unat q \<le> unat p" "unat p + unat capacity \<le> unat q + unat (malloc_usable_size q (comp_heap (s_fds s)))"
    and bs: "bs = take (unat capacity) (drop (length (s_got s)) (s_came s))" "length (s_got s) < length (s_came s)"
  shows "\<exists>s'. whole_step A ly lib ar os ts put (s, F, H) (s', F, H) \<and> s_got s' = s_got s @ bs \<and>
    s_came s' = s_came s \<and> loads (length bs) (hmem (comp_heap (s_fds s'))) p = bs"
proof -
  have comp: "component_ok A ly lib ar good used m (s_fds s, F, H)" and str: "stream_ok s"
    using ok by (simp_all add: whole_ok_def)
  have ring: "ring_ok (s_ring s)" and pend: "drop (length (s_got s)) (s_came s) = ring_pending (s_ring s)"
    using str by (auto simp: stream_ok_def) (metis append_eq_conv_conj)
  have ne: "ring_pending (s_ring s) \<noteq> []" using bs(2) unfolding pend [symmetric] by simp
  obtain r' where r': "readv os put 0 (Some vs) cnt (s_fds s) (s_ring s) [] = Some (Inr bs, s_fds s, r', [])"
    using next_read [OF ring ne iov, of os put "s_fds s"] bs(1) pend by auto
  have "unat p + length bs \<le> unat q + unat (malloc_usable_size q (comp_heap (s_fds s)))" using q(3) bs(1) by simp
  note S = store_keeps_ok(2) [OF laws comp q(1,2) this]
  have room: "room_for (s_ring s) (concat ([] @ []))" using pending_room [OF ring] by simp
  have run: "readv os put 0 (Some vs) cnt (s_fds s) (s_ring s) ([] @ []) = Some (Inr bs, s_fds s, r', [])" using r' by simp
  from on_input [OF room q iov(2) run, of A ly lib ar ts F] S show ?thesis by (intro exI conjI) (assumption | simp)+
qed

text \<open>
  C5: the component as a whole. In every state that its calls reach, in any order and with
  the server at work between them, the heap is well typed: each open archive descriptor has
  an object of its own that stands for its contents and position, no block the program holds
  is such an object or overlaps one or another block, the tables of fake descriptors are
  well formed, the memory outside the arena, where the archive is, has never changed, and
  the next \<open>malloc\<close> returns. At the same time the bytes read from standard input and those
  pending are the bytes that came; the terminal attributes are those last set; the size is
  24 by 80. A \<open>readv\<close> into any part of a held block is a step that takes the next bytes
  of the stream and stores them there, and leaves every open file where it was.
\<close>

theorem whole_component_typed:
  assumes "component_laws A ly lib ar os good used" and "arena_at A" and "good f0"
    and "quiet_stdin os good" and "server_ok put" and "ring_ok r"
    and "(whole_step A ly lib ar os ts put)\<^sup>*\<^sup>* (initial_session (f0, initial_heap m) r, Map.empty, {}) (s, F, H)"
  shows "heap_typed A ly lib m (s_fds s) F H \<and>
    s_got s @ ring_pending (s_ring s) = s_came s \<and>
    (\<forall>fd. is_console fd \<longrightarrow> fst (tcgetattr fd False (s_console s)) = Inr (s_attrs s)) \<and>
    console_rows (s_console s) = 24 \<and> console_cols (s_console s) = 80 \<and>
    (\<forall>(vs :: iov list) cnt capacity q p bs. 0 \<le> cnt \<and>
       find (\<lambda>(base_null, len). len \<noteq> 0) (take (nat cnt) vs) = Some (False, capacity) \<and>
       q \<in> H \<and> unat q \<le> unat p \<and>
       unat p + unat capacity \<le> unat q + unat (malloc_usable_size q (comp_heap (s_fds s))) \<and>
       bs = take (unat capacity) (drop (length (s_got s)) (s_came s)) \<and> length (s_got s) < length (s_came s) \<longrightarrow>
       (\<exists>s'. whole_step A ly lib ar os ts put (s, F, H) (s', F, H) \<and> s_got s' = s_got s @ bs \<and>
          s_came s' = s_came s \<and> loads (length bs) (hmem (comp_heap (s_fds s'))) p = bs))"
proof -
  have ok: "whole_ok A ly lib ar good used m (s, F, H)" by (rule whole_reach_ok [OF assms])
  then have "component_ok A ly lib ar good used m (s_fds s, F, H)" by (simp add: whole_ok_def)
  from component_ok_typed [OF this] have "heap_typed A ly lib m (s_fds s) F H" .
  moreover have "s_got s @ ring_pending (s_ring s) = s_came s"
    "\<forall>fd. is_console fd \<longrightarrow> fst (tcgetattr fd False (s_console s)) = Inr (s_attrs s)"
    "console_rows (s_console s) = 24" "console_cols (s_console s) = 80"
    using ok by (simp_all add: whole_ok_def stream_ok_def terminal_ok_def tcgetattr_def Let_def default_size_def
        CONSOLE_ROWS_def CONSOLE_COLS_def)
  moreover note input_stored [OF assms(1) ok]
  ultimately show ?thesis by blast
qed

text \<open>The steps of the component alone are steps of the whole.\<close>

lemma component_lift:
  assumes "(component_step A ly lib ar os)\<^sup>*\<^sup>* (s_fds s, F, H) c"
  shows "(whole_step A ly lib ar os ts put)\<^sup>*\<^sup>* (s, F, H) (s\<lparr>s_fds := fst c\<rparr>, fst (snd c), snd (snd c))"
  using assms
proof (induction rule: rtranclp_induct)
  case base
  have "s\<lparr>s_fds := s_fds s\<rparr> = s" by (cases s) simp
  then show ?case by simp
next
  case (step c c')
  have "component_step A ly lib ar os (s_fds (s\<lparr>s_fds := fst c\<rparr>), fst (snd c), snd (snd c)) (fst c', fst (snd c'), snd (snd c'))"
    using step(2) by simp
  from on_component [OF this, where ts = ts and put = put] have "whole_step A ly lib ar os ts put
      (s\<lparr>s_fds := fst c\<rparr>, fst (snd c), snd (snd c)) (s\<lparr>s_fds := fst c'\<rparr>, fst (snd c'), snd (snd c'))" by simp
  with step(3) show ?case by (rule rtranclp.rtrancl_into_rtrancl)
qed

lemma demo_quiet: "quiet_stdin demo_os demo_good"
  by (auto simp: quiet_stdin_def demo_os_def demo_good_def cpio_file_for_fd_def demo_lib_def split: option.splits)

text \<open>An open file, a block of a hundred bytes, and three characters typed.\<close>

lemma demo_whole_run:
  "\<exists>(s :: ((int list \<times> (int \<Rightarrow> muslcsys_fd)) \<times> heap) session) p.
     (whole_step demo_arena demo_layout demo_lib demo_shell demo_os demo_time demo_server)\<^sup>*\<^sup>*
       (initial_session (demo_fds, initial_heap demo_text) empty_ring, Map.empty, {})
       (s, [3 \<mapsto> (loads 5 demo_text 0x1000, 0)], {p}) \<and>
     100 \<le> unat (malloc_usable_size p (comp_heap (s_fds s))) \<and> s_got s = [] \<and> s_came s = [104, 105, 33]"
proof -
  let ?step = "whole_step demo_arena demo_layout demo_lib demo_shell demo_os demo_time demo_server"
  let ?F = "[3 \<mapsto> (loads 5 demo_text 0x1000, 0)]"
  define s0 where "s0 = initial_session (demo_fds, initial_heap demo_text) empty_ring"
  obtain w p where run: "(component_step demo_arena demo_layout demo_lib demo_shell demo_os)\<^sup>*\<^sup>*
      (initial_fds (demo_fds, initial_heap demo_text), Map.empty, {}) (w, ?F, {p})"
    and big: "100 \<le> unat (malloc_usable_size p (comp_heap w))" using demo_run by blast
  have "s_fds s0 = initial_fds (demo_fds, initial_heap demo_text)" by (simp add: s0_def initial_session_def)
  with run have "(component_step demo_arena demo_layout demo_lib demo_shell demo_os)\<^sup>*\<^sup>* (s_fds s0, Map.empty, {}) (w, ?F, {p})"
    by simp
  from component_lift [OF this, of demo_time demo_server]
  have r1: "?step\<^sup>*\<^sup>* (s0, Map.empty, {}) (s0\<lparr>s_fds := w\<rparr>, ?F, {p})" by (simp only: fst_conv snd_conv)
  define s where "s = s0\<lparr>s_fds := w, s_ring := demo_server [104, 105, 33] empty_ring, s_came := [104, 105, 33]\<rparr>"
  have "console_call demo_time demo_server demo_os (s0\<lparr>s_fds := w\<rparr>) s"
    using arrival [of "s0\<lparr>s_fds := w\<rparr>" "[104, 105, 33]" demo_time demo_server demo_os]
    by (simp add: s_def s0_def initial_session_def room_for_def empty_ring_pending RING_SIZE_def)
  then have "?step (s0\<lparr>s_fds := w\<rparr>, ?F, {p}) (s, ?F, {p})" by (rule on_console) (simp add: s_def)
  with r1 have "?step\<^sup>*\<^sup>* (s0, Map.empty, {}) (s, ?F, {p})" by (rule rtranclp.rtrancl_into_rtrancl)
  moreover have "s_got s = []" "s_came s = [104, 105, 33]" "s_fds s = w" by (simp_all add: s_def s0_def initial_session_def)
  ultimately show ?thesis using big unfolding s0_def by (intro exI [of _ s] exI [of _ p]) simp
qed

theorem whole_component_typed_witness:
  "\<exists>(s :: ((int list \<times> (int \<Rightarrow> muslcsys_fd)) \<times> heap) session) p
       (s' :: ((int list \<times> (int \<Rightarrow> muslcsys_fd)) \<times> heap) session).
     heap_typed demo_arena demo_layout demo_lib demo_text (s_fds s) [3 \<mapsto> (loads 5 demo_text 0x1000, 0)] {p} \<and>
     ring_pending (s_ring s) = [104, 105, 33] \<and> s_got s' = [104, 105] \<and>
     loads 2 (hmem (comp_heap (s_fds s'))) p = [104, 105]"
proof -
  let ?F = "[3 \<mapsto> (loads 5 demo_text 0x1000, 0)]"
  obtain s :: "((int list \<times> (int \<Rightarrow> muslcsys_fd)) \<times> heap) session" and p where
    run: "(whole_step demo_arena demo_layout demo_lib demo_shell demo_os demo_time demo_server)\<^sup>*\<^sup>*
       (initial_session (demo_fds, initial_heap demo_text) empty_ring, Map.empty, {}) (s, ?F, {p})"
    and s: "100 \<le> unat (malloc_usable_size p (comp_heap (s_fds s)))" "s_got s = []" "s_came s = [104, 105, 33]"
    using demo_whole_run by blast
  note W = whole_component_typed [where s = s and F = "?F" and H = "{p}",
      OF demo_laws demo_arena_at demo_fds_good demo_quiet demo_server_ok empty_ring_ok run]
  obtain s' :: "((int list \<times> (int \<Rightarrow> muslcsys_fd)) \<times> heap) session"
    where "s_got s' = [104, 105]" "loads (Suc (Suc 0)) (hmem (comp_heap (s_fds s'))) p = [104, 105]"
    using W [THEN conjunct2, THEN conjunct2, THEN conjunct2, THEN conjunct2, THEN conjunct2, rule_format,
        of 1 "[(False, 2)]" 2 p p "[104, 105]"] s by auto
  then have "s_got s' = [104, 105] \<and> loads 2 (hmem (comp_heap (s_fds s'))) p = [104, 105]" by (simp add: numeral_2_eq_2)
  moreover have "heap_typed demo_arena demo_layout demo_lib demo_text (s_fds s) ?F {p}" "ring_pending (s_ring s) = [104, 105, 33]"
    using W s by simp_all
  ultimately show ?thesis by blast
qed

text \<open>
  C2: an open descriptor is a cursor on the bytes of its file, whatever else the program
  does. In every state the component reaches the contents \<open>F\<close> has for a descriptor are those
  of a file of the archive. A \<open>read\<close> into any part of a held block always succeeds, hands
  out the next bytes of the file and stores them there, and is the step of the machine that
  moves the position on by their number, so that no other descriptor moves and no input is
  taken; at the end it gives 0. \<open>fstat\<close> gives the length, \<open>mmap\<close> the bytes from the offset
  on, or \<open>ENOMEM\<close>, and \<open>close\<close> succeeds.
\<close>

theorem open_file_is_cursor:
  fixes s :: "('f \<times> heap) session"
  assumes "component_laws A ly lib ar os good used" and "arena_at A" and "good f0"
    and "quiet_stdin os good" and "server_ok put" and "ring_ok r"
    and "(whole_step A ly lib ar os ts put)\<^sup>*\<^sup>* (initial_session (f0, initial_heap m) r, Map.empty, {}) (s, F, H)"
    and "F fd = Some (content, pos)"
  shows "(\<exists>path. archive_content ar m path content) \<and>
    (\<forall>q p (n :: u64) bs. q \<in> H \<and> unat q \<le> unat p \<and>
       unat p + unat n \<le> unat q + unat (malloc_usable_size q (comp_heap (s_fds s))) \<and>
       bs = take (unat n) (drop pos content) \<longrightarrow>
       (\<exists>w. read_into os fd p n (s_fds s) = (Inr (of_nat (length bs)), w) \<and>
          loads (length bs) (hmem (comp_heap w)) p = bs \<and>
          whole_step A ly lib ar os ts put (s, F, H) (s\<lparr>s_fds := w\<rparr>, F(fd \<mapsto> (content, pos + length bs)), H))) \<and>
    fstat ly lib fd False (os_world (s_fds s)) = Inr (fill_regular (of_nat (length content))) \<and>
    (\<forall>flags n off. flags AND MAP_ANONYMOUS = 0 \<and> n \<noteq> 0 \<and> 0 \<le> sint off \<and> unat off \<le> length content \<longrightarrow>
       (\<exists>r s'. mmap A ly lib (fst (os_world (s_fds s))) n flags fd off (comp_heap (s_fds s)) = Some (r, s') \<and>
          (case r of Inl e \<Rightarrow> e = ENOMEM \<and> s' = comp_heap (s_fds s)
           | Inr p \<Rightarrow> p \<notin> H \<and> (\<forall>i<unat n. hmem s' (p + of_nat i) =
               (if unat off + i < length content then content ! (unat off + i) else 0))))) \<and>
    fst (close_fd os fd (s_fds s)) = Inr 0"
proof -
  have "component_ok A ly lib ar good used m (s_fds s, F, H)"
    using whole_reach_ok [OF assms(1-7)] by (simp add: whole_ok_def)
  note C = open_file_cursor [OF assms(1) this assms(8)]
  have "\<exists>w. read_into os fd p n (s_fds s) = (Inr (of_nat (length bs)), w) \<and>
      loads (length bs) (hmem (comp_heap w)) p = bs \<and>
      whole_step A ly lib ar os ts put (s, F, H) (s\<lparr>s_fds := w\<rparr>, F(fd \<mapsto> (content, pos + length bs)), H)"
    if "q \<in> H \<and> unat q \<le> unat p \<and>
       unat p + unat n \<le> unat q + unat (malloc_usable_size q (comp_heap (s_fds s))) \<and>
       bs = take (unat n) (drop pos content)" for q p bs and n :: u64
    using C [THEN conjunct2, THEN conjunct1, rule_format, OF that] on_component by metis
  with C show ?thesis by blast
qed

theorem open_file_is_cursor_witness:
  "\<exists>w p. fstat demo_layout demo_lib 3 False (os_world w) = Inr (fill_regular 5) \<and>
     fst (close_fd demo_os 3 w) = Inr 0 \<and>
     (\<exists>w'. read_into demo_os 3 p 100 w = (Inr 5, w') \<and> loads 5 (hmem (comp_heap w')) p = loads 5 demo_text 0x1000)"
proof -
  let ?F = "[3 \<mapsto> (loads 5 demo_text 0x1000, 0)]"
  obtain s :: "((int list \<times> (int \<Rightarrow> muslcsys_fd)) \<times> heap) session" and p where
    run: "(whole_step demo_arena demo_layout demo_lib demo_shell demo_os demo_time demo_server)\<^sup>*\<^sup>*
       (initial_session (demo_fds, initial_heap demo_text) empty_ring, Map.empty, {}) (s, ?F, {p})"
    and big: "100 \<le> unat (malloc_usable_size p (comp_heap (s_fds s)))" using demo_whole_run by blast
  have F: "?F 3 = Some (loads 5 demo_text 0x1000, 0)" by simp
  note C = open_file_is_cursor [where s = s and F = "?F" and H = "{p}",
      OF demo_laws demo_arena_at demo_fds_good demo_quiet demo_server_ok empty_ring_ok run F]
  have "\<exists>w'. read_into demo_os 3 p 100 (s_fds s) = (Inr 5, w') \<and> loads 5 (hmem (comp_heap w')) p = loads 5 demo_text 0x1000"
    using C [THEN conjunct2, THEN conjunct1, rule_format, of p p 100] big by auto
  moreover have "fstat demo_layout demo_lib 3 False (os_world (s_fds s)) = Inr (fill_regular 5)"
    "fst (close_fd demo_os 3 (s_fds s)) = Inr 0" using C by simp_all
  ultimately show ?thesis by blast
qed

end
