(* ===== verification/Whole_Program.thy ===== *)
theory Whole_Program
  imports Whole_Component
begin

text \<open>
  The main program inside the machine of \<open>Whole_Component\<close>. The interpreter is not part of
  the repository; all that is asked of it is that what it does with the component's state
  is a sequence of the machine's steps, whichever calls it makes and whatever is typed
  meanwhile, and that it does not free the script it is given. Then the script evaluated is
  the one linked into the image, and the invariants hold from the first instruction to the
  last.
\<close>

section \<open>The calls of the main program over a session\<close>

text \<open>\<^verbatim>\<open>ruby.c\<close> itself uses the descriptor tables and the heap only.\<close>

definition session_calls :: "'w fake_fds script_calls \<Rightarrow> 'w session script_calls" where
  "session_calls sc = \<lparr>
     sc_mem = (\<lambda>s. sc_mem sc (s_fds s)),
     sc_poke = (\<lambda>a b s. s\<lparr>s_fds := sc_poke sc a b (s_fds s)\<rparr>),
     sc_open = (\<lambda>path s. map_option (\<lambda>(r, w). (r, s\<lparr>s_fds := w\<rparr>)) (sc_open sc path (s_fds s))),
     sc_fstat = (\<lambda>fd s. case sc_fstat sc fd (s_fds s) of (r, w) \<Rightarrow> (r, s\<lparr>s_fds := w\<rparr>)),
     sc_malloc = (\<lambda>n s. map_option (\<lambda>(p, w). (p, s\<lparr>s_fds := w\<rparr>)) (sc_malloc sc n (s_fds s))),
     sc_read = (\<lambda>fd a n s. case sc_read sc fd a n (s_fds s) of (r, w) \<Rightarrow> (r, s\<lparr>s_fds := w\<rparr>)),
     sc_close = (\<lambda>fd s. s\<lparr>s_fds := sc_close sc fd (s_fds s)\<rparr>),
     sc_free = (\<lambda>a s. s\<lparr>s_fds := sc_free sc a (s_fds s)\<rparr>)\<rparr>"

lemma fds_same [simp]: "(s :: 'w session)\<lparr>s_fds := s_fds s\<rparr> = s"
  by (cases s) simp

lemma read_loop_session:
  fixes s :: "'w session"
  assumes "read_loop sc fd buffer n used w = Some y" and "s_fds s = w"
  shows "read_loop (session_calls sc) fd buffer n used s = Some (fst y, s\<lparr>s_fds := snd y\<rparr>)"
proof -
  let ?P = "\<lambda>sc fd buffer n used w y. \<forall>s :: 'w session. s_fds s = w \<longrightarrow>
    read_loop (session_calls sc) fd buffer n used s = Some (fst y, s\<lparr>s_fds := snd y\<rparr>)"
  have "?P sc fd buffer n used w y"
  proof (rule read_loop.raw_induct [where P = ?P, OF _ assms(1)], intro allI impI)
    fix loop sc fd buffer n used w y and s :: "'w session"
    assume IH: "\<And>sc fd buffer n used w y. loop sc fd buffer n used w = Some y \<Longrightarrow> ?P sc fd buffer n used w y"
      and body: "(if used + 1 < n
          then case sc_read sc fd (buffer + used) (n - used - 1) w of
              (Inl e, w1) \<Rightarrow> Some (Inl e, w1)
            | (Inr k, w1) \<Rightarrow> if k = 0 then Some (Inr used, w1) else loop sc fd buffer n (used + k) w1
          else Some (Inr used, w)) = Some y"
      and s: "s_fds s = w"
    obtain x w1 where x: "sc_read sc fd (buffer + used) (n - used - 1) w = (x, w1)" by fastforce
    then have rd: "sc_read (session_calls sc) fd (buffer + used) (n - used - 1) s = (x, s\<lparr>s_fds := w1\<rparr>)"
      using s by (simp add: session_calls_def)
    have "read_loop (session_calls sc) fd buffer n (used + k) (s\<lparr>s_fds := w1\<rparr>) = Some (fst y, s\<lparr>s_fds := snd y\<rparr>)"
      if "loop sc fd buffer n (used + k) w1 = Some y" for k
      using IH [OF that, rule_format, of "s\<lparr>s_fds := w1\<rparr>"] by simp
    then show "read_loop (session_calls sc) fd buffer n used s = Some (fst y, s\<lparr>s_fds := snd y\<rparr>)"
      using body [unfolded x prod.case] rd s by (subst read_loop.simps) (auto split: if_splits sum.splits)
  qed
  then show ?thesis using assms(2) by blast
qed

lemma session_call_simps:
  "sc_open sc path (s_fds s) = Some (r, w) \<Longrightarrow> sc_open (session_calls sc) path s = Some (r, s\<lparr>s_fds := w\<rparr>)"
  "sc_fstat sc fd (s_fds s) = (x, w) \<Longrightarrow> sc_fstat (session_calls sc) fd s = (x, s\<lparr>s_fds := w\<rparr>)"
  "sc_malloc sc n (s_fds s) = Some (p, w) \<Longrightarrow> sc_malloc (session_calls sc) n s = Some (p, s\<lparr>s_fds := w\<rparr>)"
  "sc_close (session_calls sc) fd s = s\<lparr>s_fds := sc_close sc fd (s_fds s)\<rparr>"
  "sc_free (session_calls sc) a s = s\<lparr>s_fds := sc_free sc a (s_fds s)\<rparr>"
  "sc_poke (session_calls sc) a b s = s\<lparr>s_fds := sc_poke sc a b (s_fds s)\<rparr>"
  by (simp_all add: session_calls_def)

lemma read_script_session:
  assumes "read_script sc path (s_fds s) = Some (p, evs, w')"
  shows "read_script (session_calls sc) path s = Some (p, evs, s\<lparr>s_fds := w'\<rparr>)"
proof -
  obtain r w1 where o: "sc_open sc path (s_fds s) = Some (r, w1)"
    using assms by (auto simp: read_script_def split: option.splits)
  note so = session_call_simps(1) [OF o]
  show ?thesis
  proof (cases r)
    case (Inl e)
    then show ?thesis using assms o so by (simp add: read_script_def)
  next
    case (Inr fd)
    obtain x w2 where f: "sc_fstat sc fd w1 = (x, w2)" by fastforce
    have sf: "sc_fstat (session_calls sc) fd (s\<lparr>s_fds := w1\<rparr>) = (x, s\<lparr>s_fds := w2\<rparr>)"
      using session_call_simps(2) [of sc fd "s\<lparr>s_fds := w1\<rparr>"] f by simp
    show ?thesis
    proof (cases "\<exists>n. x = Inr n \<and> \<not> sint n < 0")
      case False
      then show ?thesis using assms o so Inr f sf
        by (cases x) (auto simp: read_script_def session_call_simps(4))
    next
      case True
      then obtain n where n: "x = Inr n" "\<not> sint n < 0" by blast
      obtain b w3 where a: "sc_malloc sc (n + 1) w2 = Some (b, w3)"
        using assms o Inr f n by (auto simp: read_script_def split: option.splits)
      have sa: "sc_malloc (session_calls sc) (n + 1) (s\<lparr>s_fds := w2\<rparr>) = Some (b, s\<lparr>s_fds := w3\<rparr>)"
        using session_call_simps(3) [of sc "n + 1" "s\<lparr>s_fds := w2\<rparr>"] a by simp
      show ?thesis
      proof (cases "b = 0")
        case True
        then show ?thesis using assms o so Inr f sf n a sa by (simp add: read_script_def session_call_simps(4))
      next
        case False
        obtain y w4 where l: "read_loop sc fd b (n + 1) 0 w3 = Some (y, w4)"
          using assms o Inr f n a False by (auto simp: read_script_def split: option.splits)
        have sl: "read_loop (session_calls sc) fd b (n + 1) 0 (s\<lparr>s_fds := w3\<rparr>) = Some (y, s\<lparr>s_fds := w4\<rparr>)"
          using read_loop_session [OF l, of "s\<lparr>s_fds := w3\<rparr>"] by simp
        show ?thesis using assms o so Inr f sf n a sa False l sl
          by (cases y) (auto simp: read_script_def session_call_simps(4-6))
      qed
    qed
  qed
qed

section \<open>Reading the script is typed\<close>

text \<open>What \<open>open\<close> and \<open>close\<close> together do to the descriptor table.\<close>

lemma open_close_table:
  assumes T: "fdlib_tracks lib good used" and good: "good f"
    and run: "open_path (ruby_sys_openat A ly lib ar) path flags (f, s) = Some (r, (f1, s1))"
  shows "table_step lib good used f (case r of Inl e \<Rightarrow> f1 | Inr fd \<Rightarrow> add_free_fd lib fd f1)"
proof (cases "path = None \<or> flags AND O_ACCMODE \<noteq> O_RDONLY")
  case True
  with run have "r = Inl EFAULT \<or> r = Inl EROFS" and "f1 = f" by (auto simp: open_path_def split: if_splits)
  then show ?thesis using good by (auto simp: table_step_def)
next
  case False
  then obtain q where q: "path = Some q" "flags AND O_ACCMODE = O_RDONLY" by auto
  obtain q' where np: "normalize_path (Some q) = Some q'" by (simp add: normalize_path_def)
  have oc: "open_cpio A ly lib ar (Some q') O_RDONLY (f, s) = Some (r, (f1, s1))"
    using run unfolding q(1) open_path_archive [OF q(2) np] .
  note tb = open_cpio_table [OF T good oc]
  show ?thesis
  proof (cases r)
    case (Inr fd)
    then have fd: "fd \<notin> used f" "fd \<in> used f1" using tb(2) by auto
    have g: "good f1" "used f \<subseteq> used f1" using tb(1) by (simp_all add: table_step_def)
    note R = tracks_release [OF T g(1) fd(2)]
    have "get_fd_struct lib (add_free_fd lib fd f1) x = get_fd_struct lib f x" if "x \<in> used f" for x
    proof -
      have "x \<noteq> fd" using that fd(1) by blast
      from R(3) [OF this] tb(1) that show ?thesis by (simp add: table_step_def)
    qed
    then show ?thesis using Inr R(1,2) g(2) fd(1) by (auto simp: table_step_def)
  qed (use tb(1) in simp)
qed

lemma tracks_number:
  assumes T: "fdlib_tracks lib good used" and good: "good f"
  shows "fst (allocate_fd lib f) < 0 \<or> 2 < fst (allocate_fd lib f) \<and> fst (allocate_fd lib f) < 1000"
proof -
  obtain fd f' where a: "allocate_fd lib f = (fd, f')" by fastforce
  note A = tracks_allocate [OF T good a]
  show ?thesis
  proof (cases "fd = - EMFILE_number")
    case True
    then show ?thesis using a by (simp add: EMFILE_number_def)
  next
    case False
    then have "fd \<in> used f'" using A(4) by blast
    from tracks_range [OF T A(1) this] show ?thesis using a by simp
  qed
qed

text \<open>
  How the reading of the script ends: without a descriptor or room and with nothing new, or
  with the script in one new block.
\<close>

definition script_loaded ::
    "'f fdlib \<Rightarrow> u64 \<Rightarrow> byte list \<Rightarrow> ('f \<times> heap) fake_fds \<Rightarrow> addr set \<Rightarrow> addr \<Rightarrow> event list \<Rightarrow> mem \<Rightarrow>
       addr set \<Rightarrow> bool" where
  "script_loaded lib sz script w H p evs m H' \<longleftrightarrow>
     (if p = 0
      then scarce lib sz w \<and> H' = H \<and>
        (evs = [Printed Failed_to_open] \<or> (\<exists>fd. evs = [Opened fd, Printed Failed_to_allocate, Closed fd]))
      else p \<notin> H \<and> H' = insert p H \<and> c_string m p = Some script \<and>
        (\<exists>fd. evs = [Opened fd, Allocated p, Closed fd]))"

lemma script_read_framed:
  assumes post: "script_read A L w full bs g p evs w'" and H: "H \<subseteq> dom L"
  shows "framed A L H (comp_heap w) (comp_heap w') (if p = 0 then H else insert p H)"
proof (cases "p = 0")
  case True
  have rep: "heap_rep A (comp_heap w') L" and kp: "keeps A L (comp_heap w) (comp_heap w')"
    using post True by (simp_all add: script_read_def)
  have "keeps A (L |` (- H)) (comp_heap w) (comp_heap w')"
    by (rule keeps_mono [OF kp]) (auto simp: map_le_def restrict_map_def)
  then show ?thesis
    unfolding framed_def using rep H True by (intro exI [of _ L]) (auto simp: map_le_def restrict_map_def)
next
  case False
  obtain c where c: "L p = None" "heap_rep A (comp_heap w') (L(p \<mapsto> c))" and kp: "keeps A L (comp_heap w) (comp_heap w')"
    using post False by (auto simp: script_read_def)
  from framed_new [OF c(2,1) kp H] False show ?thesis by simp
qed

lemma script_keeps_ok:
  assumes laws: "component_laws A ly lib ar os good used" and arena: "arena_at A"
    and ok: "component_ok A ly lib ar good used m (w, F, H)"
    and ff: "find_file ar (normalize_path (Some path)) = Some (start, sz)"
  shows "\<exists>p evs w' H'. read_script (component_calls A ly lib ar os) path w = Some (p, evs, w') \<and>
    component_ok A ly lib ar good used m (w', F, H') \<and>
    script_loaded lib sz (takeWhile (\<lambda>b. b \<noteq> 0) (loads (unat sz) m start)) w H p evs (hmem (comp_heap w')) H'"
proof -
  have L: "layout_ok ly" "fdlib_ok lib" "reads_archive ly lib os" "closes_archive lib os"
    and T: "fdlib_tracks lib good used" and ar: "archive_outside A ar"
    using laws by (simp_all add: component_laws_def)
  obtain f s L D where w: "os_world w = (f, s)" and fds: "fds_ok w" and good: "good f"
    and out: "\<And>x. unat x < unat A \<or> unat A + 67108864 \<le> unat x \<Longrightarrow> hmem s x = m x"
    and O: "objects_ok A ly lib used f s L D F H"
    using ok by (rule component_okE) blast
  note o = objects_okD(1,2) [OF O]
  have lim: "unat sz < 2 ^ 32" "outside_arena A start (unat sz)"
    using ar ff unfolding archive_outside_def by blast+
  have rep: "heap_rep A (comp_heap w) L" using o(1) w by simp
  have num: "fst (allocate_fd lib (fst (os_world w))) < 0 \<or>
      2 < fst (allocate_fd lib (fst (os_world w))) \<and> fst (allocate_fd lib (fst (os_world w))) < 1000"
    using tracks_number [OF T good] w by simp
  obtain p evs w' r f1 s1 where run: "read_script (component_calls A ly lib ar os) path w = Some (p, evs, w')"
    and op: "open_path (ruby_sys_openat A ly lib ar) (Some path) O_RDONLY (f, s) = Some (r, (f1, s1))"
    and post: "script_read A L w (scarce lib sz w) (loads (unat sz) (hmem (comp_heap w)) start)
      (case r of Inl e \<Rightarrow> f1 | Inr fd \<Rightarrow> add_free_fd lib fd f1) p evs w'"
    using read_script_rep [OF rep L fds ff lim num] w by auto
  let ?g = "case r of Inl e \<Rightarrow> f1 | Inr fd \<Rightarrow> add_free_fd lib fd f1"
  obtain s' where w': "os_world w' = (?g, s')" using post by (cases "os_world w'") (simp add: script_read_def)
  have weq: "w' = w\<lparr>os_world := (?g, s')\<rparr>" using post w' by (auto simp: script_read_def)
  have bytes: "loads (unat sz) (hmem (comp_heap w)) start = loads (unat sz) m start"
    using loads_outside [OF lim(2) arena out] w by simp
  have sub: "H \<subseteq> dom L" using o(2) by blast
  have fr: "framed A L H s s' (if p = 0 then H else insert p H)" using script_read_framed [OF post sub] w w' by simp
  from component_frame_at [OF ok L(1) w open_close_table [OF T good op] O fr] weq
  have "component_ok A ly lib ar good used m (w', F, if p = 0 then H else insert p H)" by simp
  moreover have "script_loaded lib sz (takeWhile (\<lambda>b. b \<noteq> 0) (loads (unat sz) m start)) w H p evs
      (hmem (comp_heap w')) (if p = 0 then H else insert p H)"
    using post bytes sub by (auto simp: script_read_def script_loaded_def)
  ultimately show ?thesis using run by blast
qed

text \<open>The script is read in a session: the console's part of the state stays as it is.\<close>

lemma whole_fds:
  assumes "whole_ok A ly lib ar good used m (s, F, H)" and "component_ok A ly lib ar good used m (w, F', H')"
  shows "whole_ok A ly lib ar good used m (s\<lparr>s_fds := w\<rparr>, F', H')"
  using assms by (auto simp: whole_ok_def stream_ok_def terminal_ok_def default_size_def component_ok_def)

abbreviation program_calls where
  "program_calls A ly lib ar os \<equiv> session_calls (component_calls A ly lib ar os)"

lemma script_keeps_whole:
  assumes "component_laws A ly lib ar os good used" and "arena_at A"
    and ok: "whole_ok A ly lib ar good used m (s, F, H)"
    and "find_file ar (normalize_path (Some path)) = Some (start, sz)"
  shows "\<exists>p evs s' H'. read_script (program_calls A ly lib ar os) path s = Some (p, evs, s') \<and>
    whole_ok A ly lib ar good used m (s', F, H') \<and>
    script_loaded lib sz (takeWhile (\<lambda>b. b \<noteq> 0) (loads (unat sz) m start)) (s_fds s) H p evs
      (hmem (comp_heap (s_fds s'))) H'"
proof -
  have "component_ok A ly lib ar good used m (s_fds s, F, H)" using ok by (simp add: whole_ok_def)
  from script_keeps_ok [OF assms(1,2) this assms(4)] obtain p evs w' H' where
    run: "read_script (component_calls A ly lib ar os) path (s_fds s) = Some (p, evs, w')"
    and c: "component_ok A ly lib ar good used m (w', F, H')"
    and l: "script_loaded lib sz (takeWhile (\<lambda>b. b \<noteq> 0) (loads (unat sz) m start)) (s_fds s) H p evs
      (hmem (comp_heap w')) H'" by blast
  from read_script_session [OF run] whole_fds [OF ok c] l show ?thesis
    by (intro exI [of _ p] exI [of _ evs] exI [of _ "s\<lparr>s_fds := w'\<rparr>"] exI [of _ H']) simp
qed

text \<open>After the evaluation the block of the script is freed.\<close>

lemma free_keeps_whole:
  assumes laws: "component_laws A ly lib ar os good used"
    and ok: "whole_ok A ly lib ar good used m (s, F, H)" and p: "p \<in> H"
  shows "whole_ok A ly lib ar good used m (s\<lparr>s_fds := on_heap (free p) (s_fds s)\<rparr>, F, H - {p})"
proof -
  have comp: "component_ok A ly lib ar good used m (s_fds s, F, H)" using ok by (simp add: whole_ok_def)
  have "heap_step A ly lib (comp_heap (s_fds s), H) (free p (comp_heap (s_fds s)), H - {p})" by (rule step_free [OF p])
  from memory_keeps_ok [OF laws comp this] have "component_ok A ly lib ar good used m (on_heap (free p) (s_fds s), F, H - {p})"
    by (simp add: on_heap_def)
  from whole_fds [OF ok this] show ?thesis .
qed

section \<open>The property\<close>

text \<open>
  C4: the program runs the script that is linked into its image. The interpreter is any
  function \<open>eval\<close> whose first call, and whose evaluation of the script, change the
  component's state by some sequence of steps of the machine, calls of the console and
  characters typed included, and that keeps the pointer to the script. From the state at
  start-up, with an empty heap over the memory image \<open>m\<close>, the program always returns 0;
  unless descriptors or the arena have run out it hands to the interpreter exactly the bytes
  of \<open>shell.rb\<close> in \<open>m\<close> up to the first NUL, whatever the first call did to the heap, in a
  state where the script is the one new block; it closes what it opened and frees what it
  allocated, and reports an exception if and only if the evaluation says so. In the state
  it ends in the heap is well typed, and the bytes read from standard input and those
  pending are the bytes that came.
\<close>

theorem program_runs_archive_script:
  assumes laws: "component_laws A ly lib ar os good used" and "arena_at A" and "good f0"
    and "quiet_stdin os good" and "server_ok put" and "ring_ok r"
    and "file_named ar ''shell.rb'' = Some (start, sz)"
    and "eval (ascii_bytes ''$stdout.sync = true'') (initial_session (f0, initial_heap m) r) = (state0, s)"
    and "(whole_step A ly lib ar os ts put)\<^sup>*\<^sup>* (initial_session (f0, initial_heap m) r, Map.empty, {}) (s, F, H)"
    and "\<And>p s1 state s2. p \<notin> H \<Longrightarrow> whole_ok A ly lib ar good used m (s1, F, insert p H) \<Longrightarrow>
      eval (takeWhile (\<lambda>b. b \<noteq> 0) (loads (unat sz) m start)) s1 = (state, s2) \<Longrightarrow>
      \<exists>F2 H2. (whole_step A ly lib ar os ts put)\<^sup>*\<^sup>* (s1, F, insert p H) (s2, F2, H2) \<and> p \<in> H2"
  shows "\<exists>mid s' F' H'. run (program_calls A ly lib ar os) eval (initial_session (f0, initial_heap m) r) = Some (0,
      [Init_stack, Traced ''CRuby initialize'', Ruby_init, Init_enc, Init_ext, Builtin_inits,
        Traced ''ruby_init done'', Evaluated (ascii_bytes ''$stdout.sync = true'')] @ mid @
      [Traced ''Finalize CRuby'', Ruby_finalize], s') \<and>
    heap_typed A ly lib m (s_fds s') F' H' \<and> s_got s' @ ring_pending (s_ring s') = s_came s' \<and>
    (scarce lib sz (s_fds s) \<and> (F', H') = (F, H) \<and>
       (mid = [Printed Failed_to_open] \<or> (\<exists>fd. mid = [Opened fd, Printed Failed_to_allocate, Closed fd])) \<or>
     (\<exists>fd p s1 state s2. p \<notin> H \<and> p \<notin> H' \<and> heap_typed A ly lib m (s_fds s1) F (insert p H) \<and>
        eval (takeWhile (\<lambda>b. b \<noteq> 0) (loads (unat sz) m start)) s1 = (state, s2) \<and>
        s' = s2\<lparr>s_fds := on_heap (free p) (s_fds s2)\<rparr> \<and>
        mid = [Opened fd, Allocated p, Closed fd,
          Evaluated (takeWhile (\<lambda>b. b \<noteq> 0) (loads (unat sz) m start)), Freed p] @
          (if state \<noteq> 0 then [Traced ''ruby exception from CPIO script'', Printed_errinfo] else [])))"
proof -
  let ?sc = "program_calls A ly lib ar os" and ?s0 = "initial_session (f0, initial_heap m) r"
  let ?script = "takeWhile (\<lambda>b. b \<noteq> 0) (loads (unat sz) m start)"
  have typed: "heap_typed A ly lib m (s_fds s) F H \<and> s_got s @ ring_pending (s_ring s) = s_came s"
    if "whole_ok A ly lib ar good used m (s, F, H)" for s F H
    using that component_ok_typed [of A ly lib ar good used m "s_fds s" F H] by (simp add: whole_ok_def stream_ok_def)
  have ff: "find_file ar (normalize_path (Some ''/shell.rb'')) = Some (start, sz)"
    using assms(7) by (simp add: find_file_def normalize_path_def)
  have ok: "whole_ok A ly lib ar good used m (s, F, H)" by (rule whole_reach_ok [OF assms(1-6,9)])
  obtain p evs s1 H1 where rs: "read_script ?sc ''/shell.rb'' s = Some (p, evs, s1)"
    and ok1: "whole_ok A ly lib ar good used m (s1, F, H1)"
    and post: "script_loaded lib sz ?script (s_fds s) H p evs (hmem (comp_heap (s_fds s1))) H1"
    using script_keeps_whole [OF laws assms(2) ok ff] by blast
  show ?thesis
  proof (cases "p = 0")
    case True
    from run_unread [where eval = eval, OF assms(8) rs True] post True typed [OF ok1] show ?thesis
      by (intro exI [of _ evs] exI [of _ s1] exI [of _ F] exI [of _ H1]) (simp add: script_loaded_def)
  next
    case False
    then obtain fd where new: "p \<notin> H" and H1: "H1 = insert p H"
      and str: "c_string (sc_mem ?sc s1) p = Some ?script" and evs: "evs = [Opened fd, Allocated p, Closed fd]"
      using post by (auto simp: script_loaded_def session_calls_def component_call_simps)
    note ok1 = ok1 [unfolded H1]
    obtain state s2 where e: "eval ?script s1 = (state, s2)" by (metis surj_pair)
    obtain F2 H2 where steps: "(whole_step A ly lib ar os ts put)\<^sup>*\<^sup>* (s1, F, insert p H) (s2, F2, H2)" and p: "p \<in> H2"
      using assms(10) [OF new ok1 e] by blast
    let ?s' = "s2\<lparr>s_fds := on_heap (free p) (s_fds s2)\<rparr>"
    note end_ok = free_keeps_whole [OF laws whole_steps_ok [OF laws assms(4,5) steps ok1] p]
    let ?mid = "[Opened fd, Allocated p, Closed fd, Evaluated ?script, Freed p] @
      (if state \<noteq> 0 then [Traced ''ruby exception from CPIO script'', Printed_errinfo] else [])"
    have R: "run ?sc eval ?s0 = Some (0,
      [Init_stack, Traced ''CRuby initialize'', Ruby_init, Init_enc, Init_ext, Builtin_inits,
        Traced ''ruby_init done'', Evaluated (ascii_bytes ''$stdout.sync = true'')] @ ?mid @
      [Traced ''Finalize CRuby'', Ruby_finalize], ?s')"
      using run_read [where eval = eval, OF assms(8) rs False str e]
      by (simp add: evs session_calls_def component_call_simps)
    show ?thesis
      by (rule exI [of _ ?mid], rule exI [of _ ?s'], rule exI [of _ F2],
        rule exI [of _ "H2 - {p}"], intro conjI R typed [OF end_ok, THEN conjunct1] typed [OF end_ok, THEN conjunct2] disjI2,
        rule exI [of _ fd], rule exI [of _ p], rule exI [of _ s1], rule exI [of _ state], rule exI [of _ s2])
        (simp add: new e typed [OF ok1])
  qed
qed

text \<open>An interpreter that asks for the terminal attributes, and fails on the script.\<close>

definition demo_eval :: "byte list \<Rightarrow> 'w session \<Rightarrow> int \<times> 'w session" where
  "demo_eval bs s = (if bs = ascii_bytes ''$stdout.sync = true'' then 0 else 6,
     s\<lparr>s_console := snd (tcgetattr 0 False (s_console s))\<rparr>)"

lemma demo_eval_step:
  assumes "demo_eval bs s = (state, s')"
  shows "(whole_step A ly lib ar os ts put)\<^sup>*\<^sup>* (s, F, H) (s', F, H)"
proof -
  have "s' = s\<lparr>s_console := snd (tcgetattr 0 False (s_console s))\<rparr>" using assms by (simp add: demo_eval_def)
  then have "whole_step A ly lib ar os ts put (s, F, H) (s', F, H)" using on_console [OF get_attrs] by simp
  then show ?thesis by (rule r_into_rtranclp)
qed

theorem program_runs_archive_script_witness:
  "\<exists>mid s'. run (program_calls demo_arena demo_layout demo_lib demo_shell demo_os) demo_eval
      (initial_session (demo_fds, initial_heap demo_text) empty_ring) = Some (0,
      [Init_stack, Traced ''CRuby initialize'', Ruby_init, Init_enc, Init_ext, Builtin_inits,
        Traced ''ruby_init done'', Evaluated (ascii_bytes ''$stdout.sync = true'')] @ mid @
      [Traced ''Finalize CRuby'', Ruby_finalize], s') \<and>
     Evaluated [104, 101, 108, 108, 111] \<in> set mid"
proof -
  have n: "file_named demo_shell ''shell.rb'' = Some (0x1000, 5)" by (simp add: demo_shell_def)
  let ?s0 = "initial_session (demo_fds, initial_heap demo_text) empty_ring"
  obtain state0 s where e: "demo_eval (ascii_bytes ''$stdout.sync = true'') ?s0 = (state0, s)" by fastforce
  then have fds: "s_fds s = s_fds ?s0" by (auto simp: demo_eval_def)
  have plenty: "\<not> scarce demo_lib 5 (s_fds s)" unfolding fds
    by (simp add: scarce_def demo_lib_def demo_fds_def initial_session_def initial_fds_def initial_heap_def EMFILE_number_def)
  have script: "takeWhile (\<lambda>b. b \<noteq> 0) (loads (unat (5 :: u64)) demo_text 0x1000) = [104, 101, 108, 108, 111]"
    by (simp add: loads_def demo_text_def upt_rec)
  have step: "\<exists>F2 H2. (whole_step demo_arena demo_layout demo_lib demo_shell demo_os demo_time demo_server)\<^sup>*\<^sup>*
      (s1, Map.empty, insert p {}) (s2, F2, H2) \<and> p \<in> H2" if "demo_eval bs s1 = (state, s2)" for p bs s1 state s2
    using demo_eval_step [OF that] by blast
  note P = program_runs_archive_script [where eval = demo_eval and F = Map.empty and H = "{}" and ts = demo_time,
      OF demo_laws demo_arena_at demo_fds_good demo_quiet demo_server_ok empty_ring_ok n e demo_eval_step [OF e]]
  from P [OF step] plenty script
  show ?thesis by fastforce
qed

end
