(* ===== verification/Wakeups.thy ===== *)
theory Wakeups
  imports Poll_Wait
begin

text \<open>
  What the calls of \<^verbatim>\<open>stub/ruby_syscall_poll.c\<close> promise one another: a wake-up sent through
  an eventfd is seen by \<open>poll\<close>, \<open>epoll_wait\<close> and \<open>read\<close> alike, a \<open>poll\<close> that reports input
  is followed by a \<open>readv\<close> that does not wait, \<open>readv\<close> of an eventfd is a \<open>read\<close>, and the
  flags of a descriptor are one word.
\<close>

section \<open>One live eventfd\<close>

text \<open>Replacing the entry of a live eventfd by one with the same number.\<close>

lemma put_live:
  assumes "fds_ok st" and "fake_eventfd_from_fd st fd = Some i"
    and "ev_used e" and "ev_fd e = ev_fd (fake_eventfds st ! i)"
  shows "fds_ok (put_event i e st)" and "fake_eventfd_from_fd (put_event i e st) fd = Some i"
    and "fake_eventfds (put_event i e st) ! i = e"
proof -
  note i = found_eventD [OF assms(1,2)]
  show ok: "fds_ok (put_event i e st)" by (rule put_event_ok [OF assms(1) i(1)]) (simp add: assms(4) i(2))
  show nth: "fake_eventfds (put_event i e st) ! i = e"
    using i(1) assms(1) by (simp add: put_event_def fds_ok_def)
  show "fake_eventfd_from_fd (put_event i e st) fd = Some i"
    using assms(2,3) nth unfolding found_event [OF ok] found_event [OF assms(1)] by simp
qed

lemma live_used:
  "fds_ok st \<Longrightarrow> fake_eventfd_from_fd st fd = Some i \<Longrightarrow> ev_used (fake_eventfds st ! i)"
  by (simp add: found_event)

lemma live_number:
  assumes "fds_ok st" and "fake_eventfd_from_fd st fd = Some i"
  shows "fd = 1000 + int i" and "fd \<noteq> 0" and "\<not> fd < 0"
  using assms(2) unfolding found_event [OF assms(1)] by (simp_all add: FAKE_EVENTFD_BASE_def)

text \<open>A poll of one eventfd never waits: it reports the counter as it is.\<close>

lemma poll_one_eventfd:
  assumes "fds_ok st" and "fake_eventfd_from_fd st fd = Some i"
  shows "poll_fds ts put st (Some [\<lparr>pfd = fd, pevents = POLLIN, prevents = v\<rparr>]) 1 t r wakes =
    (if ev_counter (fake_eventfds st ! i) = 0
     then Some (Inr 0, [\<lparr>pfd = fd, pevents = POLLIN, prevents = 0\<rparr>], r, [], wakes)
     else Some (Inr 1, [\<lparr>pfd = fd, pevents = POLLIN, prevents = POLLIN\<rparr>], r, [], wakes))"
proof -
  note n = live_number [OF assms]
  have w: "\<not> watches_stdin [\<lparr>pfd = fd, pevents = POLLIN, prevents = 0\<rparr>]"
    using n(2) by (simp add: watches_stdin_def)
  have e: "poll_one st r \<lparr>pfd = fd, pevents = POLLIN, prevents = 0\<rparr> =
      \<lparr>pfd = fd, pevents = POLLIN, prevents = if ev_counter (fake_eventfds st ! i) = 0 then 0 else POLLIN\<rparr>"
    using n assms(2) by (simp add: poll_one_def readable_def Let_def POLLIN_def POLLOUT_def word_gt_0)
  show ?thesis
    unfolding poll_fds_Some using w e n(3)
    by (simp add: poll_loop_stop poll_pass_count POLLIN_def)
qed

section \<open>Wake-ups\<close>

lemma epoll_lists:
  assumes "fake_epoll_from_fd st epfd = Some k" and "length (watches (fake_epolls st ! k)) \<le> nat n"
    and "w \<in> set (watches (fake_epolls st ! k))" and "w_used w" and "ee_events (w_event w) AND EPOLLIN \<noteq> 0"
    and "fake_eventfd_from_fd st (w_fd w) = Some i" and "ev_counter (fake_eventfds st ! i) \<noteq> 0" and "0 < n"
  shows "\<exists>evs. epoll_wait os epfd False n timeout st = (Inr evs, st) \<and> (w_event w)\<lparr>ee_events := EPOLLIN\<rparr> \<in> set evs"
proof -
  let ?ready = "filter (\<lambda>w. w_used w \<and> ee_events (w_event w) AND EPOLLIN \<noteq> 0 \<and>
      (\<exists>i. fake_eventfd_from_fd st (w_fd w) = Some i \<and> ev_counter (fake_eventfds st ! i) \<noteq> 0))
    (watches (fake_epolls st ! k))"
  let ?evs = "map (\<lambda>w. (w_event w)\<lparr>ee_events := EPOLLIN\<rparr>) ?ready"
  have "length ?evs \<le> nat n" using assms(2) length_filter_le [of _ "watches (fake_epolls st ! k)"]
    by (metis (no_types, lifting) length_map order_trans)
  then have "take (nat n) ?evs = ?evs" by simp
  moreover have "w \<in> set ?ready" using assms(3-7) by simp
  ultimately show ?thesis
    using assms(1,8) epoll_scan_filter [of st 0 "nat n"] by (auto simp: epoll_wait_def intro!: imageI)
qed

text \<open>
  C7: a write to a live eventfd is seen at once, by every way of looking. The write
  succeeds and the counter becomes the sum \<open>c\<close> modulo \<open>2^64\<close>. If \<open>c\<close> is not zero, \<open>poll\<close>
  reports the descriptor readable at once whatever its timeout, \<open>epoll_wait\<close> lists every
  watch of it that asks for input, and \<open>read\<close> returns \<open>c\<close>, or one for a semaphore; after
  that read \<open>poll\<close> reports nothing, again at once, unless it was a semaphore with more
  left. If \<open>c\<close> is zero, by a write of zero to an empty counter or because the sum wrapped,
  there is nothing to see: \<open>poll\<close> reports nothing and \<open>read\<close> fails.
\<close>

theorem wakeup_is_seen:
  assumes "fd_reach os st" and "fake_eventfd_from_fd st fd = Some i"
    and "c = ev_counter (fake_eventfds st ! i) + v"
    and "semaphore \<longleftrightarrow> ev_flags (fake_eventfds st ! i) AND EFD_SEMAPHORE \<noteq> 0"
    and "eventfd_write os fd v st = (sent, st1)"
  shows "sent \<and>
    poll_fds ts put st1 (Some [\<lparr>pfd = fd, pevents = POLLIN, prevents = 0\<rparr>]) 1 t r wakes =
      (if c \<noteq> 0 then Some (Inr 1, [\<lparr>pfd = fd, pevents = POLLIN, prevents = POLLIN\<rparr>], r, [], wakes)
       else Some (Inr 0, [\<lparr>pfd = fd, pevents = POLLIN, prevents = 0\<rparr>], r, [], wakes)) \<and>
    (\<forall>epfd k w. c \<noteq> 0 \<and> fake_epoll_from_fd st epfd = Some k \<and> w \<in> set (watches (fake_epolls st ! k)) \<and>
       w_used w \<and> w_fd w = fd \<and> ee_events (w_event w) AND EPOLLIN \<noteq> 0 \<longrightarrow>
       (\<exists>evs. epoll_wait os epfd False 8 timeout st1 = (Inr evs, st1) \<and>
          (w_event w)\<lparr>ee_events := EPOLLIN\<rparr> \<in> set evs)) \<and>
    (\<exists>st2. eventfd_read os fd st1 = (if c = 0 then None else if semaphore then Some 1 else Some c, st2) \<and>
       poll_fds ts put st2 (Some [\<lparr>pfd = fd, pevents = POLLIN, prevents = 0\<rparr>]) 1 t r wakes =
         (if semaphore \<and> c \<noteq> 0 \<and> c \<noteq> 1
          then Some (Inr 1, [\<lparr>pfd = fd, pevents = POLLIN, prevents = POLLIN\<rparr>], r, [], wakes)
          else Some (Inr 0, [\<lparr>pfd = fd, pevents = POLLIN, prevents = 0\<rparr>], r, [], wakes)))"
proof -
  have ok: "fds_ok st" using assms(1) by (rule reach_ok)
  let ?e = "fake_eventfds st ! i"
  have st1: "st1 = put_event i (?e\<lparr>ev_counter := c\<rparr>) st" and sent: "sent"
    using assms(5) by (simp_all add: eventfd_write_def write_fd_def assms(2,3) Let_def)
  note P = put_live [OF ok assms(2), of "?e\<lparr>ev_counter := c\<rparr>", folded st1]
  have L: "fds_ok st1" "fake_eventfd_from_fd st1 fd = Some i" "fake_eventfds st1 ! i = ?e\<lparr>ev_counter := c\<rparr>"
    using P live_used [OF ok assms(2)] by simp_all
  have epoll: "\<exists>evs. epoll_wait os epfd False 8 timeout st1 = (Inr evs, st1) \<and> (w_event w)\<lparr>ee_events := EPOLLIN\<rparr> \<in> set evs"
    if w: "c \<noteq> 0" "fake_epoll_from_fd st epfd = Some k" "w \<in> set (watches (fake_epolls st ! k))" "w_used w" "w_fd w = fd"
      "ee_events (w_event w) AND EPOLLIN \<noteq> 0" for epfd k w
  proof (rule epoll_lists [where k = k and i = i])
    show "fake_epoll_from_fd st1 epfd = Some k" using w(2) by (simp add: st1 put_event_def fake_epoll_from_fd_def)
    show "length (watches (fake_epolls st1 ! k)) \<le> nat 8" and "w \<in> set (watches (fake_epolls st1 ! k))"
      using found_epollD(3) [OF ok w(2)] w(3)
      by (simp_all add: st1 put_event_def watches_ok_def FAKE_EPOLL_WATCH_COUNT_def)
  qed (use w L in simp_all)
  define left where "left = (if c = 0 \<or> \<not> semaphore then 0 else c - 1)"
  let ?st2 = "put_event i (?e\<lparr>ev_counter := left\<rparr>) st1"
  have M: "fds_ok ?st2" "fake_eventfd_from_fd ?st2 fd = Some i" "fake_eventfds ?st2 ! i = ?e\<lparr>ev_counter := left\<rparr>"
    by (rule put_live [OF L(1,2)]; use L(3) live_used [OF ok assms(2)] in simp)+
  have "put_event i (?e\<lparr>ev_counter := 0\<rparr>) st1 = st1" if "c = 0"
    unfolding that L(3) [unfolded that, symmetric] put_event_def by simp
  then have read: "eventfd_read os fd st1 = (if c = 0 then None else if semaphore then Some 1 else Some c, ?st2)"
    using L assms(4) by (simp add: eventfd_read_def read_fd_def Let_def left_def)
  have "left \<noteq> 0 \<longleftrightarrow> semaphore \<and> c \<noteq> 0 \<and> c \<noteq> 1" by (auto simp: left_def)
  then have idle: "poll_fds ts put ?st2 (Some [\<lparr>pfd = fd, pevents = POLLIN, prevents = 0\<rparr>]) 1 t r wakes =
      (if semaphore \<and> c \<noteq> 0 \<and> c \<noteq> 1
       then Some (Inr 1, [\<lparr>pfd = fd, pevents = POLLIN, prevents = POLLIN\<rparr>], r, [], wakes)
       else Some (Inr 0, [\<lparr>pfd = fd, pevents = POLLIN, prevents = 0\<rparr>], r, [], wakes))"
    unfolding poll_one_eventfd [OF M(1,2)] M(3) by auto
  have "poll_fds ts put st1 (Some [\<lparr>pfd = fd, pevents = POLLIN, prevents = 0\<rparr>]) 1 t r wakes =
      (if c \<noteq> 0 then Some (Inr 1, [\<lparr>pfd = fd, pevents = POLLIN, prevents = POLLIN\<rparr>], r, [], wakes)
       else Some (Inr 0, [\<lparr>pfd = fd, pevents = POLLIN, prevents = 0\<rparr>], r, [], wakes))"
    unfolding poll_one_eventfd [OF L(1,2)] L(3) by simp
  with sent epoll read idle show ?thesis by blast
qed

theorem wakeup_is_seen_witness:
  "\<exists>st1 st2. eventfd_write no_os 1000 37 demo_pair = (True, st1) \<and>
    eventfd_read no_os 1000 st1 = (Some 42, st2) \<and>
    poll_fds demo_time demo_server st1 (Some [\<lparr>pfd = 1000, pevents = POLLIN, prevents = 0\<rparr>]) 1 (- 1) empty_ring [] =
      Some (Inr 1, [\<lparr>pfd = 1000, pevents = POLLIN, prevents = POLLIN\<rparr>], empty_ring, [], [])"
proof -
  obtain sent st1 where run: "eventfd_write no_os 1000 37 demo_pair = (sent, st1)" by fastforce
  have h: "(42 :: u64) = ev_counter (fake_eventfds demo_pair ! 0) + 37"
    "False \<longleftrightarrow> ev_flags (fake_eventfds demo_pair ! 0) AND EFD_SEMAPHORE \<noteq> 0" by (simp_all add: demo_pair_simps)
  from wakeup_is_seen [OF demo_pair_reach demo_pair_simps(1) h run, where ts = demo_time and put = demo_server
        and t = "- 1" and r = empty_ring and wakes = "[]" and timeout = 0] run
  show ?thesis by auto
qed

section \<open>Poll, then read\<close>

text \<open>
  C9: \<open>poll\<close> tells the truth about standard input. Whatever arrived while it waited, the
  entry for descriptor 0 has \<open>POLLIN\<close> exactly when a \<open>readv\<close> into a non-empty buffer that
  follows it does not wait; and that read returns the oldest bytes of what was pending
  before the poll followed by what arrived during it, as many as the buffer holds.
\<close>

theorem poll_then_readv:
  assumes "server_ok put" and "ring_ok r"
    and "length (ring_pending r) + length (concat (map snd wakes)) < RING_SIZE"
    and "poll_fds ts put fk (Some l) nfds t r wakes = Some (res, ps, r', ops, rest)"
    and "j < length ps" and "pfd (l ! j) = 0" and "pevents (l ! j) AND POLLIN \<noteq> 0"
    and "find (\<lambda>(base_null, len). len \<noteq> 0) iov = Some (False, capacity)"
  shows "\<exists>seen. wakes = seen @ rest \<and>
    (if prevents (ps ! j) AND POLLIN = 0
     then ring_pending r @ concat (map snd seen) = [] \<and> serial_readv put iov r' [] = None
     else \<exists>r2. serial_readv put iov r' [] =
         Some (Inr (take (unat capacity) (ring_pending r @ concat (map snd seen))), r2, []) \<and>
       ring_pending r2 = drop (unat capacity) (ring_pending r @ concat (map snd seen)) \<and>
       ring_pending r @ concat (map snd seen) \<noteq> [])"
proof -
  obtain n where n: "poll_loop ts put fk t (watches_stdin (map cleared (take nfds l))) (map cleared (take nfds l))
      False False r [] wakes = Some (n, ps, r', ops, rest)"
    using assms(4) unfolding poll_fds_Some by auto
  obtain seen where seen: "wakes = seen @ rest" "ring_ok r'"
    "ring_pending r' = ring_pending r @ concat (map snd seen)"
    using poll_loop_stream [OF assms(1-3) n] by blast
  have "prevents (ps ! j) = (if serial_has_input r' then POLLIN else 0) OR
      (if pevents (l ! j) AND POLLOUT \<noteq> 0 then POLLOUT else 0)"
    using poll_reports_readiness_nth [OF assms(4,5)] assms(6,7) by (simp add: readable_def)
  then have bit: "prevents (ps ! j) AND POLLIN = 0 \<longleftrightarrow> ring_pending r' = []"
    using ring.has_iff [OF seen(2)] by (simp add: POLLIN_def POLLOUT_def)
  show ?thesis using serial_readv_quiet [OF seen(2) assms(8), of put] seen(1) bit
    unfolding seen(3) by (auto split: if_splits)
qed

lemma demo_input:
  "ring_ok (demo_server [104, 105] empty_ring)" "ring_pending (demo_server [104, 105] empty_ring) = [104, 105]"
  "serial_has_input (demo_server [104, 105] empty_ring)"
proof -
  have "length (ring_pending empty_ring) + length [104, 105 :: byte] < RING_SIZE"
    by (simp add: empty_ring_pending RING_SIZE_def)
  with demo_server_ok empty_ring_ok
  show *: "ring_ok (demo_server [104, 105] empty_ring)" "ring_pending (demo_server [104, 105] empty_ring) = [104, 105]"
    unfolding server_ok_def by (simp_all add: empty_ring_pending)
  show "serial_has_input (demo_server [104, 105] empty_ring)" using ring.has_iff [OF *(1)] *(2) by simp
qed

lemma demo_poll_input:
  "\<exists>ops. poll_fds demo_time demo_server (initial_fds ()) (Some [\<lparr>pfd = 0, pevents = POLLIN, prevents = 9\<rparr>]) 1 5
      empty_ring [(0, [104, 105])] =
    Some (Inr 1, [\<lparr>pfd = 0, pevents = POLLIN, prevents = POLLIN\<rparr>], demo_server [104, 105] empty_ring, ops, [])"
proof -
  let ?p = "\<lparr>pfd = 0, pevents = POLLIN, prevents = 0\<rparr>" and ?r = "demo_server [104, 105] empty_ring"
  have w: "watches_stdin [?p]" by (simp add: watches_stdin_def POLLIN_def)
  have idle: "poll_one (initial_fds ()) empty_ring ?p = ?p"
    by (simp add: poll_one_def readable_def serial_has_input_def empty_ring_def Let_def POLLIN_def POLLOUT_def)
  have hot: "poll_one (initial_fds ()) ?r ?p = \<lparr>pfd = 0, pevents = POLLIN, prevents = POLLIN\<rparr>"
    using demo_input(3) by (simp add: poll_one_def readable_def Let_def POLLIN_def POLLOUT_def)
  have none: "snd (poll_pass (initial_fds ()) empty_ring [?p]) = 0" and some: "snd (poll_pass (initial_fds ()) ?r [?p]) = 1"
    unfolding poll_pass_count using idle hot by (simp_all add: POLLIN_def)
  have "poll_loop demo_time demo_server (initial_fds ()) 5 True [?p] False False empty_ring [] [(0, [104, 105])] =
      poll_loop demo_time demo_server (initial_fds ()) 5 True [?p] True False ?r [Timeout_oneshot_relative RUBY_TIMER_ID 5] []"
    by (subst poll_loop_wait) (use none idle in \<open>simp_all add: demo_time_def\<close>)
  also have "\<dots> = Some (1, [\<lparr>pfd = 0, pevents = POLLIN, prevents = POLLIN\<rparr>], ?r,
      [Timeout_oneshot_relative RUBY_TIMER_ID 5, Timeout_stop RUBY_TIMER_ID], [])"
    by (subst poll_loop_stop) (use some hot in simp_all)
  finally show ?thesis unfolding poll_fds_Some using w by simp
qed

theorem poll_then_readv_witness:
  "\<exists>ps r' ops r2. poll_fds demo_time demo_server (initial_fds ()) (Some [\<lparr>pfd = 0, pevents = POLLIN, prevents = 9\<rparr>]) 1 5
      empty_ring [(0, [104, 105])] = Some (Inr 1, ps, r', ops, []) \<and>
    serial_readv demo_server [(True, 0), (False, 1)] r' [] = Some (Inr [104], r2, []) \<and> ring_pending r2 = [105]"
proof -
  obtain ops where run: "poll_fds demo_time demo_server (initial_fds ())
      (Some [\<lparr>pfd = 0, pevents = POLLIN, prevents = 9\<rparr>]) 1 5 empty_ring [(0, [104, 105])] =
    Some (Inr 1, [\<lparr>pfd = 0, pevents = POLLIN, prevents = POLLIN\<rparr>], demo_server [104, 105] empty_ring, ops, [])"
    using demo_poll_input by blast
  have h: "length (ring_pending empty_ring) + length (concat (map snd [(0 :: u64, [104, 105 :: byte])])) < RING_SIZE"
    "0 < length [\<lparr>pfd = 0, pevents = POLLIN, prevents = POLLIN\<rparr>]"
    "pfd ([\<lparr>pfd = 0, pevents = POLLIN, prevents = 9\<rparr>] ! 0) = 0"
    "pevents ([\<lparr>pfd = 0, pevents = POLLIN, prevents = 9\<rparr>] ! 0) AND POLLIN \<noteq> 0"
    "find (\<lambda>(base_null, len). len \<noteq> 0) [(True, 0), (False, 1 :: u64)] = Some (False, 1)"
    by (simp_all add: empty_ring_pending RING_SIZE_def POLLIN_def)
  from poll_then_readv [OF demo_server_ok empty_ring_ok h(1) run h(2-5)] run
  show ?thesis by (auto simp: empty_ring_pending POLLIN_def)
qed

section \<open>readv of an eventfd\<close>

text \<open>
  How many eight-byte values the buffers of a scattered read can take: one for each usable
  buffer up to the first that is null, too short or left partly empty.
\<close>

fun values_wanted :: "iov list \<Rightarrow> nat" where
  "values_wanted [] = 0"
| "values_wanted ((base_null, len) # iov) =
     (if len = 0 then values_wanted iov
      else if base_null \<or> len < 8 then 0
      else if len = 8 then Suc (values_wanted iov)
      else 1)"

lemma readv_event_drained:
  assumes "fake_eventfd_from_fd st fd = Some i" and "ev_counter (fake_eventfds st ! i) = 0" and "got \<noteq> []"
  shows "readv_event os fd iov got st = (Inr got, st)"
  using assms by (induction iov) (auto simp: read_fd_def Let_def)

lemma readv_event_first:
  assumes "fds_ok st" and "fake_eventfd_from_fd st fd = Some i"
    and "ev_flags (fake_eventfds st ! i) AND EFD_SEMAPHORE = 0 \<or>
      min (unat (ev_counter (fake_eventfds st ! i))) (values_wanted iov) = 0"
  shows "readv_event os fd iov [] st =
    (case find (\<lambda>(base_null, len). len \<noteq> 0) iov of
       None \<Rightarrow> (Inr [], st) | Some (base_null, len) \<Rightarrow> read_fd os fd base_null len st)"
  using assms(3)
proof (induction iov)
  case Nil
  then show ?case by simp
next
  case (Cons v iov)
  obtain b len where v: "v = (b, len)" by fastforce
  let ?e = "fake_eventfds st ! i" and ?st = "put_event i ((fake_eventfds st ! i)\<lparr>ev_counter := 0\<rparr>) st"
  show ?case
  proof (cases "len = 0 \<or> b \<or> len < 8 \<or> ev_counter ?e = 0")
    case True
    then show ?thesis using Cons.IH Cons.prems assms(2) unfolding v by (auto simp: read_fd_def Let_def)
  next
    case False
    then have "ev_flags ?e AND EFD_SEMAPHORE = 0"
      using Cons.prems unfolding v by (auto simp: min_def unat_eq_0 split: if_splits)
    with False have read: "read_fd os fd b len st = (Inr (le_bytes 8 (ev_counter ?e)), ?st)"
      using assms(2) by (simp add: read_fd_def Let_def)
    have P: "fake_eventfd_from_fd ?st fd = Some i" "fake_eventfds ?st ! i = ?e\<lparr>ev_counter := 0\<rparr>"
      by (rule put_live [OF assms(1,2)]; use live_used [OF assms(1,2)] in simp)+
    have "le_bytes 8 (ev_counter ?e) \<noteq> []" by (metis length_le_bytes list.size(3) zero_neq_numeral)
    then have "readv_event os fd iov (le_bytes 8 (ev_counter ?e)) ?st = (Inr (le_bytes 8 (ev_counter ?e)), ?st)"
      by (intro readv_event_drained [OF P(1)]) (simp_all add: P(2))
    then show ?thesis using False read unfolding v by simp
  qed
qed

lemma put_event_same: "fake_eventfds st ! i = e \<Longrightarrow> put_event i e st = st"
  by (simp add: put_event_def) (metis list_update_id fake_fds.surjective fake_fds.update_convs(1))

text \<open>A number of ones, as bytes, and a counter lowered by a number.\<close>

abbreviation ones :: "nat \<Rightarrow> byte list" where
  "ones k \<equiv> concat (replicate k (le_bytes 8 (1 :: u64)))"

definition lowered :: "nat \<Rightarrow> u64 \<Rightarrow> 'w fake_fds \<Rightarrow> 'w fake_fds" where
  "lowered i n st = put_event i ((fake_eventfds st ! i)\<lparr>ev_counter := ev_counter (fake_eventfds st ! i) - n\<rparr>) st"

lemma lowered_zero: "lowered i 0 st = st"
  by (simp add: lowered_def put_event_same)

lemma lowered_live:
  assumes "fds_ok st" and "fake_eventfd_from_fd st fd = Some i"
  shows "fds_ok (lowered i n st)" and "fake_eventfd_from_fd (lowered i n st) fd = Some i"
    and "fake_eventfds (lowered i n st) ! i = (fake_eventfds st ! i)\<lparr>ev_counter := ev_counter (fake_eventfds st ! i) - n\<rparr>"
  unfolding lowered_def by (rule put_live [OF assms]; use live_used [OF assms] in simp)+

lemma lowered_lowered:
  assumes "fds_ok st" and "fake_eventfd_from_fd st fd = Some i"
  shows "lowered i m (lowered i n st) = lowered i (n + m) st"
  unfolding lowered_def [of i m] lowered_live [OF assms] by (simp add: lowered_def put_event_def algebra_simps)

lemma read_semaphore:
  assumes "fake_eventfd_from_fd st fd = Some i" and "ev_flags (fake_eventfds st ! i) AND EFD_SEMAPHORE \<noteq> 0"
    and "ev_counter (fake_eventfds st ! i) \<noteq> 0" and "\<not> (base_null \<or> len < 8)"
  shows "read_fd os fd base_null len st = (Inr (le_bytes 8 (1 :: u64)), lowered i 1 st)"
  using assms by (simp add: read_fd_def Let_def lowered_def)

lemma readv_event_semaphore:
  assumes "fds_ok st" and "fake_eventfd_from_fd st fd = Some i"
    and "ev_flags (fake_eventfds st ! i) AND EFD_SEMAPHORE \<noteq> 0"
    and "k = min (unat (ev_counter (fake_eventfds st ! i))) (values_wanted iov)" and "got \<noteq> [] \<or> 0 < k"
  shows "readv_event os fd iov got st = (Inr (got @ ones k), lowered i (of_nat k) st)"
  using assms
proof (induction iov arbitrary: got st k)
  case Nil
  then show ?case by (simp add: lowered_zero)
next
  case (Cons v iov)
  obtain b len where v: "v = (b, len)" by fastforce
  let ?c = "ev_counter (fake_eventfds st ! i)"
  consider (skip) "len = 0" | (bad) "len \<noteq> 0" "b \<or> len < 8 \<or> ?c = 0"
    | (one) "len \<noteq> 0" "\<not> (b \<or> len < 8)" "?c \<noteq> 0" by blast
  then show ?case
  proof cases
    case skip
    then show ?thesis using Cons.IH [OF Cons.prems(1-3) _ Cons.prems(5)] Cons.prems(4) by (simp add: v)
  next
    case bad
    then have "k = 0" using Cons.prems(4) by (auto simp: v)
    then show ?thesis using bad Cons.prems(2,5) by (auto simp: v read_fd_def Let_def lowered_zero)
  next
    case one
    note r = read_semaphore [OF Cons.prems(2,3) one(3,2), of os]
    note L = lowered_live [OF Cons.prems(1,2)]
    have c: "unat (?c - 1) = unat ?c - 1" "0 < unat ?c" using one(3) by (simp_all add: unat_minus_one unat_gt_0)
    define m where "m = (if len = 8 then min (unat ?c - 1) (values_wanted iov) else 0)"
    have k: "k = Suc m" using Cons.prems(4) one c(2) by (auto simp: v m_def min_def)
    have ne: "got @ le_bytes 8 (1 :: u64) \<noteq> []"
      by (metis append_is_Nil_conv length_le_bytes list.size(3) zero_neq_numeral)
    have "readv_event os fd iov (got @ le_bytes 8 (1 :: u64)) (lowered i 1 st) =
        (Inr ((got @ le_bytes 8 (1 :: u64)) @ ones m), lowered i (of_nat m) (lowered i 1 st))" if "len = 8"
      by (rule Cons.IH [OF L(1,2)]) (use Cons.prems(3) ne c(1) that in \<open>simp_all add: L(3) m_def\<close>)
    then show ?thesis using r one(1) lowered_lowered [OF Cons.prems(1,2), of "of_nat m" 1]
      by (cases "len = 8") (simp_all add: v k, simp add: m_def)
  qed
qed

text \<open>
  C18: what a scattered read of an eventfd gives, whatever its buffers are. Unless the
  eventfd is a semaphore that has a value for them, it is a plain \<open>read\<close> into the first
  buffer that is not empty: the value, \<open>EINVAL\<close> for a buffer too small or null, \<open>EAGAIN\<close>
  for a counter of zero and the new counter are the same, and the other buffers are not
  used; with no such buffer nothing happens. A semaphore is read once for each usable
  buffer as long as the counter lasts, up to the first buffer that is null, shorter or
  longer than a value: the result is that many ones, and they are taken off the counter.
  Standard input is not consulted.
\<close>

theorem readv_eventfd_is_read:
  assumes "fd_reach os st" and "fake_eventfd_from_fd st fd = Some i" and "e = fake_eventfds st ! i"
    and "k = (if ev_flags e AND EFD_SEMAPHORE = 0 then 0 else min (unat (ev_counter e)) (values_wanted vs))"
  shows "readv os put fd (Some vs) (int (length vs)) st r env =
    (if 0 < k
     then Some (Inr (concat (replicate k (le_bytes 8 (1 :: u64)))),
       put_event i (e\<lparr>ev_counter := ev_counter e - of_nat k\<rparr>) st, r, env)
     else case find (\<lambda>(base_null, len). len \<noteq> 0) vs of
       None \<Rightarrow> Some (Inr [], st, r, env)
     | Some (base_null, len) \<Rightarrow>
         Some (fst (read_fd os fd base_null len st), snd (read_fd os fd base_null len st), r, env))"
proof -
  have ok: "fds_ok st" using assms(1) by (rule reach_ok)
  have "readv os put fd (Some vs) (int (length vs)) st r env =
      Some (fst (readv_event os fd vs [] st), snd (readv_event os fd vs [] st), r, env)"
    using live_number(2) [OF ok assms(2)] assms(2) by (simp add: readv_def case_prod_beta)
  moreover have "readv_event os fd vs [] st =
      (Inr (ones k), put_event i (e\<lparr>ev_counter := ev_counter e - of_nat k\<rparr>) st)" if "0 < k"
    using readv_event_semaphore [OF ok assms(2), of k vs "[]" os] that assms(3,4)
    by (auto simp: lowered_def split: if_splits)
  moreover have "readv_event os fd vs [] st =
      (case find (\<lambda>(base_null, len). len \<noteq> 0) vs of
         None \<Rightarrow> (Inr [], st) | Some (base_null, len) \<Rightarrow> read_fd os fd base_null len st)" if "\<not> 0 < k"
    using readv_event_first [OF ok assms(2), of vs os] that assms(3,4) by (auto split: if_splits)
  ultimately show ?thesis by (auto split: option.splits)
qed

text \<open>A semaphore with the counter 5.\<close>

definition demo_semaphore :: "unit fake_fds" where
  "demo_semaphore = snd (eventfd 5 EFD_SEMAPHORE (initial_fds ()))"

lemma demo_semaphore_reach: "fd_reach no_os demo_semaphore"
  unfolding demo_semaphore_def by (rule reach_eventfd, rule reach_initial)

lemma demo_semaphore_simps:
  "fake_eventfd_from_fd demo_semaphore 1000 = Some 0" "ev_counter (fake_eventfds demo_semaphore ! 0) = 5"
  "ev_flags (fake_eventfds demo_semaphore ! 0) = EFD_SEMAPHORE"
  by (simp_all add: demo_semaphore_def eventfd_def fake_eventfd_from_fd_def table_defs replicate_small)

theorem readv_eventfd_is_read_witness:
  "(\<exists>st1. readv no_os demo_server 1000 (Some [(True, 0), (False, 8), (False, 8)]) 3
      demo_pair empty_ring [] = Some (Inr (le_bytes 8 (5 :: u64)), st1, empty_ring, [])) \<and>
   (\<exists>st1. readv no_os demo_server 1000 (Some [(False, 8), (True, 0), (False, 8), (True, 3)]) 4
      demo_semaphore empty_ring [] = Some (Inr (le_bytes 8 (1 :: u64) @ le_bytes 8 (1 :: u64)), st1, empty_ring, []))"
proof -
  have k: "(2 :: nat) = (if ev_flags (fake_eventfds demo_semaphore ! 0) AND EFD_SEMAPHORE = 0 then 0
      else min (unat (ev_counter (fake_eventfds demo_semaphore ! 0)))
        (values_wanted [(False, 8), (True, 0), (False, 8), (True, 3)]))"
    by (simp add: demo_semaphore_simps EFD_SEMAPHORE_def)
  have "\<exists>st1. readv no_os demo_server 1000 (Some [(False, 8), (True, 0), (False, 8), (True, 3)]) 4
      demo_semaphore empty_ring [] = Some (Inr (le_bytes 8 (1 :: u64) @ le_bytes 8 (1 :: u64)), st1, empty_ring, [])"
    using readv_eventfd_is_read [OF demo_semaphore_reach demo_semaphore_simps(1) refl k] by (simp add: replicate_small)
  moreover have k0: "(0 :: nat) = (if ev_flags (fake_eventfds demo_pair ! 0) AND EFD_SEMAPHORE = 0 then 0
      else min (unat (ev_counter (fake_eventfds demo_pair ! 0))) (values_wanted [(True, 0), (False, 8), (False, 8)]))"
    by (simp add: demo_pair_simps)
  have "\<exists>st1. readv no_os demo_server 1000 (Some [(True, 0), (False, 8), (False, 8)]) 3
      demo_pair empty_ring [] = Some (Inr (le_bytes 8 (5 :: u64)), st1, empty_ring, [])"
    using readv_eventfd_is_read [OF demo_pair_reach demo_pair_simps(1) refl k0]
    by (simp add: demo_pair_simps read_fd_def Let_def)
  ultimately show ?thesis by blast
qed

section \<open>The flags of a descriptor\<close>

lemma fcntl_event:
  assumes "fake_eventfd_from_fd st fd = Some i"
    and "cmd = 1 \<or> cmd = 2 \<or> cmd = 3 \<or> cmd = 4"
  shows "fcntl fd cmd arg st =
    (fst (fcntl_flags (fcntl_cmd_of cmd) (if cmd = 2 \<or> cmd = 4 then arg else 0) (ev_flags (fake_eventfds st ! i))),
     put_event i ((fake_eventfds st ! i)\<lparr>ev_flags :=
       snd (fcntl_flags (fcntl_cmd_of cmd) (if cmd = 2 \<or> cmd = 4 then arg else 0) (ev_flags (fake_eventfds st ! i)))\<rparr>) st)"
  using assms by (auto simp: fcntl_def fcntl_cmd_of_def Let_def case_prod_beta)

text \<open>
  C29: the flags of an eventfd are one word. \<open>F_SETFD\<close> and \<open>F_GETFD\<close> are inverse to each
  other and leave the other bits alone, and \<open>F_GETFL\<close> gives back what \<open>F_SETFL\<close> stored; but
  \<open>F_SETFL\<close> replaces the whole word, so it also sets what \<open>F_GETFD\<close> reports, and bit 0 of
  its argument alone decides whether the eventfd is a semaphore from then on, however it
  was created. The counter is never touched.
\<close>

theorem fcntl_shares_one_word:
  assumes "fd_reach os st" and "fake_eventfd_from_fd st fd = Some i"
    and "setfd = snd (fcntl fd 2 arg st)" and "setfl = snd (fcntl fd 4 arg st)"
  shows "fst (fcntl fd 1 x setfd) = Inr (if arg AND 1 \<noteq> 0 then 1 else 0) \<and>
    fst (fcntl fd 3 x setfd) = Inr (if arg AND 1 \<noteq> 0 then ev_flags (fake_eventfds st ! i) OR 0x80000
      else ev_flags (fake_eventfds st ! i) AND NOT 0x80000) \<and>
    fst (fcntl fd 3 x setfl) = Inr (ucast arg) \<and>
    fst (fcntl fd 1 x setfl) = Inr (if (ucast arg :: u32) AND 0x80000 \<noteq> 0 then 1 else 0) \<and>
    fst (eventfd_read os fd setfl) =
      (if ev_counter (fake_eventfds st ! i) = 0 then None
       else if (ucast arg :: u32) AND 1 \<noteq> 0 then Some 1 else Some (ev_counter (fake_eventfds st ! i)))"
proof -
  have ok: "fds_ok st" using assms(1) by (rule reach_ok)
  let ?e = "fake_eventfds st ! i"
  let ?fd = "if arg AND FD_CLOEXEC \<noteq> 0 then ev_flags ?e OR O_CLOEXEC else ev_flags ?e AND NOT O_CLOEXEC"
  have st: "setfd = put_event i (?e\<lparr>ev_flags := ?fd\<rparr>) st" "setfl = put_event i (?e\<lparr>ev_flags := ucast arg\<rparr>) st"
    unfolding assms(3,4) fcntl_event [OF assms(2) disjI2 [OF disjI1 [OF refl]]]
    using fcntl_event [OF assms(2), of 4 arg] by (simp_all add: fcntl_cmd_of_def fcntl_flags_def)
  have D: "fake_eventfd_from_fd setfd fd = Some i" "fake_eventfds setfd ! i = ?e\<lparr>ev_flags := ?fd\<rparr>"
    unfolding st(1) by (rule put_live [OF ok assms(2)]; use live_used [OF ok assms(2)] in simp)+
  have L: "fake_eventfd_from_fd setfl fd = Some i" "fake_eventfds setfl ! i = ?e\<lparr>ev_flags := ucast arg\<rparr>"
    unfolding st(2) by (rule put_live [OF ok assms(2)]; use live_used [OF ok assms(2)] in simp)+
  have B: "(a OR b) AND b = b" "(a AND NOT b) AND b = 0" for a b :: u32
    by (rule bit_word_eqI; auto simp: bit_or_iff bit_and_iff bit_not_iff)+
  have word: "(a OR 0x80000) AND 0x80000 = 0x80000" "(a AND - 0x80001) AND 0x80000 = 0" for a :: u32
    using B(1) [of a "0x80000"] B(2) [of a "0x80000"] by simp_all
  show ?thesis
    using D L word fcntl_event [OF D(1), of 1 x] fcntl_event [OF D(1), of 3 x]
      fcntl_event [OF L(1), of 1 x] fcntl_event [OF L(1), of 3 x]
    by (simp add: fcntl_cmd_of_def fcntl_flags_def O_CLOEXEC_def FD_CLOEXEC_def eventfd_read_def read_fd_def
        EFD_SEMAPHORE_def Let_def)
qed

theorem fcntl_shares_one_word_witness:
  "fst (fcntl 1000 3 0 (snd (fcntl 1000 4 0x801 demo_pair))) = Inr 0x801 \<and>
   fst (eventfd_read no_os 1000 (snd (fcntl 1000 4 0x801 demo_pair))) = Some 1"
  using fcntl_shares_one_word [OF demo_pair_reach demo_pair_simps(1) refl refl, where arg = "0x801" and x = 0]
  by (simp add: demo_pair_simps)

end
