(* ===== verification/Xorshift.thy ===== *)
theory Xorshift
  imports CMem
begin

text \<open>
  The random source of \<^verbatim>\<open>stub/ruby_syscall_random.c\<close>: a 64-bit xorshift generator whose
  values \<open>getrandom\<close> hands out byte by byte, lowest byte first. A buffer is the list of
  bytes stored in it.
\<close>

section \<open>The generator\<close>

definition random_seed :: u64 where "random_seed = 0x6a09e667f3bcc909"

definition next_random64 :: "u64 \<Rightarrow> u64" where
  "next_random64 s =
     (let s1 = s XOR push_bit 13 s;
          s2 = s1 XOR drop_bit 7 s1
      in s2 XOR push_bit 17 s2)"

text \<open>
  The loop of \<open>getrandom\<close> with \<open>left\<close> bytes to go: the bytes it stores and the state
  after it.
\<close>

function random_bytes :: "nat \<Rightarrow> u64 \<Rightarrow> byte list \<times> u64" where
  "random_bytes left s =
     (if left = 0 then ([], s)
      else
        let value = next_random64 s;
            chunk = (if left > 8 then 8 else left);
            bytes = map (\<lambda>i. ucast (drop_bit (i * 8) value)) [0..<chunk];
            (rest, s') = random_bytes (left - chunk) value
        in (bytes @ rest, s'))"
  by pat_completeness auto

termination
  by (relation "measure fst") auto

declare random_bytes.simps [simp del]

definition getrandom :: "bool \<Rightarrow> nat \<Rightarrow> u32 \<Rightarrow> u64 \<Rightarrow> byte list result \<times> u64" where
  "getrandom buf_null buflen flags s =
     (if buf_null \<and> buflen \<noteq> 0 then (Inl EFAULT, s)
      else let (bs, s') = random_bytes buflen s in (Inr bs, s'))"

definition getentropy :: "bool \<Rightarrow> nat \<Rightarrow> u64 \<Rightarrow> byte list result \<times> u64" where
  "getentropy buf_null buflen s = (if buflen > 256 then (Inl EIO, s) else getrandom buf_null buflen 0 s)"

section \<open>The generator permutes its states\<close>

lemma xor_push_inj:
  fixes x y :: u64
  assumes "0 < k" and "x XOR push_bit k x = y XOR push_bit k y"
  shows "x = y"
proof (rule bit_word_eqI)
  fix n
  assume "n < LENGTH(64)"
  then show "bit x n = bit y n"
  proof (induction n rule: less_induct)
    case (less n)
    have "bit (x XOR push_bit k x) n = bit (y XOR push_bit k y) n" using assms(2) by simp
    then have eq: "(bit x n \<noteq> (k \<le> n \<and> bit x (n - k))) = (bit y n \<noteq> (k \<le> n \<and> bit y (n - k)))"
      using less.prems by (simp add: bit_simps)
    show ?case
    proof (cases "k \<le> n")
      case True
      then have "bit x (n - k) = bit y (n - k)" using assms(1) less by simp
      with eq True show ?thesis by auto
    next
      case False
      with eq show ?thesis by simp
    qed
  qed
qed

lemma xor_drop_inj:
  fixes x y :: u64
  assumes "0 < k" and "x XOR drop_bit k x = y XOR drop_bit k y"
  shows "x = y"
proof (rule bit_word_eqI)
  fix n
  assume "n < LENGTH(64)"
  have "bit x (64 - m) = bit y (64 - m)" if "0 < m" "m \<le> 64" for m
    using that
  proof (induction m rule: less_induct)
    case (less m)
    let ?n = "64 - m"
    have "bit (x XOR drop_bit k x) ?n = bit (y XOR drop_bit k y) ?n" using assms(2) by simp
    then have eq: "(bit x ?n \<noteq> bit x (k + ?n)) = (bit y ?n \<noteq> bit y (k + ?n))"
      using less.prems by (simp add: bit_simps)
    have "bit x (k + ?n) = bit y (k + ?n)"
    proof (cases "k < m")
      case True
      then have "bit x (64 - (m - k)) = bit y (64 - (m - k))"
        using assms(1) less.prems by (intro less.IH) auto
      moreover have "64 - (m - k) = k + ?n" using True less.prems by simp
      ultimately show ?thesis by simp
    next
      case False
      then have "64 \<le> k + ?n" using less.prems by simp
      then show ?thesis by (auto dest: bit_imp_le_length)
    qed
    with eq show ?case by auto
  qed
  from this [of "64 - n"] \<open>n < LENGTH(64)\<close> show "bit x n = bit y n" by simp
qed

lemma next_random64_inj: "next_random64 x = next_random64 y \<Longrightarrow> x = y"
  unfolding next_random64_def Let_def
  by (rule xor_push_inj [of 13], simp, rule xor_drop_inj [of 7], simp, rule xor_push_inj [of 17]) simp_all

lemma injective_returns:
  fixes f :: "'a :: finite \<Rightarrow> 'a"
  assumes "inj f"
  shows "\<exists>p>0. (f ^^ p) x = x"
proof -
  have "finite (range (\<lambda>n. (f ^^ n) x))" by (rule finite_subset [OF subset_UNIV finite])
  then have "\<not> inj (\<lambda>n. (f ^^ n) x)" using finite_imageD infinite_UNIV_nat by blast
  then obtain a b where ab: "a \<noteq> b" "(f ^^ a) x = (f ^^ b) x" unfolding inj_def by blast
  have "\<exists>i j. i < j \<and> (f ^^ i) x = (f ^^ j) x"
  proof (cases "a < b")
    case True
    with ab show ?thesis by blast
  next
    case False
    with ab have "b < a" "(f ^^ b) x = (f ^^ a) x" by simp_all
    then show ?thesis by blast
  qed
  then obtain i j where ij: "i < j" "(f ^^ i) x = (f ^^ j) x" by blast
  have "(f ^^ i) ((f ^^ (j - i)) x) = (f ^^ i) x" using ij funpow_add [of i "j - i" f] by simp
  then have "(f ^^ (j - i)) x = x" using inj_fn [OF assms, of i] by (simp add: inj_eq)
  then show ?thesis using ij(1) by (intro exI [of _ "j - i"]) simp
qed

text \<open>
  The generator never gets stuck: its step is injective on the 64-bit states and maps
  only zero to zero, so from the seed no number of steps reaches zero, and the states form
  one cycle through the seed, which is reached again before anything else repeats.
\<close>

lemma random_never_zero:
  "(next_random64 ^^ n) random_seed \<noteq> 0 \<and> inj next_random64 \<and>
   (\<exists>p>0. (next_random64 ^^ p) random_seed = random_seed)"
proof (intro conjI)
  show inj: "inj next_random64" by (rule injI) (rule next_random64_inj)
  have zero: "next_random64 x = 0 \<Longrightarrow> x = 0" for x
    using next_random64_inj [of x 0] by (simp add: next_random64_def)
  show "(next_random64 ^^ n) random_seed \<noteq> 0"
    by (induction n) (auto simp: random_seed_def dest: zero)
  show "\<exists>p>0. (next_random64 ^^ p) random_seed = random_seed"
    by (rule injective_returns [OF inj])
qed

section \<open>The byte stream\<close>

text \<open>Byte \<open>i\<close> of the stream from a state: byte \<open>i mod 8\<close> of value \<open>i div 8 + 1\<close>.\<close>

definition stream_byte :: "u64 \<Rightarrow> nat \<Rightarrow> byte" where
  "stream_byte s i = ucast (drop_bit (i mod 8 * 8) ((next_random64 ^^ (i div 8 + 1)) s))"

lemma stream_byte_next: "stream_byte (next_random64 s) i = stream_byte s (i + 8)"
proof -
  have "(i + 8) div 8 = i div 8 + 1" by simp
  then show ?thesis by (simp add: stream_byte_def funpow_swap1)
qed

text \<open>A round gives the bytes of one value; the rest are those of the next state.\<close>

lemma stream_round:
  fixes n :: nat
  defines "k \<equiv> (if n > 8 then 8 else n)"
  shows "map (\<lambda>i. ucast (drop_bit (i * 8) (next_random64 s))) [0..<k] @
      map (stream_byte (next_random64 s)) [0..<n - k] = map (stream_byte s) [0..<n]"
proof -
  have k: "k \<le> n" "k \<le> 8" by (auto simp: k_def)
  have "map (\<lambda>i. ucast (drop_bit (i * 8) (next_random64 s))) [0..<k] = map (stream_byte s) [0..<k]"
    using k(2) by (auto simp: stream_byte_def)
  moreover have "map (stream_byte (next_random64 s)) [0..<n - k] = map (stream_byte s) [k..<n]"
  proof (cases "8 < n")
    case True
    then have k8: "k = 8" by (simp add: k_def)
    have up: "[8..<n] = map (\<lambda>i. i + 8) [0..<n - 8]" using map_add_upt [of 8 "n - 8"] True by simp
    show ?thesis unfolding k8 up by (simp add: stream_byte_next)
  qed (simp add: k_def)
  moreover have "map (stream_byte s) [0..<k] @ map (stream_byte s) [k..<n] = map (stream_byte s) [0..<n]"
    using k(1) upt_add_eq_append [of 0 k "n - k"] by (simp flip: map_append)
  ultimately show ?thesis by (simp only:)
qed

lemma values_used:
  assumes "n \<noteq> 0"
  shows "(n + 7) div 8 = (n - (if n > 8 then 8 else n) + 7) div 8 + (1 :: nat)"
proof (cases "8 < n")
  case True
  then show ?thesis by auto
next
  case False
  then have "(n + 7) div 8 = 1" using assms by auto
  with False show ?thesis by simp
qed

lemma random_bytes_stream:
  "random_bytes n s = (map (stream_byte s) [0..<n], (next_random64 ^^ ((n + 7) div 8)) s)"
proof (induction n s rule: random_bytes.induct)
  case (1 n s)
  show ?case
  proof (cases "n = 0")
    case True
    then show ?thesis by (simp add: random_bytes.simps [of 0])
  next
    case False
    define k where "k = (if n > 8 then 8 else n)"
    have IH: "random_bytes (n - k) (next_random64 s) = (map (stream_byte (next_random64 s)) [0..<n - k],
        (next_random64 ^^ ((n - k + 7) div 8)) (next_random64 s))"
      using "1.IH" [OF False refl refl] by (simp add: k_def)
    note R = stream_round [where n = n and s = s, folded k_def] and V = values_used [OF False, folded k_def]
    show ?thesis
      using False by (simp add: random_bytes.simps [of n] Let_def k_def [symmetric] IH R V funpow_swap1)
  qed
qed

text \<open>
  C32: \<open>getrandom\<close> fills the whole buffer with the generator's bytes: byte \<open>i\<close> is byte
  \<open>i mod 8\<close> of value \<open>i div 8 + 1\<close>, lowest first, and the generator has moved by one value
  for each eight bytes begun. A null buffer of non-zero length is \<open>EFAULT\<close>, and
  \<open>getentropy\<close> refuses more than 256 bytes with \<open>EIO\<close>; neither moves the generator.
\<close>

theorem getrandom_stream:
  "getrandom False n flags s =
     (Inr (map (\<lambda>i. ucast (drop_bit (i mod 8 * 8) ((next_random64 ^^ (i div 8 + 1)) s))) [0..<n]),
      (next_random64 ^^ ((n + 7) div 8)) s) \<and>
   getrandom True n flags s = (if n = 0 then (Inr [], s) else (Inl EFAULT, s)) \<and>
   getentropy False n s = (if 256 < n then (Inl EIO, s) else getrandom False n 0 s)"
  by (cases "n = 0") (simp_all add: getrandom_def getentropy_def random_bytes_stream stream_byte_def)

end
