(* ===== verification/Fake_Clock.thy ===== *)
theory Fake_Clock
  imports CMem
begin

text \<open>
  The placeholder clock of \<^verbatim>\<open>stub/ruby_syscall_clock.c\<close>: one counter of nanoseconds that
  advances by a fixed step each time anyone looks.
\<close>

section \<open>The calls\<close>

definition FAKE_CLOCK_STEP_NS :: u64 where "FAKE_CLOCK_STEP_NS = 1000000"
definition NS_PER_S :: u64 where "NS_PER_S = 1000000000"

record timespec =
  tv_sec :: u64
  tv_nsec :: u64

text \<open>Points in time are ordered by seconds, then nanoseconds.\<close>

instantiation timespec_ext :: (linorder) linorder
begin

definition less_eq_timespec_ext :: "'a timespec_scheme \<Rightarrow> 'a timespec_scheme \<Rightarrow> bool" where
  "a \<le> b \<longleftrightarrow> tv_sec a < tv_sec b \<or> (tv_sec a = tv_sec b \<and>
     (tv_nsec a < tv_nsec b \<or> (tv_nsec a = tv_nsec b \<and> timespec.more a \<le> timespec.more b)))"

definition less_timespec_ext :: "'a timespec_scheme \<Rightarrow> 'a timespec_scheme \<Rightarrow> bool" where
  "a < b \<longleftrightarrow> a \<le> b \<and> \<not> (b :: 'a timespec_scheme) \<le> a"

instance
  by standard (auto simp: less_eq_timespec_ext_def less_timespec_ext_def intro: timespec.equality)

end

record timeval =
  tval_sec :: u64
  tval_usec :: u64

definition fake_clock_read :: "u64 \<Rightarrow> timespec \<times> u64" where
  "fake_clock_read ns =
     (let ns1 = ns + FAKE_CLOCK_STEP_NS
      in (\<lparr>tv_sec = ns1 div NS_PER_S, tv_nsec = ns1 mod NS_PER_S\<rparr>, ns1))"

definition clock_gettime :: "int \<Rightarrow> bool \<Rightarrow> u64 \<Rightarrow> timespec result \<times> u64" where
  "clock_gettime clk ts_null ns =
     (if ts_null then (Inl EFAULT, ns) else let (ts, ns1) = fake_clock_read ns in (Inr ts, ns1))"

definition clock_getres :: "int \<Rightarrow> bool \<Rightarrow> timespec option" where
  "clock_getres clk ts_null =
     (if ts_null then None else Some \<lparr>tv_sec = 0, tv_nsec = FAKE_CLOCK_STEP_NS\<rparr>)"

definition gettimeofday :: "bool \<Rightarrow> u64 \<Rightarrow> timeval result \<times> u64" where
  "gettimeofday tv_null ns =
     (if tv_null then (Inl EFAULT, ns)
      else let (ts, ns1) = fake_clock_read ns
           in (Inr \<lparr>tval_sec = tv_sec ts, tval_usec = tv_nsec ts div 1000\<rparr>, ns1))"

text \<open>The value returned, which is also what is stored through a pointer that is not null.\<close>

definition time :: "u64 \<Rightarrow> u64 \<times> u64" where
  "time ns = (let (ts, ns1) = fake_clock_read ns in (tv_sec ts, ns1))"

section \<open>Observations\<close>

datatype clock_call = Clock_gettime int bool | Clock_getres int bool | Gettimeofday bool | Time

definition clock_call :: "clock_call \<Rightarrow> u64 \<Rightarrow> u64" where
  "clock_call c ns =
     (case c of
        Clock_gettime clk b \<Rightarrow> snd (clock_gettime clk b ns)
      | Clock_getres clk b \<Rightarrow> ns
      | Gettimeofday b \<Rightarrow> snd (gettimeofday b ns)
      | Time \<Rightarrow> snd (time ns))"

definition ts_nanos :: "timespec \<Rightarrow> nat" where
  "ts_nanos ts = unat (tv_sec ts) * 1000000000 + unat (tv_nsec ts)"

text \<open>The order is that of the nanoseconds, for readings with less than a second of them.\<close>

lemma timespec_less_iff:
  fixes a b :: timespec
  assumes "unat (tv_nsec a) < 1000000000" and "unat (tv_nsec b) < 1000000000"
  shows "a < b \<longleftrightarrow> ts_nanos a < ts_nanos b"
proof -
  have lt: "a < b \<longleftrightarrow> tv_sec a < tv_sec b \<or> (tv_sec a = tv_sec b \<and> tv_nsec a < tv_nsec b)"
    by (auto simp: less_timespec_ext_def less_eq_timespec_ext_def)
  have "x * 1000000000 + m < y * 1000000000 + n \<longleftrightarrow> x < y \<or> (x = y \<and> m < n)"
    if "m < 1000000000" "n < 1000000000" for x y m n :: nat
    using that by (cases x y rule: linorder_cases) linarith+
  from this [OF assms] show ?thesis unfolding lt ts_nanos_def word_less_nat_alt word_unat_eq_iff by (rule sym)
qed

text \<open>The calls that look at the clock: those given somewhere to store what they see.\<close>

fun looks :: "clock_call \<Rightarrow> bool" where
  "looks (Clock_gettime clk ts_null) = (\<not> ts_null)"
| "looks (Clock_getres clk ts_null) = False"
| "looks (Gettimeofday tv_null) = (\<not> tv_null)"
| "looks Time = True"

abbreviation observed :: "clock_call list \<Rightarrow> nat" where
  "observed cs \<equiv> length (filter looks cs)"

lemma clock_call_step: "clock_call c ns = (if looks c then ns + FAKE_CLOCK_STEP_NS else ns)"
  by (cases c) (simp_all add: clock_call_def clock_gettime_def gettimeofday_def time_def fake_clock_read_def Let_def)

lemma step_nanos: "unat ns + 1000000 < 2 ^ 64 \<Longrightarrow> unat (ns + FAKE_CLOCK_STEP_NS) = unat ns + 1000000"
  by (simp add: FAKE_CLOCK_STEP_NS_def unat_plus_if')

lemma clock_calls_count:
  assumes "unat ns + 1000000 * observed cs < 2 ^ 64"
  shows "unat (fold clock_call cs ns) = unat ns + 1000000 * observed cs"
  using assms
proof (induction cs arbitrary: ns)
  case Nil
  then show ?case by simp
next
  case (Cons c cs)
  have "unat (clock_call c ns) = unat ns + (if looks c then 1000000 else 0)"
    using Cons.prems by (auto simp: clock_call_step intro!: step_nanos)
  with Cons.IH [of "clock_call c ns"] Cons.prems show ?case by (simp split: if_splits)
qed

lemma read_nanos:
  assumes "unat ns + 1000000 < 2 ^ 64"
  shows "ts_nanos (fst (fake_clock_read ns)) = unat ns + 1000000"
    and "unat (tv_sec (fst (fake_clock_read ns))) = (unat ns + 1000000) div 1000000000"
    and "unat (tv_nsec (fst (fake_clock_read ns))) = (unat ns + 1000000) mod 1000000000"
    and "snd (fake_clock_read ns) = ns + FAKE_CLOCK_STEP_NS"
  using step_nanos [OF assms]
  by (simp_all add: fake_clock_read_def ts_nanos_def NS_PER_S_def unat_div unat_mod Let_def)

text \<open>
  C35: the clock counts its observations exactly. After a reading \<open>t1\<close> and any calls, as
  long as the 64-bit counter does not wrap, which takes more than \<open>18 * 10^12\<close>
  observations, the counter has advanced by one step for each \<open>clock_gettime\<close> and
  \<open>gettimeofday\<close> with a place to store the answer and for each \<open>time\<close>, and by nothing
  for \<open>clock_getres\<close> and for a null pointer. Whichever of the three readers is called
  next reports the instant one step later still, in seconds and nanoseconds, in seconds
  and microseconds or in whole seconds, and advances the counter by that step; so a later
  reading is later, in the order of seconds and then nanoseconds. A null pointer is
  \<open>EFAULT\<close> and no observation, and the resolution reported is the step.
\<close>

theorem clock_progresses:
  assumes "clock_gettime clk False ns = (Inr t1, ns1)" and "now = fold clock_call cs ns1"
    and "T = unat ns + 1000000 * (observed cs + 2)" and "T < 2 ^ 64"
  shows "ts_nanos t1 = unat ns + 1000000 \<and> unat now = unat ns + 1000000 * (observed cs + 1) \<and>
    (\<exists>t2. clock_gettime clk' False now = (Inr t2, now + FAKE_CLOCK_STEP_NS) \<and> t1 < t2 \<and>
       unat (tv_sec t2) = T div 1000000000 \<and> unat (tv_nsec t2) = T mod 1000000000) \<and>
    (\<exists>tv. gettimeofday False now = (Inr tv, now + FAKE_CLOCK_STEP_NS) \<and>
       unat (tval_sec tv) = T div 1000000000 \<and> unat (tval_usec tv) = T mod 1000000000 div 1000) \<and>
    (\<exists>sec. time now = (sec, now + FAKE_CLOCK_STEP_NS) \<and> unat sec = T div 1000000000) \<and>
    clock_gettime clk' True now = (Inl EFAULT, now) \<and> gettimeofday True now = (Inl EFAULT, now) \<and>
    clock_getres clk' False = Some \<lparr>tv_sec = 0, tv_nsec = 1000000\<rparr>"
proof -
  have t1: "t1 = fst (fake_clock_read ns)" "ns1 = ns + FAKE_CLOCK_STEP_NS"
    using assms(1) by (auto simp: clock_gettime_def fake_clock_read_def Let_def)
  have lim: "unat ns + 1000000 < 2 ^ 64" using assms(3,4) by simp
  have n1: "unat ns1 = unat ns + 1000000" unfolding t1(2) by (rule step_nanos [OF lim])
  have now: "unat now = unat ns + 1000000 * (observed cs + 1)"
    unfolding assms(2) using clock_calls_count [of ns1 cs] n1 assms(3,4) by simp
  then have T: "T = unat now + 1000000" using assms(3) by simp
  note R = read_nanos [OF lim] and N = read_nanos [of now, folded T, OF assms(4)]
  define t2 where "t2 = fst (fake_clock_read now)"
  have "t1 < t2"
    unfolding t1(1) t2_def using timespec_less_iff R N now by (simp add: assms(3))
  then have "\<exists>t2. clock_gettime clk' False now = (Inr t2, now + FAKE_CLOCK_STEP_NS) \<and> t1 < t2 \<and>
       unat (tv_sec t2) = T div 1000000000 \<and> unat (tv_nsec t2) = T mod 1000000000"
    using N by (intro exI [of _ t2]) (simp add: t2_def clock_gettime_def case_prod_beta)
  moreover have "\<exists>tv. gettimeofday False now = (Inr tv, now + FAKE_CLOCK_STEP_NS) \<and>
       unat (tval_sec tv) = T div 1000000000 \<and> unat (tval_usec tv) = T mod 1000000000 div 1000"
    using N by (simp add: gettimeofday_def case_prod_beta unat_div)
  moreover have "\<exists>sec. time now = (sec, now + FAKE_CLOCK_STEP_NS) \<and> unat sec = T div 1000000000"
    using N by (simp add: time_def case_prod_beta)
  ultimately show ?thesis
    using R(1) now t1(1)
    by (simp add: clock_gettime_def gettimeofday_def clock_getres_def FAKE_CLOCK_STEP_NS_def)
qed

theorem clock_progresses_witness:
  "\<exists>t1 t2 tv now. clock_gettime 0 False 999999999 = (Inr t1, 1000999999) \<and>
    now = fold clock_call [Time, Clock_getres 0 True, Gettimeofday False, Gettimeofday True] 1000999999 \<and>
    unat now = 1002999999 \<and> fst (clock_gettime 1 False now) = Inr t2 \<and> t1 < t2 \<and>
    fst (gettimeofday False now) = Inr tv \<and> unat (tval_sec tv) = 1 \<and> unat (tval_usec tv) = 3999"
proof -
  define cs where "cs = [Time, Clock_getres 0 True, Gettimeofday False, Gettimeofday True]"
  have cs: "observed cs = 2" by (simp add: cs_def)
  obtain t1 where r1: "clock_gettime 0 False 999999999 = (Inr t1, 1000999999)"
    by (simp add: clock_gettime_def fake_clock_read_def FAKE_CLOCK_STEP_NS_def Let_def)
  have "(1003999999 :: nat) = unat (999999999 :: u64) + 1000000 * (observed cs + 2)" "(1003999999 :: nat) < 2 ^ 64"
    by (simp_all add: cs)
  note C = clock_progresses [OF r1 refl this, of 1]
  then obtain t2 tv where "fst (clock_gettime 1 False (fold clock_call cs 1000999999)) = Inr t2" "t1 < t2"
    "fst (gettimeofday False (fold clock_call cs 1000999999)) = Inr tv" "unat (tval_sec tv) = 1" "unat (tval_usec tv) = 3999"
    by fastforce
  moreover have "unat (fold clock_call cs 1000999999) = 1002999999" using C cs by simp
  ultimately show ?thesis using r1 unfolding cs_def by blast
qed

end
