(* ===== verification/Pthread_Stub.thy ===== *)
theory Pthread_Stub
  imports CMem
begin

text \<open>
  The single-threaded pthread stubs of \<^verbatim>\<open>stub/ruby_pthread.c\<close>. The state is the flat
  array of thread-specific values and the next key to give out. A result is the error
  number the call returns, \<open>0\<close> for success; an output is the second component, \<open>None\<close>
  when the pointer for it is null. An object that a call clears is shown by its bytes
  being set to zero in the byte memory.
\<close>

section \<open>State\<close>

definition MAX_KEYS :: nat where "MAX_KEYS = 16"
definition CONTROL_STACK_SIZE :: u64 where "CONTROL_STACK_SIZE = 1024 * 1024"
definition STACK_PAGE_SIZE :: u64 where "STACK_PAGE_SIZE = 4096"

record pthread_keys =
  key_values :: "addr list"
  next_key :: u32

definition initial_keys :: pthread_keys where
  "initial_keys = \<lparr>key_values = replicate MAX_KEYS 0, next_key = 0\<rparr>"

section \<open>Threads\<close>

definition pthread_create :: "bool \<Rightarrow> errno option \<times> u64 option" where
  "pthread_create thread_null = (Some EAGAIN, if thread_null then None else Some 0)"

definition pthread_detach :: "u64 \<Rightarrow> errno option" where "pthread_detach thread = None"

text \<open>\<open>pthread_exit\<close> loops for ever: it has no result.\<close>

partial_function (option) pthread_exit :: "addr \<Rightarrow> unit option" where
  "pthread_exit v = pthread_exit v"

definition pthread_join :: "u64 \<Rightarrow> bool \<Rightarrow> errno option \<times> addr option" where
  "pthread_join thread value_null = (Some ESRCH, if value_null then None else Some 0)"

definition pthread_self :: u64 where "pthread_self = 1"

definition pthread_equal :: "u64 \<Rightarrow> u64 \<Rightarrow> bool" where "pthread_equal a b \<longleftrightarrow> a = b"

definition pthread_kill :: "u64 \<Rightarrow> int \<Rightarrow> errno option" where "pthread_kill thread sig = None"

section \<open>Thread-specific data\<close>

definition pthread_key_create :: "bool \<Rightarrow> pthread_keys \<Rightarrow> (errno option \<times> u32 option) \<times> pthread_keys" where
  "pthread_key_create key_null st =
     (if key_null \<or> of_nat MAX_KEYS \<le> next_key st then ((Some EAGAIN, None), st)
      else ((None, Some (next_key st)), st\<lparr>next_key := next_key st + 1\<rparr>))"

definition pthread_key_delete :: "u32 \<Rightarrow> pthread_keys \<Rightarrow> errno option \<times> pthread_keys" where
  "pthread_key_delete key st =
     (None, if key < of_nat MAX_KEYS then st\<lparr>key_values := (key_values st)[unat key := 0]\<rparr> else st)"

definition pthread_getspecific :: "u32 \<Rightarrow> pthread_keys \<Rightarrow> addr" where
  "pthread_getspecific key st = (if of_nat MAX_KEYS \<le> key then 0 else key_values st ! unat key)"

definition pthread_setspecific :: "u32 \<Rightarrow> addr \<Rightarrow> pthread_keys \<Rightarrow> errno option \<times> pthread_keys" where
  "pthread_setspecific key v st =
     (if of_nat MAX_KEYS \<le> key then (Some EINVAL, st)
      else (None, st\<lparr>key_values := (key_values st)[unat key := v]\<rparr>))"

section \<open>Waiting and scheduling\<close>

definition pthread_mutex_lock :: "addr \<Rightarrow> errno option" where "pthread_mutex_lock m = None"
definition pthread_mutex_unlock :: "addr \<Rightarrow> errno option" where "pthread_mutex_unlock m = None"
definition pthread_mutex_trylock :: "addr \<Rightarrow> errno option" where "pthread_mutex_trylock m = None"
definition pthread_cond_wait :: "addr \<Rightarrow> addr \<Rightarrow> errno option" where "pthread_cond_wait c m = None"
definition pthread_cond_timedwait :: "addr \<Rightarrow> addr \<Rightarrow> addr \<Rightarrow> errno option" where
  "pthread_cond_timedwait c m t = Some ETIMEDOUT"
definition pthread_cond_signal :: "addr \<Rightarrow> errno option" where "pthread_cond_signal c = None"
definition pthread_cond_broadcast :: "addr \<Rightarrow> errno option" where "pthread_cond_broadcast c = None"
definition pthread_rwlock_rdlock :: "addr \<Rightarrow> errno option" where "pthread_rwlock_rdlock l = None"
definition pthread_rwlock_wrlock :: "addr \<Rightarrow> errno option" where "pthread_rwlock_wrlock l = None"
definition pthread_rwlock_unlock :: "addr \<Rightarrow> errno option" where "pthread_rwlock_unlock l = None"

text \<open>Objects that \<open>init\<close> clears: \<open>n\<close> zero bytes at a pointer that is not null.\<close>

definition pthread_mutex_init :: "mem \<Rightarrow> u64 \<Rightarrow> addr \<Rightarrow> errno option \<times> mem" where
  "pthread_mutex_init m n mutex = (None, if mutex \<noteq> 0 then memset m mutex 0 n else m)"
definition pthread_cond_init :: "mem \<Rightarrow> u64 \<Rightarrow> addr \<Rightarrow> errno option \<times> mem" where
  "pthread_cond_init m n cond = (None, if cond \<noteq> 0 then memset m cond 0 n else m)"
definition pthread_rwlock_init :: "mem \<Rightarrow> u64 \<Rightarrow> addr \<Rightarrow> errno option \<times> mem" where
  "pthread_rwlock_init m n lock = (None, if lock \<noteq> 0 then memset m lock 0 n else m)"
definition pthread_attr_init :: "mem \<Rightarrow> u64 \<Rightarrow> addr \<Rightarrow> errno option \<times> mem" where
  "pthread_attr_init m n attr = (None, if attr \<noteq> 0 then memset m attr 0 n else m)"
definition pthread_condattr_init :: "mem \<Rightarrow> u64 \<Rightarrow> addr \<Rightarrow> errno option \<times> mem" where
  "pthread_condattr_init m n attr = (None, if attr \<noteq> 0 then memset m attr 0 n else m)"

section \<open>The stack of the control thread\<close>

text \<open>\<open>base\<close> is the address of the array the generated code lays the stack out in.\<close>

definition pthread_getattr_np :: "u64 \<Rightarrow> mem \<Rightarrow> u64 \<Rightarrow> addr \<Rightarrow> errno option \<times> mem" where
  "pthread_getattr_np thread m n attr = pthread_attr_init m n attr"

definition pthread_attr_getstack :: "addr \<Rightarrow> bool \<Rightarrow> bool \<Rightarrow> errno option \<times> addr option \<times> u64 option" where
  "pthread_attr_getstack base addr_null size_null =
     (None, if addr_null then None else Some (base + STACK_PAGE_SIZE),
      if size_null then None else Some CONTROL_STACK_SIZE)"

definition pthread_attr_getguardsize :: "bool \<Rightarrow> errno option \<times> u64 option" where
  "pthread_attr_getguardsize size_null = (None, if size_null then None else Some 0)"

definition pthread_getschedparam :: "bool \<Rightarrow> mem \<Rightarrow> u64 \<Rightarrow> addr \<Rightarrow> errno option \<times> int option \<times> mem" where
  "pthread_getschedparam policy_null m n param =
     (None, if policy_null then None else Some 0, if param \<noteq> 0 then memset m param 0 n else m)"

definition pthread_setschedparam :: "u64 \<Rightarrow> int \<Rightarrow> addr \<Rightarrow> errno option" where
  "pthread_setschedparam thread policy param = None"

section \<open>Calls with nothing to do\<close>

text \<open>\<open>pthread_sigmask\<close> stores the empty set, shown as no signals.\<close>

definition pthread_sigmask :: "int \<Rightarrow> bool \<Rightarrow> errno option \<times> int set option" where
  "pthread_sigmask how oldset_null = (None, if oldset_null then None else Some {})"

definition pthread_mutex_destroy :: "addr \<Rightarrow> errno option" where "pthread_mutex_destroy m = None"
definition pthread_cond_destroy :: "addr \<Rightarrow> errno option" where "pthread_cond_destroy c = None"
definition pthread_rwlock_destroy :: "addr \<Rightarrow> errno option" where "pthread_rwlock_destroy l = None"
definition pthread_attr_destroy :: "addr \<Rightarrow> errno option" where "pthread_attr_destroy a = None"
definition pthread_attr_setdetachstate :: "addr \<Rightarrow> int \<Rightarrow> errno option" where
  "pthread_attr_setdetachstate a state = None"
definition pthread_attr_setinheritsched :: "addr \<Rightarrow> int \<Rightarrow> errno option" where
  "pthread_attr_setinheritsched a inherit = None"
definition pthread_attr_setstacksize :: "addr \<Rightarrow> u64 \<Rightarrow> errno option" where
  "pthread_attr_setstacksize a sz = None"
definition pthread_condattr_destroy :: "addr \<Rightarrow> errno option" where "pthread_condattr_destroy a = None"
definition pthread_condattr_setclock :: "addr \<Rightarrow> int \<Rightarrow> errno option" where
  "pthread_condattr_setclock a clock = None"
definition pthread_setname_np :: "u64 \<Rightarrow> addr \<Rightarrow> errno option" where "pthread_setname_np thread nm = None"

section \<open>Keys over a whole run\<close>

datatype key_op = Key_create bool | Key_delete u32 | Key_set u32 addr

text \<open>The keys handed out by a sequence of calls, in order, and the final state.\<close>

fun run_keys :: "key_op list \<Rightarrow> pthread_keys \<Rightarrow> u32 list \<times> pthread_keys" where
  "run_keys [] st = ([], st)"
| "run_keys (Key_create b # ops) st =
     (let ((_, k), st1) = pthread_key_create b st; (ks, st2) = run_keys ops st1
      in (case k of None \<Rightarrow> ks | Some key \<Rightarrow> key # ks, st2))"
| "run_keys (Key_delete key # ops) st = run_keys ops (snd (pthread_key_delete key st))"
| "run_keys (Key_set key v # ops) st = run_keys ops (snd (pthread_setspecific key v st))"

definition keys_ok :: "pthread_keys \<Rightarrow> bool" where
  "keys_ok st \<longleftrightarrow> length (key_values st) = MAX_KEYS \<and> unat (next_key st) \<le> MAX_KEYS"

lemma key_bound: "of_nat MAX_KEYS \<le> key \<longleftrightarrow> MAX_KEYS \<le> unat (key :: u32)"
  "key < of_nat MAX_KEYS \<longleftrightarrow> unat (key :: u32) < MAX_KEYS"
  by (simp_all add: MAX_KEYS_def word_le_nat_alt word_less_nat_alt)

lemma key_create_ok:
  assumes "keys_ok st"
  shows "pthread_key_create False st =
    (if unat (next_key st) = MAX_KEYS then ((Some EAGAIN, None), st)
     else ((None, Some (next_key st)), st\<lparr>next_key := next_key st + 1\<rparr>))"
    and "unat (next_key st) < MAX_KEYS \<Longrightarrow> unat (next_key st + 1) = unat (next_key st) + 1"
    and "keys_ok (snd (pthread_key_create b st))"
proof -
  show a: "unat (next_key st + 1) = unat (next_key st) + 1" if "unat (next_key st) < MAX_KEYS"
    using that by (simp add: MAX_KEYS_def unat_plus_if')
  show "pthread_key_create False st =
    (if unat (next_key st) = MAX_KEYS then ((Some EAGAIN, None), st)
     else ((None, Some (next_key st)), st\<lparr>next_key := next_key st + 1\<rparr>))"
    using assms by (auto simp: pthread_key_create_def key_bound keys_ok_def)
  show "keys_ok (snd (pthread_key_create b st))"
    using assms a by (auto simp: pthread_key_create_def key_bound keys_ok_def)
qed

lemma key_ops_ok:
  "keys_ok st \<Longrightarrow> keys_ok (snd (pthread_key_delete key st))"
  "keys_ok st \<Longrightarrow> keys_ok (snd (pthread_setspecific key v st))"
  "next_key (snd (pthread_key_delete key st)) = next_key st"
  "next_key (snd (pthread_setspecific key v st)) = next_key st"
  by (simp_all add: keys_ok_def pthread_key_delete_def pthread_setspecific_def)

lemma run_keys_order:
  assumes "keys_ok st" and "run_keys ops st = (ks, st')"
  shows "keys_ok st' \<and> map unat ks = [unat (next_key st)..<unat (next_key st')] \<and>
    unat (next_key st) \<le> unat (next_key st')"
  using assms
proof (induction ops arbitrary: st ks)
  case Nil
  then show ?case by simp
next
  case (Cons op ops)
  show ?case
  proof (cases op)
    case (Key_create b)
    obtain k st1 where c: "pthread_key_create b st = (k, st1)" by fastforce
    obtain ks1 st2 where r1: "run_keys ops st1 = (ks1, st2)" by fastforce
    then have r: "run_keys ops st1 = (ks1, st')" "ks = (case snd k of None \<Rightarrow> ks1 | Some key \<Rightarrow> key # ks1)"
      using Cons.prems(2) c by (cases k; auto simp: Key_create Let_def)+
    have ok1: "keys_ok st1" using key_create_ok(3) [OF Cons.prems(1), of b] c by simp
    note IH = Cons.IH [OF ok1 r(1)]
    show ?thesis
    proof (cases "b \<or> unat (next_key st) = MAX_KEYS")
      case True
      then have "k = (Some EAGAIN, None)" "st1 = st"
        using c by (auto simp: pthread_key_create_def key_bound)
      with IH r(2) show ?thesis by simp
    next
      case False
      then have lt: "unat (next_key st) < MAX_KEYS" using Cons.prems(1) by (simp add: keys_ok_def)
      have "k = (None, Some (next_key st))" "next_key st1 = next_key st + 1"
        using c False key_create_ok(1) [OF Cons.prems(1)] by auto
      with IH r(2) key_create_ok(2) [OF Cons.prems(1) lt] show ?thesis
        by (simp add: upt_conv_Cons)
    qed
  next
    case (Key_delete key)
    with Cons.IH [OF key_ops_ok(1) [OF Cons.prems(1)], of key ks] Cons.prems(2) show ?thesis
      by (simp add: key_ops_ok)
  next
    case (Key_set key v)
    with Cons.IH [OF key_ops_ok(2) [OF Cons.prems(1)], of key v ks] Cons.prems(2) show ?thesis
      by (simp add: key_ops_ok)
  qed
qed

lemma initial_keys_ok: "keys_ok initial_keys"
  by (simp add: keys_ok_def initial_keys_def)

text \<open>What a key holds, as a map from keys to pointers that is null everywhere at first.\<close>

fun key_spec :: "key_op \<Rightarrow> (u32 \<Rightarrow> addr) \<Rightarrow> (u32 \<Rightarrow> addr)" where
  "key_spec (Key_create b) m = m"
| "key_spec (Key_delete key) m = (if unat key < 16 then m(key := 0) else m)"
| "key_spec (Key_set key v) m = (if unat key < 16 then m(key := v) else m)"

lemma key_bound16: "of_nat MAX_KEYS \<le> key \<longleftrightarrow> 16 \<le> unat (key :: u32)"
  "key < of_nat MAX_KEYS \<longleftrightarrow> unat (key :: u32) < 16"
  "keys_ok st \<longleftrightarrow> length (key_values st) = 16 \<and> unat (next_key st) \<le> 16"
  unfolding key_bound keys_ok_def by (simp_all add: MAX_KEYS_def)

abbreviation key_map :: "pthread_keys \<Rightarrow> u32 \<Rightarrow> addr" where
  "key_map st \<equiv> \<lambda>key. pthread_getspecific key st"

lemma key_map_initial: "key_map initial_keys = (\<lambda>_. 0)"
  by (rule ext) (simp add: pthread_getspecific_def initial_keys_def key_bound)

lemma key_map_create: "key_map (snd (pthread_key_create b st)) = key_map st"
  by (rule ext) (simp add: pthread_key_create_def pthread_getspecific_def)

lemma key_map_update:
  assumes "keys_ok st"
  shows "key_map (snd (pthread_key_delete key st)) = key_spec (Key_delete key) (key_map st)"
    and "key_map (snd (pthread_setspecific key v st)) = key_spec (Key_set key v) (key_map st)"
proof -
  have *: "pthread_getspecific k (st\<lparr>key_values := (key_values st)[unat key := x]\<rparr>) =
      (if k = key then x else pthread_getspecific k st)" if "unat key < 16" for k x
    using that assms word_unat_eq_iff [of k key] by (auto simp: pthread_getspecific_def key_bound16)
  show "key_map (snd (pthread_key_delete key st)) = key_spec (Key_delete key) (key_map st)"
    by (rule ext) (simp add: pthread_key_delete_def key_bound16 *)
  show "key_map (snd (pthread_setspecific key v st)) = key_spec (Key_set key v) (key_map st)"
    by (rule ext) (simp add: pthread_setspecific_def key_bound16 *)
qed

abbreviation created :: "key_op list \<Rightarrow> nat" where
  "created ops \<equiv> length (filter (\<lambda>op. op = Key_create False) ops)"

lemma run_keys_refines:
  assumes "keys_ok st"
  shows "key_map (snd (run_keys ops st)) = fold key_spec ops (key_map st) \<and>
    unat (next_key (snd (run_keys ops st))) = min 16 (unat (next_key st) + created ops)"
  using assms
proof (induction ops arbitrary: st)
  case Nil
  then show ?case by (simp add: keys_ok_def MAX_KEYS_def)
next
  case (Cons op ops)
  show ?case
  proof (cases op)
    case (Key_create b)
    let ?st = "snd (pthread_key_create b st)"
    have "unat (next_key ?st) = min 16 (unat (next_key st) + created [op])"
    proof (cases "b \<or> unat (next_key st) = 16")
      case True
      then show ?thesis using Cons.prems by (auto simp: Key_create pthread_key_create_def key_bound16)
    next
      case False
      then have "unat (next_key st) < MAX_KEYS" using Cons.prems by (simp add: keys_ok_def MAX_KEYS_def)
      then show ?thesis
        using False key_create_ok(1,2) [OF Cons.prems] by (auto simp: Key_create MAX_KEYS_def)
    qed
    with Cons.IH [OF key_create_ok(3) [OF Cons.prems], of b] show ?thesis
      by (auto simp: Key_create key_map_create case_prod_beta Let_def min_def split: if_splits)
  next
    case (Key_delete key)
    with Cons.IH [OF key_ops_ok(1) [OF Cons.prems], of key] show ?thesis
      by (simp only: run_keys.simps fold_simps key_map_update(1) [OF Cons.prems] key_ops_ok(3)) simp
  next
    case (Key_set key v)
    with Cons.IH [OF key_ops_ok(2) [OF Cons.prems], of key v] show ?thesis
      by (simp only: run_keys.simps fold_simps key_map_update(2) [OF Cons.prems] key_ops_ok(4)) simp
  qed
qed

text \<open>
  C31: thread-specific data is a map with a null default. After any calls from start-up,
  what each key reads is the map that the calls describe, null at first: setting a key
  below sixteen changes that key alone, deleting it makes it null, creating one changes
  nothing, and a key out of range reads as null and keeps nothing. The keys handed out
  are \<open>0, 1, 2, ...\<close> in order, one for each creation with a place to store it up to
  sixteen; from then on every creation fails with \<open>EAGAIN\<close>, since a deleted key is never
  handed out again. Setting succeeds exactly below sixteen and is \<open>EINVAL\<close> above;
  deleting always succeeds.
\<close>

theorem thread_keys:
  assumes "run_keys ops initial_keys = (ks, st)"
  shows "(\<forall>k. pthread_getspecific k st = fold key_spec ops (\<lambda>_. 0) k) \<and>
    map unat ks = [0..<min 16 (created ops)] \<and>
    (\<forall>k v. fst (pthread_setspecific k v st) = (if unat k < 16 then None else Some EINVAL)) \<and>
    (\<forall>k. fst (pthread_key_delete k st) = None) \<and>
    (\<forall>b. fst (pthread_key_create b st) =
      (if b \<or> 16 \<le> created ops then (Some EAGAIN, None) else (None, Some (of_nat (created ops)))))"
proof -
  have ok: "keys_ok st" and order: "map unat ks = [0..<unat (next_key st)]"
    using run_keys_order [OF initial_keys_ok assms] by (simp_all add: initial_keys_def)
  have R: "key_map st = fold key_spec ops (\<lambda>_. 0)" "unat (next_key st) = min 16 (created ops)"
    using run_keys_refines [OF initial_keys_ok, of ops] assms
    by (simp_all add: key_map_initial) (simp add: initial_keys_def)
  have "fst (pthread_key_create b st) =
      (if b \<or> 16 \<le> created ops then (Some EAGAIN, None) else (None, Some (of_nat (created ops))))" for b
  proof (cases "16 \<le> created ops")
    case True
    then show ?thesis using R(2) by (simp add: pthread_key_create_def key_bound16)
  next
    case False
    then have "unat (next_key st) = created ops" using R(2) by simp
    then have "next_key st = of_nat (created ops)" using False by (simp add: word_unat_eq_iff unsigned_of_nat take_bit_nat_eq_self)
    then show ?thesis using False R(2) by (simp add: pthread_key_create_def key_bound16)
  qed
  moreover have "fst (pthread_setspecific k v st) = (if unat k < 16 then None else Some EINVAL)" for k v
    by (simp add: pthread_setspecific_def key_bound16)
  ultimately show ?thesis using fun_cong [OF R(1)] order R(2) by (simp add: pthread_key_delete_def)
qed

theorem thread_keys_witness:
  "\<exists>ks st. run_keys [Key_create False, Key_create False, Key_set 0 55, Key_set 1 77, Key_delete 0, Key_set 16 5,
       Key_create False, Key_create True] initial_keys = (ks, st) \<and> map unat ks = [0, 1, 2] \<and>
     pthread_getspecific 0 st = 0 \<and> pthread_getspecific 1 st = 77 \<and> pthread_getspecific 9 st = 0"
proof -
  let ?ops = "[Key_create False, Key_create False, Key_set 0 55, Key_set 1 77, Key_delete 0, Key_set 16 5,
       Key_create False, Key_create True]"
  obtain ks st where run: "run_keys ?ops initial_keys = (ks, st)" by fastforce
  have "map unat ks = [0..<min 16 (created ?ops)]" and "\<forall>k. pthread_getspecific k st = fold key_spec ?ops (\<lambda>_. 0) k"
    using thread_keys [OF run] by blast+
  then have "map unat ks = [0, 1, 2]" "pthread_getspecific 0 st = 0" "pthread_getspecific 1 st = 77"
    "pthread_getspecific 9 st = 0" by (simp_all add: upt_rec)
  with run show ?thesis by (intro exI conjI)
qed

section \<open>The stack range\<close>

text \<open>
  The range reported to the collector is the stack proper: inside the array the generated
  code reserves, with one page left over at each end.
\<close>

lemma stack_range:
  assumes "pthread_attr_getstack base False False = (None, Some lo, Some n)"
    and "unat base + (1048576 + 2 * 4096) < 2 ^ 64"
  shows "unat lo = unat base + 4096" and "unat lo + unat n = unat base + (1048576 + 2 * 4096) - 4096"
proof -
  have "lo = base + 4096" "n = 1048576"
    using assms(1) by (simp_all add: pthread_attr_getstack_def STACK_PAGE_SIZE_def CONTROL_STACK_SIZE_def)
  then show "unat lo = unat base + 4096" "unat lo + unat n = unat base + (1048576 + 2 * 4096) - 4096"
    using assms(2) by (simp_all add: unat_plus_if')
qed

end
