(* ===== verification/Proc_Stub.thy ===== *)
theory Proc_Stub
  imports Cpio_Fs
begin

text \<open>
  The process stubs of \<^verbatim>\<open>stub/ruby_syscall_proc.c\<close>: constant answers, a working directory
  that is always the root, and no symbolic links. An output through a pointer is \<open>None\<close>
  when the pointer is null. Last, the piece of C library start-up of
  \<^verbatim>\<open>ruby_libc_init.c\<close>.
\<close>

definition prctl :: "int \<Rightarrow> int" where "prctl option = 0"

text \<open>The characters stored, with the final NUL.\<close>

definition getcwd :: "bool \<Rightarrow> u64 \<Rightarrow> string result" where
  "getcwd buf_null sz = (if buf_null \<or> sz < 2 then Inl ERANGE else Inr [CHR ''/'', CHR 0x00])"

definition readlink :: "string option \<Rightarrow> addr \<Rightarrow> u64 \<Rightarrow> u64 result" where
  "readlink path buf bufsiz = Inl ENOENT"

definition SS_DISABLE :: int where "SS_DISABLE = 2"

record stack_t =
  ss_sp :: addr
  ss_flags :: int
  ss_size :: u64

definition sigaltstack :: "stack_t option \<Rightarrow> bool \<Rightarrow> int \<times> stack_t option" where
  "sigaltstack ss old_null =
     (0, if old_null then None else Some \<lparr>ss_sp = 0, ss_flags = SS_DISABLE, ss_size = 0\<rparr>)"

definition mprotect :: "addr \<Rightarrow> u64 \<Rightarrow> int \<Rightarrow> int" where "mprotect a len prot = 0"

definition getuid :: u32 where "getuid = 0"
definition geteuid :: u32 where "geteuid = 0"
definition getgid :: u32 where "getgid = 0"
definition getegid :: u32 where "getegid = 0"

text \<open>The working directory, when it can be stored at all, is a directory of every archive.\<close>

lemma cwd_is_directory:
  assumes "cpio_ok ar n" and "getcwd buf_null sz = Inr bs" and "file_named ar [] = None"
  shows "2 \<le> sz" and "stat ar (Some (takeWhile (\<lambda>c. c \<noteq> CHR 0x00) bs)) False = Some (Inr fill_directory)"
  using assms by (auto simp: getcwd_def stat_def find_file_def normalize_path_def is_archive_directory_def
      not_less split: if_splits)

section \<open>The locale of the thread\<close>

text \<open>
  \<open>uselocale\<close> of the C library: a non-null argument replaces the locale of the thread,
  \<open>LC_GLOBAL_LOCALE\<close> standing for the global one; the result is the old value. The
  address of the global locale is the parameter \<open>global_loc\<close>, the state is the pointer
  in the thread, which a component starts with null.
\<close>

definition LC_GLOBAL_LOCALE :: addr where "LC_GLOBAL_LOCALE = - 1"

definition uselocale :: "addr \<Rightarrow> addr \<Rightarrow> addr \<Rightarrow> addr \<times> addr" where
  "uselocale global_loc new cur =
     (if cur = global_loc then LC_GLOBAL_LOCALE else cur,
      if new = 0 then cur else if new = LC_GLOBAL_LOCALE then global_loc else new)"

definition init_thread_locale :: "addr \<Rightarrow> addr \<Rightarrow> addr" where
  "init_thread_locale global_loc cur = snd (uselocale global_loc LC_GLOBAL_LOCALE cur)"

text \<open>Afterwards no locale-dependent call follows a null pointer, whatever was there before.\<close>

lemma thread_locale_set:
  assumes "global_loc \<noteq> 0"
  shows "init_thread_locale global_loc cur = global_loc" and "init_thread_locale global_loc cur \<noteq> 0"
    and "fst (uselocale global_loc 0 (init_thread_locale global_loc cur)) = LC_GLOBAL_LOCALE"
  using assms by (simp_all add: init_thread_locale_def uselocale_def LC_GLOBAL_LOCALE_def)

end
