(* ===== verification/Spec2Isabelle.thy ===== *)
theory Spec2Isabelle
  imports Whole_Program Whole_Component Wakeups Xorshift Fake_Clock Pthread_Stub Proc_Stub
begin

text \<open>
  A verification library for the C code that lets CRuby run inside a CAmkES component on
  seL4: the ten files under \<^verbatim>\<open>apps/ruby/components/Ruby/src\<close>.

  \<^bold>\<open>The program.\<close> The component has no operating system below it but libsel4muslcsys, and
  these files supply what CRuby asks of one. \<^verbatim>\<open>ruby.c\<close> is the main program: it reads the
  script from the embedded archive and evaluates it. \<^verbatim>\<open>ruby_alloc.c\<close> replaces the whole
  allocator, \<open>mmap\<close> included, by a 64 MiB arena. \<^verbatim>\<open>ruby_syscall_fs.c\<close> serves \<open>open\<close> and
  \<open>stat\<close> from a CPIO archive. Under \<^verbatim>\<open>stub/\<close>, \<^verbatim>\<open>ruby_syscall_poll.c\<close> has fake
  eventfd and epoll descriptors, the ring buffer of standard input and \<open>poll\<close>;
  \<^verbatim>\<open>ruby_syscall_tty.c\<close> the console; \<^verbatim>\<open>ruby_syscall_random.c\<close>, \<^verbatim>\<open>ruby_syscall_clock.c\<close>,
  \<^verbatim>\<open>ruby_pthread.c\<close> and \<^verbatim>\<open>ruby_syscall_proc.c\<close> the rest; \<^verbatim>\<open>ruby_libc_init.c\<close> gives the
  thread a locale. The parts meet in a few places: the main program reads its script
  through \<open>open\<close>, \<open>fstat\<close> and \<open>malloc\<close>, the mapping of a file goes through the descriptor
  that \<open>open\<close> made and the object it allocated, the console measures itself through \<open>poll\<close>
  and \<open>read\<close>, and \<open>poll\<close> looks into the descriptor tables and the ring.

  \<^bold>\<open>The theories.\<close>

  \<^item> \<^verbatim>\<open>CMem\<close>: error numbers, the byte memory with little-endian loads and stores, and the
    read-over-write rules (collection \<open>mem_simps\<close>).
  \<^item> \<^verbatim>\<open>Arena_Alloc\<close>: every function of the allocator in \<^verbatim>\<open>ruby_alloc.c\<close>, over the byte
    memory. A block header is 32 bytes of that memory, a pointer is a 64-bit word, and the
    free list is linked through the headers, as in the code.
  \<^item> \<^verbatim>\<open>Arena_Correct\<close>: the invariant of the arena and the abstract specification
    \<open>heap_rep A s L\<close>, by which a heap \<open>s\<close> implements a finite map \<open>L\<close> from live pointers
    to usable sizes; every operation is related to an update of \<open>L\<close>.
  \<^item> \<^verbatim>\<open>Alloc_Clients\<close>: the locale \<open>allocator\<close>, its interpretation on \<open>malloc\<close> and
    \<open>free\<close>, and the callers \<open>calloc\<close>, \<open>realloc\<close> and \<open>posix_memalign\<close>.
  \<^item> \<^verbatim>\<open>Alloc_Props\<close>: the properties of the allocator.
  \<^item> \<^verbatim>\<open>Mmap\<close>: \<open>mmap\<close>, \<open>munmap\<close> and \<open>mremap\<close>, a second interpretation of \<open>allocator\<close>, and
    their properties.
  \<^item> \<^verbatim>\<open>Heap_Machine\<close>: all of these calls, those that fail included, as one step relation, with
    its invariant.
  \<^item> \<^verbatim>\<open>Cpio_Fs\<close>: paths, archive lookup, \<open>open\<close> and the \<open>stat\<close> family.
  \<^item> \<^verbatim>\<open>Fake_Fd\<close>: eventfd and epoll, with the locale \<open>slot_table\<close> interpreted on both
    descriptor tables, and \<open>epoll_ctl\<close> refining an update of a finite map.
  \<^item> \<^verbatim>\<open>Archive_Fd\<close>: \<open>read\<close> and \<open>close\<close> of a descriptor of the archive, passed on by the
    component's own wrappers; an open file is abstracted to its contents and its position.
  \<^item> \<^verbatim>\<open>Serial_Ring\<close>: the ring of standard input, the locale \<open>byte_queue\<close> interpreted on
    it, and \<open>readv\<close>.
  \<^item> \<^verbatim>\<open>Poll_Wait\<close>: \<open>poll\<close> and \<open>ppoll\<close>; \<^verbatim>\<open>Console_Tty\<close>: terminal attributes and the
    measurement of the screen; \<^verbatim>\<open>Console_Session\<close>: both, with the ring and the server, as one
    step relation with a history of what came in and what was handed out.
  \<^item> \<^verbatim>\<open>Xorshift\<close>, \<^verbatim>\<open>Fake_Clock\<close>, \<^verbatim>\<open>Pthread_Stub\<close>, \<^verbatim>\<open>Proc_Stub\<close>: the remaining stubs.
  \<^item> \<^verbatim>\<open>Wakeups\<close>: what \<open>write\<close>, \<open>poll\<close>, \<open>epoll_wait\<close>, \<open>read\<close>, \<open>readv\<close> and \<open>fcntl\<close> promise one
    another about the same descriptor.
  \<^item> \<^verbatim>\<open>Ruby_Run\<close>: \<^verbatim>\<open>ruby.c\<close> over any calls, with the locale \<open>script_file\<close> for what its read
    loop relies on.
  \<^item> \<^verbatim>\<open>Ruby_System\<close>: \<^verbatim>\<open>ruby.c\<close> over the component's own \<open>open\<close>, \<open>fstat\<close>, \<open>malloc\<close>, \<open>read\<close>,
    \<open>close\<close> and \<open>free\<close>; \<open>script_file\<close> is interpreted on them, and the script is followed from
    the archive to the interpreter through one memory.
  \<^item> \<^verbatim>\<open>Component_Machine\<close>: the component as one step relation over the shared heap, the
    descriptor table and the fake descriptors, with a typing of the heap that every step
    preserves, and what \<open>read\<close>, \<open>fstat\<close>, \<open>mmap\<close> and \<open>close\<close> give in a typed state.
  \<^item> \<^verbatim>\<open>Whole_Component\<close>: that machine and the console sessions together, over one heap and one
    set of tables; what \<open>readv\<close> takes from the ring arrives in a held block.
  \<^item> \<^verbatim>\<open>Whole_Program\<close>: \<^verbatim>\<open>ruby.c\<close> from start-up to its end inside that machine.

  \<^bold>\<open>Conventions.\<close> State is passed and returned explicitly. A call that sets \<open>errno\<close> returns
  \<open>Inl\<close> of it. Machine integers are words of their width, so wrap-around is the code's. An
  outer option is \<open>None\<close> where the C code gives no answer: a list walk or a wait that never
  ends, or a null pointer it would follow. Such loops are \<open>partial_function\<close>, and the
  properties state that the answer exists. The free-list walk has no fuel: it is shown to
  end because the list of a well-formed arena is finite and without repetition.

  \<^bold>\<open>What is a parameter.\<close> Code outside the repository: the descriptor table and the layout
  of \<open>cpio_file_data_t\<close> of libsel4muslcsys (\<open>fdlib\<close>, \<open>cpio_layout\<close>), the archive reader
  (\<open>cpio\<close>), the real system calls (\<open>os_calls\<close>), the serial server (\<open>put\<close>), the time server
  (\<open>time_server\<close>), the address of the arena and of the control stack, and the interpreter.
  What is relied on of them is a named hypothesis (\<open>layout_ok\<close>, \<open>fdlib_ok\<close>, \<open>cpio_ok\<close>,
  \<open>server_ok\<close>, \<open>system_reads\<close>, \<open>reads_archive\<close>, \<open>closes_archive\<close>, \<open>fdlib_tracks\<close>,
  \<open>component_laws\<close>, \<open>quiet_stdin\<close>, \<open>no_read\<close>), and each has a concrete instance in the library.

  \<^bold>\<open>Bounds.\<close> The allocator is verified for requests at least 32 bytes below the largest
  \<open>size_t\<close>; that the bound is needed is the property \<open>malloc_accepts_SIZE_MAX\<close>. An arena
  starts on a page and ends before the end of the address space (\<open>arena_at\<close>). The clock is
  verified until its 64-bit counter wraps. A file of 4 GiB or more has its size cut to 32
  bits by \<open>open\<close>; the equivalence of \<open>fstat\<close> and \<open>stat\<close> says what that does.

  \<^bold>\<open>Not modelled.\<close> The text of diagnostics (only that one is printed), the order of writes
  to the shared ring inside one server step, signals, and the build files.
\<close>

end
